(* ===== verification/Prelude.thy ===== *)
theory Prelude
  imports Main "HOL-Library.Word" "HOL-Library.Char_ord" "HOL-Library.List_Lexorder"
begin

section \<open>Error codes, limits, C strings and the allocator\<close>

text \<open>
  What every other theory shares: the codes of \<open>include/errors.h\<close>, the limits of
  \<open>include/config.h\<close>, the behaviour of the C library's string and number routines on the
  values the program gives them, and the memory allocator.

  A C string is the \<open>string\<close> of its bytes before the terminating NUL, so \<open>strlen\<close> is
  \<open>length\<close>; \<open>cstr\<close> reads a buffer as such a string. A pointer that walks through a
  buffer is the suffix it points at. A routine that fills a buffer returns its new contents.
\<close>

named_theorems cstring_simps \<open>evaluation of the C string routines\<close>
named_theorems wf_simps \<open>unfolding of the well-formedness predicates\<close>

subsection \<open>Error codes (errors.h)\<close>

datatype code =
    OK | INVALID_BLOCK | CHAIN_MISMATCH | INVALID_TRANSACTION | BLOCK_NOT_FOUND
  | IPC_ERROR | CSV_PARSE_ERROR | FILE_ERROR | ARGS_ERROR
  | IPC_EMPTY | IPC_INTR | IPC_TIMEOUT | SYS_ERROR

text \<open>The numbers the header gives them, which \<open>scripts/errors.sh\<close> repeats.\<close>

fun code_value :: "code \<Rightarrow> nat" where
  "code_value OK = 0"
| "code_value INVALID_BLOCK = 10"
| "code_value CHAIN_MISMATCH = 11"
| "code_value INVALID_TRANSACTION = 12"
| "code_value BLOCK_NOT_FOUND = 13"
| "code_value IPC_ERROR = 20"
| "code_value CSV_PARSE_ERROR = 21"
| "code_value FILE_ERROR = 22"
| "code_value ARGS_ERROR = 23"
| "code_value IPC_EMPTY = 24"
| "code_value IPC_INTR = 25"
| "code_value IPC_TIMEOUT = 26"
| "code_value SYS_ERROR = 30"

lemma code_value_inj: "code_value a = code_value b \<Longrightarrow> a = b"
  by (cases a; cases b) simp_all

text \<open>Codes are ordered by their numbers, so that the library's order facts apply to them.\<close>

instantiation code :: linorder
begin

definition less_eq_code :: "code \<Rightarrow> code \<Rightarrow> bool" where
  "less_eq_code a b \<longleftrightarrow> code_value a \<le> code_value b"

definition less_code :: "code \<Rightarrow> code \<Rightarrow> bool" where
  "less_code a b \<longleftrightarrow> code_value a < code_value b"

instance
  by standard (auto simp: less_eq_code_def less_code_def dest: code_value_inj)

end

subsection \<open>Limits (config.h)\<close>

abbreviation (input) MAX_NODES :: nat where "MAX_NODES \<equiv> 16"
abbreviation (input) MAX_MINERS :: nat where "MAX_MINERS \<equiv> 16"
abbreviation (input) MAX_CLIENTS :: nat where "MAX_CLIENTS \<equiv> 16"
abbreviation (input) MAX_TX_LEN :: nat where "MAX_TX_LEN \<equiv> 128"
abbreviation (input) MAX_TX_PER_BLOCK :: nat where "MAX_TX_PER_BLOCK \<equiv> 16"
abbreviation (input) MSG_PAYLOAD_MAX :: nat where "MSG_PAYLOAD_MAX \<equiv> 4064"
abbreviation (input) HASH_HEX_LEN :: nat where "HASH_HEX_LEN \<equiv> 64"
abbreviation (input) HEX16_LEN :: nat where "HEX16_LEN \<equiv> 16"
abbreviation (input) MAX_PATH_LEN :: nat where "MAX_PATH_LEN \<equiv> 256"
abbreviation (input) MAX_TX_FREQ :: nat where "MAX_TX_FREQ \<equiv> 1000"
abbreviation (input) REPLY_TIMEOUT_S :: nat where "REPLY_TIMEOUT_S \<equiv> 2"
abbreviation (input) POLL_NAP_MS :: nat where "POLL_NAP_MS \<equiv> 50"

definition MAX_SERIAL_LEN :: nat where
  "MAX_SERIAL_LEN = HEX16_LEN * 3 + HASH_HEX_LEN * 2 + MAX_TX_PER_BLOCK * (MAX_TX_LEN - 1)
     + (MAX_TX_PER_BLOCK - 1) * 2 + 1"

definition MAX_CSV_ROW_LEN :: nat where
  "MAX_CSV_ROW_LEN = MAX_SERIAL_LEN + 5"

definition CSV_HEADER :: string where
  "CSV_HEADER = ''index,timestamp,prev_hash,merkle_root,nonce,transactions''"

lemma MAX_SERIAL_LEN_eq [simp]: "MAX_SERIAL_LEN = 2239"
  by (simp add: MAX_SERIAL_LEN_def)

lemma MAX_CSV_ROW_LEN_eq [simp]: "MAX_CSV_ROW_LEN = 2244"
  by (simp add: MAX_CSV_ROW_LEN_def)

subsection \<open>The allocator\<close>

text \<open>
  \<open>malloc\<close>, \<open>calloc\<close> and \<open>realloc\<close> may refuse. The answer of the system is a
  parameter: \<open>mem n\<close> says whether a request for \<open>n\<close> bytes is granted during one call
  of an operation. The C library grants no object above \<open>PTRDIFF_MAX = 2 ^ 63 - 1\<close> bytes, so
  no request of \<open>2 ^ 63\<close> bytes or more
  can be granted.
\<close>

type_synonym allocator = "nat \<Rightarrow> bool"

definition alloc :: "allocator \<Rightarrow> nat \<Rightarrow> bool" where
  "alloc mem n \<longleftrightarrow> n < 2 ^ 63 \<and> mem n"

abbreviation plenty :: allocator where "plenty \<equiv> (\<lambda>n. True)"

subsection \<open>Bytes, NUL and buffers\<close>

abbreviation NUL :: char where "NUL \<equiv> CHR 0x00"
abbreviation LF :: char where "LF \<equiv> CHR 0x0A"
abbreviation CR :: char where "CR \<equiv> CHR 0x0D"

definition cstr :: "char list \<Rightarrow> string" where
  "cstr buf = takeWhile (\<lambda>c. c \<noteq> NUL) buf"

lemma cstr_no_nul [simp]: "NUL \<notin> set (cstr buf)"
  by (auto simp: cstr_def dest: set_takeWhileD)

lemma cstr_id [simp]: "NUL \<notin> set s \<Longrightarrow> cstr s = s"
  by (auto simp: cstr_def takeWhile_eq_all_conv)

lemma cstr_append_nul [simp]: "NUL \<notin> set s \<Longrightarrow> cstr (s @ NUL # rest) = s"
  by (auto simp: cstr_def takeWhile_append)

text \<open>
  \<open>snprintf(out, cap, ...)\<close> with \<open>cap > 0\<close> stores at most \<open>cap - 1\<close> bytes of the
  formatted string \<open>s\<close> and returns \<open>strlen(s)\<close>; the callers compare that with \<open>cap\<close>.
\<close>

definition snprintf_out :: "nat \<Rightarrow> string \<Rightarrow> string" where
  "snprintf_out cap s = take (cap - 1) s"

definition snprintf_fits :: "nat \<Rightarrow> string \<Rightarrow> bool" where
  "snprintf_fits cap s \<longleftrightarrow> length s < cap"

lemma snprintf_out_fits [simp]: "snprintf_fits cap s \<Longrightarrow> snprintf_out cap s = s"
  by (simp add: snprintf_out_def snprintf_fits_def)

subsection \<open>String comparison and search\<close>

fun strcmp :: "string \<Rightarrow> string \<Rightarrow> int" where
  "strcmp [] [] = 0"
| "strcmp [] (y # ys) = -1"
| "strcmp (x # xs) [] = 1"
| "strcmp (x # xs) (y # ys) = (if x = y then strcmp xs ys else if x < y then -1 else 1)"

lemma strcmp_eq_0 [simp]: "strcmp a b = 0 \<longleftrightarrow> a = b"
  by (induction a b rule: strcmp.induct) auto

text \<open>The order \<open>strcmp\<close> gives is the library's lexicographic order on strings.\<close>

lemma strcmp_less_0 [simp]: "strcmp a b < 0 \<longleftrightarrow> a < b"
  by (induction a b rule: strcmp.induct) auto

definition starts_with :: "string \<Rightarrow> string \<Rightarrow> bool" where
  \<comment> \<open>\<open>strncmp(s, p, strlen(p)) == 0\<close>\<close>
  "starts_with p s \<longleftrightarrow> take (length p) s = p"

lemma starts_with_append [simp]: "starts_with p (p @ s)"
  by (simp add: starts_with_def)

lemma starts_with_iff: "starts_with p s \<longleftrightarrow> (\<exists>r. s = p @ r)"
  by (metis append_take_drop_id starts_with_append starts_with_def)

fun strstr :: "string \<Rightarrow> string \<Rightarrow> nat option" where
  \<comment> \<open>offset of the first occurrence of a non-empty pattern\<close>
  "strstr [] p = None"
| "strstr (c # s) p =
     (if starts_with p (c # s) then Some 0 else map_option Suc (strstr s p))"

lemma strstr_Some:
  "strstr s p = Some i \<Longrightarrow> \<exists>r. s = take i s @ p @ r \<and> i + length p \<le> length s"
proof (induction s arbitrary: i)
  case Nil
  then show ?case by simp
next
  case (Cons c s)
  show ?case
  proof (cases "starts_with p (c # s)")
    case True
    then obtain r where r: "c # s = p @ r" by (auto simp: starts_with_iff)
    then have "length p \<le> length (c # s)" by simp
    moreover have "i = 0" using Cons.prems True by simp
    ultimately show ?thesis using r by simp
  next
    case False
    with Cons.prems obtain j where j: "strstr s p = Some j" "i = Suc j" by auto
    from Cons.IH [OF j(1)] j(2) show ?thesis by auto
  qed
qed

lemma strstr_length: "strstr s p = Some i \<Longrightarrow> i + length p \<le> length s"
  by (auto dest: strstr_Some)

definition strchr :: "string \<Rightarrow> char \<Rightarrow> nat option" where
  "strchr s c = (if c \<in> set s then Some (length (takeWhile (\<lambda>x. x \<noteq> c) s)) else None)"

lemma strchr_length: "strchr s c = Some i \<Longrightarrow> i < length s"
proof -
  assume "strchr s c = Some i"
  then have c: "c \<in> set s" and i: "i = length (takeWhile (\<lambda>x. x \<noteq> c) s)"
    by (auto simp: strchr_def split: if_splits)
  from c have "takeWhile (\<lambda>x. x \<noteq> c) s \<noteq> s" by (auto simp: takeWhile_eq_all_conv)
  then show "i < length s"
    using i length_takeWhile_le [of "\<lambda>x. x \<noteq> c" s] takeWhile_eq_take [of "\<lambda>x. x \<noteq> c" s]
    by (metis le_neq_implies_less take_all_iff le_refl)
qed

lemma strchr_line [simp]: "c \<notin> set l \<Longrightarrow> strchr (l @ c # r) c = Some (length l)"
  by (simp add: strchr_def takeWhile_append)

lemma strchr_None [simp]: "c \<notin> set l \<Longrightarrow> strchr l c = None"
  by (simp add: strchr_def)

subsection \<open>Numbers as text\<close>

definition hex_digit :: "nat \<Rightarrow> char" where
  "hex_digit n = ''0123456789abcdef'' ! n"

primrec hex_nibbles :: "nat \<Rightarrow> nat \<Rightarrow> string" where
  \<comment> \<open>\<open>%0kx\<close> of a value below \<open>16 ^ k\<close>: its \<open>k\<close> hexadecimal digits\<close>
  "hex_nibbles 0 v = []"
| "hex_nibbles (Suc k) v = hex_nibbles k (v div 16) @ [hex_digit (v mod 16)]"

lemma length_hex_nibbles [simp]: "length (hex_nibbles k v) = k"
  by (induction k arbitrary: v) simp_all

definition isdigit :: "char \<Rightarrow> bool" where
  "isdigit c \<longleftrightarrow> CHR ''0'' \<le> c \<and> c \<le> CHR ''9''"

definition isxdigit :: "char \<Rightarrow> bool" where
  "isxdigit c \<longleftrightarrow> isdigit c \<or> (CHR ''a'' \<le> c \<and> c \<le> CHR ''f'') \<or> (CHR ''A'' \<le> c \<and> c \<le> CHR ''F'')"

definition hex_value :: "char \<Rightarrow> nat" where
  "hex_value c = (if CHR ''a'' \<le> c then of_char c - 87
     else if CHR ''A'' \<le> c then of_char c - 55 else of_char c - 48)"

definition hex_read :: "string \<Rightarrow> nat" where
  "hex_read s = foldl (\<lambda>a c. 16 * a + hex_value c) 0 s"

fun dec :: "nat \<Rightarrow> string" where
  \<comment> \<open>\<open>%d\<close>, \<open>%u\<close>, \<open>%zu\<close>, \<open>%llu\<close> of a non-negative value\<close>
  "dec n = (if n < 10 then [hex_digit n] else dec (n div 10) @ [hex_digit (n mod 10)])"

declare dec.simps [simp del]

definition dec_read :: "string \<Rightarrow> nat" where
  "dec_read s = foldl (\<lambda>a c. 10 * a + (of_char c - 48)) 0 s"

definition lower_hex :: "char \<Rightarrow> bool" where
  "lower_hex c \<longleftrightarrow> isdigit c \<or> (CHR ''a'' \<le> c \<and> c \<le> CHR ''f'')"

lemma hex_digit_table:
  "\<forall>n \<in> set [0..<16]. hex_value (hex_digit n) = n \<and> lower_hex (hex_digit n)
     \<and> (n < 10 \<longrightarrow> isdigit (hex_digit n) \<and> of_char (hex_digit n) = (48 + n :: nat))"
  by code_simp

lemma hex_digit_facts:
  assumes "n < 16"
  shows hex_value_digit [simp]: "hex_value (hex_digit n) = n"
    and lower_hex_digit [simp]: "lower_hex (hex_digit n)"
  using hex_digit_table assms by auto

lemma dec_digit_facts:
  assumes "n < 10"
  shows isdigit_digit [simp]: "isdigit (hex_digit n)"
    and of_char_digit [simp]: "of_char (hex_digit n) = (48 + n :: nat)"
  using hex_digit_table assms by auto

lemma lower_hex_isxdigit: "lower_hex c \<Longrightarrow> isxdigit c"
  by (auto simp: lower_hex_def isxdigit_def)

text \<open>The hexadecimal digits by their byte values, in both directions.\<close>

lemma char_via_code:
  assumes "\<forall>n \<in> set ns. P (char_of n :: char)" and "of_char c \<in> set (ns :: nat list)"
  shows "P c"
  using bspec [OF assms] by simp

lemma lower_hex_codes: "lower_hex c \<Longrightarrow> (of_char c :: nat) \<in> set ([48..<58] @ [97..<103])"
  by (simp only: set_append set_upt Un_iff atLeastLessThan_iff)
    (auto simp: lower_hex_def isdigit_def less_eq_char_def)

lemma isxdigit_codes:
  "isxdigit c \<Longrightarrow> (of_char c :: nat) \<in> set ([48..<58] @ [65..<71] @ [97..<103])"
  by (simp only: set_append set_upt Un_iff atLeastLessThan_iff)
    (auto simp: isxdigit_def isdigit_def less_eq_char_def)

lemma lower_hex_table:
  "\<forall>n \<in> set ([48..<58] @ [97..<103]).
     hex_value (char_of n) < 16 \<and> hex_digit (hex_value (char_of n)) = char_of n
     \<and> (char_of n :: char) \<notin> {NUL, LF, CR, CHR '','', CHR '':'', CHR '' ''}"
  by code_simp

lemma lower_hex_facts:
  assumes "lower_hex c"
  shows lower_hex_value: "hex_value c < 16"
    and lower_hex_digit_value: "hex_digit (hex_value c) = c"
    and lower_hex_neq: "c \<notin> {NUL, LF, CR, CHR '','', CHR '':'', CHR '' ''}"
  using char_via_code [OF lower_hex_table lower_hex_codes [OF assms]] by auto

lemma hex_nibbles_lower: "c \<in> set (hex_nibbles k v) \<Longrightarrow> lower_hex c"
  by (induction k arbitrary: v) auto

lemma hex_nibbles_clean [simp]:
  "NUL \<notin> set (hex_nibbles k v)" "LF \<notin> set (hex_nibbles k v)" "CR \<notin> set (hex_nibbles k v)"
  "CHR '','' \<notin> set (hex_nibbles k v)" "CHR '':'' \<notin> set (hex_nibbles k v)"
  using hex_nibbles_lower lower_hex_neq by blast+

lemma hex_read_snoc [simp]: "hex_read (s @ [c]) = 16 * hex_read s + hex_value c"
  by (simp add: hex_read_def)

lemma hex_read_Nil [simp]: "hex_read [] = 0"
  by (simp add: hex_read_def)

lemma hex_read_nibbles: "v < 16 ^ k \<Longrightarrow> hex_read (hex_nibbles k v) = v"
proof (induction k arbitrary: v)
  case 0
  then show ?case by simp
next
  case (Suc k)
  from Suc.prems have "v div 16 < 16 ^ k" by (simp add: less_mult_imp_div_less mult.commute)
  with Suc.IH show ?case by simp
qed

lemma hex_nibbles_read:
  "(\<forall>c \<in> set s. lower_hex c) \<Longrightarrow> hex_nibbles (length s) (hex_read s) = s"
proof (induction s rule: rev_induct)
  case Nil
  then show ?case by simp
next
  case (snoc c s)
  then have "hex_value c < 16" "hex_digit (hex_value c) = c"
    by (auto simp: lower_hex_value lower_hex_digit_value)
  with snoc show ?case by simp
qed

lemma isxdigit_table:
  "\<forall>n \<in> set ([48..<58] @ [65..<71] @ [97..<103]). hex_value (char_of n) < 16"
  by code_simp

lemma isxdigit_value: "isxdigit c \<Longrightarrow> hex_value c < 16"
  using char_via_code [OF isxdigit_table isxdigit_codes] by auto

lemma hex_read_bound:
  "(\<forall>c \<in> set s. isxdigit c) \<Longrightarrow> hex_read s < 16 ^ length s"
proof (induction s rule: rev_induct)
  case Nil
  then show ?case by simp
next
  case (snoc c s)
  then have "hex_value c < 16" "hex_read s < 16 ^ length s"
    by (auto simp: isxdigit_value)
  then show ?case by simp
qed

lemma dec_nonempty [simp]: "dec n \<noteq> []"
  by (subst dec.simps) simp

lemma dec_isdigit: "c \<in> set (dec n) \<Longrightarrow> isdigit c"
  by (induction n rule: dec.induct) (subst (asm) (2) dec.simps, auto split: if_splits)

lemma dec_read_dec [simp]: "dec_read (dec n) = n"
  by (induction n rule: dec.induct) (subst dec.simps, auto simp: dec_read_def)

lemma length_dec: "n < 10 ^ k \<Longrightarrow> 0 < k \<Longrightarrow> length (dec n) \<le> k"
proof (induction k arbitrary: n)
  case 0
  then show ?case by simp
next
  case (Suc k)
  show ?case
  proof (cases "n < 10")
    case True
    then show ?thesis by (simp add: dec.simps [of n])
  next
    case False
    then have "0 < k" using Suc.prems by (cases k) auto
    moreover have "n div 10 < 10 ^ k" using Suc.prems by simp
    ultimately show ?thesis using Suc.IH [of "n div 10"] False by (simp add: dec.simps [of n])
  qed
qed

lemma dec_inj [simp]: "dec m = dec n \<longleftrightarrow> m = n"
  by (metis dec_read_dec)

subsection \<open>Reading numbers: strtoull and atoi\<close>

definition isspace :: "char \<Rightarrow> bool" where
  "isspace c \<longleftrightarrow> c = CHR '' '' \<or> (CHR 0x09 \<le> c \<and> c \<le> CHR 0x0D)"

text \<open>
  The subject sequence both routines look for: blanks, an optional sign, digits. The result is
  the sign, the value of the digits and the number of characters used, \<open>None\<close> without digits.
\<close>

definition scan_number :: "string \<Rightarrow> (bool \<times> nat \<times> nat) option" where
  "scan_number s =
     (let blanks = takeWhile isspace s; t = dropWhile isspace s;
          sign = take 1 t; signed = (sign = ''+'' \<or> sign = ''-'');
          ds = takeWhile isdigit (if signed then drop 1 t else t)
      in if ds = [] then None
         else Some (sign = ''-'', dec_read ds,
                    length blanks + (if signed then 1 else 0) + length ds))"

text \<open>\<open>strtoull(s, &end, 10)\<close>: the value, saturated at \<open>ULLONG_MAX\<close>, and \<open>end - s\<close>.\<close>

definition strtoull10 :: "string \<Rightarrow> 64 word \<times> nat" where
  "strtoull10 s =
     (case scan_number s of None \<Rightarrow> (0, 0)
      | Some (neg, v, used) \<Rightarrow>
          (if v \<ge> 2 ^ 64 then - 1 else if neg then - of_nat v else of_nat v, used))"

text \<open>\<open>atoi\<close> of the GNU library: \<open>strtol\<close>, which saturates at 64 bits, cut to a 32-bit \<open>int\<close>.\<close>

definition atoi :: "string \<Rightarrow> int" where
  "atoi s =
     (case scan_number s of None \<Rightarrow> 0
      | Some (neg, v, used) \<Rightarrow>
          sint (of_int (if neg then max (- int v) (- (2 ^ 63)) else min (int v) (2 ^ 63 - 1)) :: 32 word))"

lemma dec_isdigit_all: "list_all isdigit (dec n)"
  by (simp add: list_all_iff dec_isdigit)

lemma isdigit_facts: "isdigit c \<Longrightarrow> \<not> isspace c \<and> c \<noteq> CHR ''+'' \<and> c \<noteq> CHR ''-''"
  by (auto simp: isdigit_def isspace_def less_eq_char_def)

lemma scan_number_dec: "scan_number (dec n) = Some (False, n, length (dec n))"
proof -
  obtain d ds where d: "dec n = d # ds" by (cases "dec n") auto
  then have dg: "isdigit d" "list_all isdigit ds" using dec_isdigit_all [of n] by simp_all
  then have all: "takeWhile isdigit (dec n) = dec n"
    by (simp add: d takeWhile_eq_all_conv list_all_iff)
  have "takeWhile isspace (dec n) = []" "dropWhile isspace (dec n) = dec n"
    using isdigit_facts [OF dg(1)] by (simp_all add: d)
  moreover have "take 1 (dec n) \<noteq> ''+''" "take 1 (dec n) \<noteq> ''-''"
    using isdigit_facts [OF dg(1)] by (simp_all add: d)
  ultimately show ?thesis by (simp add: scan_number_def Let_def all)
qed

lemma strtoull10_dec: "n < 2 ^ 64 \<Longrightarrow> strtoull10 (dec n) = (of_nat n, length (dec n))"
  by (simp add: strtoull10_def scan_number_dec)

lemma atoi_dec:
  assumes "n < 2 ^ 31"
  shows "atoi (dec n) = int n"
proof -
  have "sint (of_int (int n) :: 32 word) = int n"
    using assms by (simp add: signed_of_nat signed_take_bit_int_eq_self)
  moreover have "min (int n) (2 ^ 63 - 1) = int n" using assms by simp
  ultimately show ?thesis by (simp add: atoi_def scan_number_dec)
qed

end
