(* ===== verification/Crypto.thy ===== *)
theory Crypto
  imports Prelude
begin

section \<open>SHA-256, hexadecimal numbers and the Merkle root (crypto.c)\<close>

text \<open>
  \<open>src/crypto.c\<close> function by function. Words are \<open>32 word\<close>, so additions wrap and
  shifts drop bits as on \<open>uint32_t\<close>. \<open>sha256\<close> is the digest of a byte string;
  \<open>sha256_hex\<close> adds the one thing that can fail, the allocation of the padded copy.
  The Merkle tree is first the code's loop over two levels, with its error returns, and then
  \<open>merkle_of\<close>, the same tree without errors, on which the binding property is proved for
  every digest of 64 lower-case hexadecimal characters (locale \<open>digest\<close>), interpreted by
  \<open>sha256\<close>.
\<close>

unbundle bit_operations_syntax

type_synonym u8 = "8 word"
type_synonym u32 = "32 word"
type_synonym u64 = "64 word"

subsection \<open>The word functions\<close>

definition rotr :: "u32 \<Rightarrow> nat \<Rightarrow> u32" where
  "rotr x n = drop_bit n x OR push_bit (32 - n) x"

definition ch :: "u32 \<Rightarrow> u32 \<Rightarrow> u32 \<Rightarrow> u32" where
  "ch x y z = (x AND y) XOR (NOT x AND z)"

definition maj :: "u32 \<Rightarrow> u32 \<Rightarrow> u32 \<Rightarrow> u32" where
  "maj x y z = (x AND y) XOR (x AND z) XOR (y AND z)"

definition SIGMA0 :: "u32 \<Rightarrow> u32" where
  "SIGMA0 x = rotr x 2 XOR rotr x 13 XOR rotr x 22"

definition SIGMA1 :: "u32 \<Rightarrow> u32" where
  "SIGMA1 x = rotr x 6 XOR rotr x 11 XOR rotr x 25"

definition sigma0 :: "u32 \<Rightarrow> u32" where
  "sigma0 x = rotr x 7 XOR rotr x 18 XOR drop_bit 3 x"

definition sigma1 :: "u32 \<Rightarrow> u32" where
  "sigma1 x = rotr x 17 XOR rotr x 19 XOR drop_bit 10 x"

subsection \<open>Hexadecimal 64-bit numbers\<close>

definition u64_to_hex16 :: "u64 \<Rightarrow> string" where
  "u64_to_hex16 v = hex_nibbles 16 (unat v)"

definition hex16_to_u64 :: "string \<Rightarrow> code + u64" where
  "hex16_to_u64 s =
     (if length s \<noteq> 16 then Inl INVALID_BLOCK
      else if \<not> list_all isxdigit (take 16 s) then Inl INVALID_BLOCK
      else Inr (of_nat (hex_read s)))"

subsection \<open>The hash\<close>

definition H_INIT :: "u32 list" where
  "H_INIT =
    [0x6a09e667, 0xbb67ae85, 0x3c6ef372, 0xa54ff53a,
     0x510e527f, 0x9b05688c, 0x1f83d9ab, 0x5be0cd19]"

definition K :: "u32 list" where
  "K = concat [
    [0x428a2f98, 0x71374491, 0xb5c0fbcf, 0xe9b5dba5, 0x3956c25b, 0x59f111f1, 0x923f82a4, 0xab1c5ed5],
    [0xd807aa98, 0x12835b01, 0x243185be, 0x550c7dc3, 0x72be5d74, 0x80deb1fe, 0x9bdc06a7, 0xc19bf174],
    [0xe49b69c1, 0xefbe4786, 0x0fc19dc6, 0x240ca1cc, 0x2de92c6f, 0x4a7484aa, 0x5cb0a9dc, 0x76f988da],
    [0x983e5152, 0xa831c66d, 0xb00327c8, 0xbf597fc7, 0xc6e00bf3, 0xd5a79147, 0x06ca6351, 0x14292967],
    [0x27b70a85, 0x2e1b2138, 0x4d2c6dfc, 0x53380d13, 0x650a7354, 0x766a0abb, 0x81c2c92e, 0x92722c85],
    [0xa2bfe8a1, 0xa81a664b, 0xc24b8b70, 0xc76c51a3, 0xd192e819, 0xd6990624, 0xf40e3585, 0x106aa070],
    [0x19a4c116, 0x1e376c08, 0x2748774c, 0x34b0bcb5, 0x391c0cb3, 0x4ed8aa4a, 0x5b9cca4f, 0x682e6ff3],
    [0x748f82ee, 0x78a5636f, 0x84c87814, 0x8cc70208, 0x90befffa, 0xa4506ceb, 0xbef9a3f7, 0xc67178f2]]"

definition padded_len :: "nat \<Rightarrow> nat" where
  "padded_len len =
     (let p = len + 1 + 8 in if p mod 64 \<noteq> 0 then p + (64 - p mod 64) else p)"

text \<open>
  The zeroed buffer, the copied data, the padding bit, and the bit length written byte by byte
  from the end.
\<close>

definition padded_msg :: "u8 list \<Rightarrow> u8 list" where
  "padded_msg data =
     (let len = length data; pl = padded_len len;
          msg_len_bits = (of_nat len :: u64) * 8;
          buf = (data @ drop len (replicate pl 0))[len := 0x80]
      in fold (\<lambda>i b. b[pl - 1 - i := ucast (drop_bit (i * 8) msg_len_bits)]) [0..<8] buf)"

definition word_at :: "u8 list \<Rightarrow> nat \<Rightarrow> u32" where
  "word_at m k =
     push_bit 24 (ucast (m ! k)) OR push_bit 16 (ucast (m ! (k + 1)))
       OR push_bit 8 (ucast (m ! (k + 2))) OR ucast (m ! (k + 3))"

primrec extend :: "nat \<Rightarrow> u32 list \<Rightarrow> u32 list" where
  \<comment> \<open>\<open>W[i] = sigma1(W[i-2]) + W[i-7] + sigma0(W[i-15]) + W[i-16]\<close> at \<open>i = length W\<close>\<close>
  "extend 0 W = W"
| "extend (Suc n) W = extend n (W @
     [sigma1 (W ! (length W - 2)) + W ! (length W - 7)
      + sigma0 (W ! (length W - 15)) + W ! (length W - 16)])"

definition schedule :: "u8 list \<Rightarrow> nat \<Rightarrow> u32 list" where
  "schedule m offset = extend 48 (map (\<lambda>i. word_at m (offset + i * 4)) [0..<16])"

type_synonym sha_state = "u32 \<times> u32 \<times> u32 \<times> u32 \<times> u32 \<times> u32 \<times> u32 \<times> u32"

fun sha_round :: "u32 \<times> u32 \<Rightarrow> sha_state \<Rightarrow> sha_state" where
  "sha_round (k, w) (a, b, c, d, e, f, g, h) =
     (let T1 = h + SIGMA1 e + ch e f g + k + w;
          T2 = SIGMA0 a + maj a b c
      in (T1 + T2, a, b, c, d + T1, e, f, g))"

fun state_of :: "u32 list \<Rightarrow> sha_state" where
  "state_of H = (H ! 0, H ! 1, H ! 2, H ! 3, H ! 4, H ! 5, H ! 6, H ! 7)"

fun list_of :: "sha_state \<Rightarrow> u32 list" where
  "list_of (a, b, c, d, e, f, g, h) = [a, b, c, d, e, f, g, h]"

definition sha_block :: "u8 list \<Rightarrow> nat \<Rightarrow> u32 list \<Rightarrow> u32 list" where
  "sha_block m offset H =
     map2 (+) H (list_of (fold sha_round (zip K (schedule m offset)) (state_of H)))"

definition bytes_of :: "string \<Rightarrow> u8 list" where
  "bytes_of s = map of_char s"

definition sha256 :: "string \<Rightarrow> string" where
  "sha256 data =
     (let m = padded_msg (bytes_of data);
          H = fold (sha_block m) (map (\<lambda>i. 64 * i) [0..<padded_len (length data) div 64]) H_INIT
      in concat (map (\<lambda>w. hex_nibbles 8 (unat w)) H))"

definition sha256_hex :: "allocator \<Rightarrow> string \<Rightarrow> code + string" where
  "sha256_hex mem data =
     (if alloc mem (padded_len (length data)) then Inr (sha256 data) else Inl SYS_ERROR)"

subsection \<open>The Merkle root\<close>

fun merkle_leaves :: "allocator \<Rightarrow> string list \<Rightarrow> code + string list" where
  "merkle_leaves mem [] = Inr []"
| "merkle_leaves mem (t # ts) =
     (case sha256_hex mem t of Inl r \<Rightarrow> Inl r
      | Inr h \<Rightarrow> (case merkle_leaves mem ts of Inl r \<Rightarrow> Inl r | Inr hs \<Rightarrow> Inr (h # hs)))"

text \<open>One round of the inner loop: pairs from left to right, an odd last one with the empty hash.\<close>

fun merkle_pairs :: "allocator \<Rightarrow> string \<Rightarrow> string list \<Rightarrow> code + string list" where
  "merkle_pairs mem e [] = Inr []"
| "merkle_pairs mem e [h] =
     (case sha256_hex mem (snprintf_out 129 (h @ e)) of Inl r \<Rightarrow> Inl r | Inr x \<Rightarrow> Inr [x])"
| "merkle_pairs mem e (h1 # h2 # hs) =
     (case sha256_hex mem (snprintf_out 129 (h1 @ h2)) of Inl r \<Rightarrow> Inl r
      | Inr x \<Rightarrow> (case merkle_pairs mem e hs of Inl r \<Rightarrow> Inl r | Inr xs \<Rightarrow> Inr (x # xs)))"

lemma merkle_pairs_length:
  "merkle_pairs mem e hs = Inr xs \<Longrightarrow> length xs = (length hs + 1) div 2"
  by (induction mem e hs arbitrary: xs rule: merkle_pairs.induct) (auto split: sum.splits)

function merkle_loop :: "allocator \<Rightarrow> string \<Rightarrow> string list \<Rightarrow> code + string" where
  "merkle_loop mem e hs =
     (if length hs > 1
      then (case merkle_pairs mem e hs of Inl r \<Rightarrow> Inl r | Inr xs \<Rightarrow> merkle_loop mem e xs)
      else Inr (hs ! 0))"
  by pat_completeness auto
termination
  by (relation "measure (\<lambda>(mem, e, hs). length hs)") (auto dest: merkle_pairs_length)

declare merkle_loop.simps [simp del]

definition merkle_root :: "allocator \<Rightarrow> string list \<Rightarrow> code + string" where
  "merkle_root mem txs =
     (if txs = [] then Inl INVALID_TRANSACTION
      else if \<not> alloc mem (length txs * 65) then Inl SYS_ERROR
      else (case merkle_leaves mem txs of Inl r \<Rightarrow> Inl r
            | Inr hs \<Rightarrow> (case sha256_hex mem [] of Inl r \<Rightarrow> Inl r
                         | Inr e \<Rightarrow> merkle_loop mem e hs)))"

subsection \<open>Facts about the word functions\<close>

text \<open>\<open>rotr\<close> is the library's rotation; the C expression is undefined only at \<open>n = 0\<close>.\<close>

lemma rotr_word_rotr:
  assumes "0 < n" "n < 32"
  shows "rotr x n = word_rotr n x"
proof (rule bit_word_eqI)
  fix i assume "i < LENGTH(32)"
  then have i: "i < 32" by simp
  show "bit (rotr x n) i = bit (word_rotr n x) i"
  proof (cases "i + n < 32")
    case True
    then have "\<not> 32 - n \<le> i" using assms by simp
    with True i show ?thesis
      by (simp add: rotr_def bit_simps bit_word_rotr_iff add.commute)
  next
    case False
    then have "(i + n) mod 32 = i - (32 - n)" "\<not> bit x (n + i)" "32 - n \<le> i"
      using i assms by (auto simp: mod_if dest: bit_imp_le_length)
    with i show ?thesis by (simp add: rotr_def bit_simps bit_word_rotr_iff)
  qed
qed

lemma bit_ch: "i < 32 \<Longrightarrow> bit (ch x y z) i = (if bit x i then bit y i else bit z i)"
  by (simp add: ch_def bit_simps)

lemma bit_maj:
  "bit (maj x y z) i \<longleftrightarrow> (bit x i \<and> bit y i) \<or> (bit x i \<and> bit z i) \<or> (bit y i \<and> bit z i)"
  by (auto simp: maj_def bit_simps)

subsection \<open>Facts about the hexadecimal numbers\<close>

lemma length_u64_to_hex16 [simp]: "length (u64_to_hex16 v) = 16"
  by (simp add: u64_to_hex16_def)

lemma u64_to_hex16_lower: "c \<in> set (u64_to_hex16 v) \<Longrightarrow> lower_hex c"
  by (auto simp: u64_to_hex16_def dest: hex_nibbles_lower)

lemma u64_to_hex16_clean [simp]:
  "NUL \<notin> set (u64_to_hex16 v)" "LF \<notin> set (u64_to_hex16 v)" "CR \<notin> set (u64_to_hex16 v)"
  "CHR '','' \<notin> set (u64_to_hex16 v)" "CHR '':'' \<notin> set (u64_to_hex16 v)"
  by (simp_all add: u64_to_hex16_def)

lemma hex16_to_u64_of_hex16 [simp]: "hex16_to_u64 (u64_to_hex16 v) = Inr v"
proof -
  have "unat v < 16 ^ 16" using unsigned_less [of v, where ?'a = nat] by simp
  then have "hex_read (u64_to_hex16 v) = unat v"
    by (simp add: u64_to_hex16_def hex_read_nibbles)
  moreover have "list_all isxdigit (take 16 (u64_to_hex16 v))"
    by (auto simp: list_all_iff intro: lower_hex_isxdigit u64_to_hex16_lower)
  ultimately show ?thesis by (simp add: hex16_to_u64_def)
qed

lemma u64_to_hex16_of_hex16:
  assumes "hex16_to_u64 s = Inr v" and "\<forall>c \<in> set s. lower_hex c"
  shows "u64_to_hex16 v = s"
proof -
  from assms(1) have len: "length s = 16" and v: "v = of_nat (hex_read s)"
    by (auto simp: hex16_to_u64_def split: if_splits)
  have "hex_read s < 16 ^ 16"
    using hex_read_bound [of s] assms(2) len by (auto intro: lower_hex_isxdigit)
  then have "unat v = hex_read s" by (simp add: v unat_of_nat take_bit_nat_eq_self)
  then show ?thesis using hex_nibbles_read [OF assms(2)] len by (simp add: u64_to_hex16_def)
qed

lemma u64_to_hex16_inj: "u64_to_hex16 v = u64_to_hex16 w \<longleftrightarrow> v = w"
  by (metis hex16_to_u64_of_hex16 sum.inject(2))

subsection \<open>Facts about the padding and the digest\<close>

lemma padded_len_mult: "padded_len n mod 64 = 0"
proof (cases "(n + 9) mod 64 = 0")
  case True
  then show ?thesis by (simp add: padded_len_def Let_def add.commute)
next
  case False
  define q r where "q = (n + 9) div 64" and "r = (n + 9) mod 64"
  have "n + 9 = 64 * q + r" "r < 64" by (simp_all add: q_def r_def)
  then have "n + 9 + (64 - r) = 64 * (q + 1)" by arith
  then have "(n + 9 + (64 - r)) mod 64 = 0" by (simp only: mod_mult_self1_is_0)
  with False show ?thesis by (simp add: padded_len_def Let_def add.commute r_def)
qed

lemma padded_len_bounds: "n + 9 \<le> padded_len n" "padded_len n < n + 73"
  by (auto simp: padded_len_def Let_def)

lemma padded_msg_layout:
  "padded_msg data = data @ [0x80] @ replicate (padded_len (length data) - length data - 9) 0
     @ map (\<lambda>i. ucast (drop_bit ((7 - i) * 8) ((of_nat (length data) :: u64) * 8))) [0..<8]"
proof -
  define n where "n = length data"
  define k where "k = padded_len n - n - 9"
  define pre where "pre = data @ [0x80] @ replicate k (0 :: u8)"
  have pl: "padded_len n = length pre + 8"
    using padded_len_bounds(1) [of n] by (simp add: pre_def k_def n_def)
  have "drop n (replicate (padded_len n) (0 :: u8)) = 0 # replicate (k + 8) 0"
    using padded_len_bounds(1) [of n] by (simp add: k_def replicate_Suc [symmetric] del: replicate_Suc)
  then have buf: "(data @ drop n (replicate (padded_len n) 0))[n := 0x80] = pre @ replicate 8 0"
    by (simp add: pre_def n_def replicate_add del: drop_replicate)
  have "padded_msg data = fold (\<lambda>i b. b[padded_len n - 1 - i :=
      ucast (drop_bit (i * 8) ((of_nat n :: u64) * 8))]) [0..<8] (pre @ replicate 8 0)"
    by (simp add: padded_msg_def Let_def buf [unfolded n_def] n_def del: drop_replicate)
  also have "\<dots> = pre @ map (\<lambda>i. ucast (drop_bit ((7 - i) * 8) ((of_nat n :: u64) * 8))) [0..<8]"
    unfolding pl by (simp add: upt_rec_numeral list_update_append numeral_eq_Suc)
  finally show ?thesis by (simp add: pre_def k_def n_def)
qed

lemma length_padded_msg [simp]: "length (padded_msg data) = padded_len (length data)"
  using padded_len_bounds(1) [of "length data"] by (simp add: padded_msg_layout)

lemma length_list_of [simp]: "length (list_of s) = 8"
  by (cases s rule: list_of.cases) simp

lemma length_sha_block [simp]: "length H = 8 \<Longrightarrow> length (sha_block m off H) = 8"
  by (simp add: sha_block_def)

lemma length_sha_fold: "length H = 8 \<Longrightarrow> length (fold (sha_block m) offs H) = 8"
  by (induction offs arbitrary: H) simp_all

lemma length_sha256 [simp]: "length (sha256 s) = 64"
proof -
  have "length (concat (map (\<lambda>w. hex_nibbles 8 (unat w)) H)) = 8 * length H" for H :: "u32 list"
    by (induction H) simp_all
  then show ?thesis by (simp add: sha256_def Let_def length_sha_fold H_INIT_def)
qed

lemma sha256_lower: "c \<in> set (sha256 s) \<Longrightarrow> lower_hex c"
  by (auto simp: sha256_def Let_def dest: hex_nibbles_lower)

lemma sha256_hex_plenty [simp]: "padded_len (length s) < 2 ^ 63 \<Longrightarrow> sha256_hex plenty s = Inr (sha256 s)"
  by (simp add: sha256_hex_def alloc_def)

lemma sha256_hex_Inr: "sha256_hex mem s = Inr h \<Longrightarrow> h = sha256 s"
  by (simp add: sha256_hex_def split: if_splits)

lemma sha256_clean [simp]:
  "NUL \<notin> set (sha256 s)" "LF \<notin> set (sha256 s)" "CR \<notin> set (sha256 s)"
  "CHR '','' \<notin> set (sha256 s)" "CHR '':'' \<notin> set (sha256 s)"
  using sha256_lower lower_hex_neq by blast+

subsection \<open>The Merkle tree of an arbitrary digest\<close>

text \<open>
  The tree without its error returns, over any function on strings, and the list of every
  string that is hashed on the way (leaves first).
\<close>

fun pair_up :: "(string \<Rightarrow> string) \<Rightarrow> string list \<Rightarrow> string list" where
  "pair_up H [] = []"
| "pair_up H [h] = [h @ H []]"
| "pair_up H (h1 # h2 # hs) = (h1 @ h2) # pair_up H hs"

lemma length_pair_up [simp]: "length (pair_up H hs) = (length hs + 1) div 2"
  by (induction H hs rule: pair_up.induct) auto

function merkle_of :: "(string \<Rightarrow> string) \<Rightarrow> string list \<Rightarrow> string" where
  "merkle_of H hs = (if length hs > 1 then merkle_of H (map H (pair_up H hs)) else hs ! 0)"
  by pat_completeness auto
termination
  by (relation "measure (\<lambda>(H, hs). length hs)") auto

function merkle_inputs :: "(string \<Rightarrow> string) \<Rightarrow> string list \<Rightarrow> string list" where
  "merkle_inputs H hs =
     (if length hs > 1 then pair_up H hs @ merkle_inputs H (map H (pair_up H hs)) else [])"
  by pat_completeness auto
termination
  by (relation "measure (\<lambda>(H, hs). length hs)") auto

declare merkle_of.simps [simp del] merkle_inputs.simps [simp del]

lemma merkle_of_single [simp]: "merkle_of H [h] = h"
  by (simp add: merkle_of.simps [of H "[h]"])

definition hashed :: "(string \<Rightarrow> string) \<Rightarrow> string list \<Rightarrow> string list" where
  "hashed H txs = txs @ merkle_inputs H (map H txs)"

definition clash :: "(string \<Rightarrow> string) \<Rightarrow> string list \<Rightarrow> string list \<Rightarrow> bool" where
  "clash H xs ys \<longleftrightarrow> (\<exists>a \<in> set xs. \<exists>b \<in> set ys. a \<noteq> b \<and> H a = H b)"

text \<open>
  The contract of a digest the tree relies on: all digests have one length, so two joined
  digests can be taken apart again.
\<close>

locale digest =
  fixes H :: "string \<Rightarrow> string"
  assumes length_H: "length (H s) = 64"
    and lower_H: "c \<in> set (H s) \<Longrightarrow> lower_hex c"
begin

lemma pair_up_inj:
  assumes "length xs = length ys" "\<forall>h \<in> set xs \<union> set ys. length h = 64"
    and "pair_up H xs = pair_up H ys"
  shows "xs = ys"
  using assms
proof (induction H xs arbitrary: ys rule: pair_up.induct)
  case (1 H)
  then show ?case by simp
next
  case (2 H h)
  then obtain h' where "ys = [h']" by (cases ys) auto
  with 2 show ?case by simp
next
  case (3 H h1 h2 hs)
  then obtain h1' h2' hs' where ys: "ys = h1' # h2' # hs'"
    by (cases ys rule: remdups_adj.cases) auto
  with 3 show ?case by auto
qed

lemma map_clash: "map H xs = map H ys \<Longrightarrow> xs = ys \<or> clash H xs ys"
proof (induction xs arbitrary: ys)
  case Nil
  then show ?case by simp
next
  case (Cons x xs)
  then obtain y ys' where ys: "ys = y # ys'" "H x = H y" "map H xs = map H ys'" by auto
  with Cons.IH [OF ys(3)] show ?case by (auto simp: clash_def)
qed

lemma merkle_inj:
  "length xs = length ys \<Longrightarrow> \<forall>h \<in> set xs \<union> set ys. length h = 64 \<Longrightarrow>
   merkle_of H xs = merkle_of H ys \<Longrightarrow>
   xs = ys \<or> clash H (merkle_inputs H xs) (merkle_inputs H ys)"
proof (induction "length xs" arbitrary: xs ys rule: less_induct)
  case less
  show ?case
  proof (cases "length xs > 1")
    case False
    with less.prems show ?thesis
      by (cases xs; cases ys) auto
  next
    case True
    let ?px = "pair_up H xs" and ?py = "pair_up H ys"
    from True less.prems(1,3) have "merkle_of H (map H ?px) = merkle_of H (map H ?py)"
      by (simp add: merkle_of.simps [of H xs] merkle_of.simps [of H ys])
    moreover have "\<forall>h \<in> set (map H ?px) \<union> set (map H ?py). length h = 64"
      by (auto simp: length_H)
    ultimately have "map H ?px = map H ?py
        \<or> clash H (merkle_inputs H (map H ?px)) (merkle_inputs H (map H ?py))"
      using less.hyps [of "map H ?px" "map H ?py"] True less.prems(1) by simp
    moreover have "map H ?px = map H ?py \<Longrightarrow> xs = ys \<or> clash H ?px ?py"
      using map_clash pair_up_inj [OF less.prems(1,2)] by blast
    ultimately show ?thesis using True less.prems(1)
      by (auto simp: clash_def merkle_inputs.simps [of H xs] merkle_inputs.simps [of H ys])
  qed
qed

lemma merkle_binding:
  assumes "length xs = length ys" and "merkle_of H (map H xs) = merkle_of H (map H ys)"
  shows "xs = ys \<or> clash H (hashed H xs) (hashed H ys)"
proof -
  have "\<forall>h \<in> set (map H xs) \<union> set (map H ys). length h = 64" by (auto simp: length_H)
  with assms have "map H xs = map H ys
      \<or> clash H (merkle_inputs H (map H xs)) (merkle_inputs H (map H ys))"
    by (intro merkle_inj) simp_all
  with map_clash [of xs ys] show ?thesis by (auto simp: clash_def hashed_def)
qed

lemma merkle_of_closed:
  assumes "\<And>s. P (H s)"
  shows "hs \<noteq> [] \<Longrightarrow> \<forall>h \<in> set hs. P h \<Longrightarrow> P (merkle_of H hs)"
proof (induction "length hs" arbitrary: hs rule: less_induct)
  case less
  show ?case
  proof (cases "length hs > 1")
    case False
    with less.prems show ?thesis by (cases hs) auto
  next
    case True
    have "length (map H (pair_up H hs)) > 0" using True by simp
    then have "map H (pair_up H hs) \<noteq> []" by blast
    with less.hyps [of "map H (pair_up H hs)"] True assms show ?thesis
      by (simp add: merkle_of.simps [of H hs])
  qed
qed

lemma merkle_of_hex:
  assumes "hs \<noteq> []"
  shows "length (merkle_of H (map H hs)) = 64" "c \<in> set (merkle_of H (map H hs)) \<Longrightarrow> lower_hex c"
proof -
  have "length (merkle_of H (map H hs)) = 64 \<and> (\<forall>c \<in> set (merkle_of H (map H hs)). lower_hex c)"
    using assms
    by (intro merkle_of_closed [where P = "\<lambda>h. length h = 64 \<and> (\<forall>c \<in> set h. lower_hex c)"])
      (auto simp: length_H dest: lower_H)
  then show "length (merkle_of H (map H hs)) = 64"
    "c \<in> set (merkle_of H (map H hs)) \<Longrightarrow> lower_hex c" by auto
qed

lemma merkle_padding:
  "odd (length hs) \<Longrightarrow> length hs > 1 \<Longrightarrow> merkle_of H (hs @ [H []]) = merkle_of H hs"
proof -
  assume odd: "odd (length hs)" and len: "length hs > 1"
  have "odd (length xs) \<Longrightarrow> pair_up H (xs @ [H []]) = pair_up H xs" for xs
    by (induction H xs rule: pair_up.induct) auto
  moreover from len have "hs \<noteq> []" by auto
  ultimately show ?thesis
    using odd len by (simp add: merkle_of.simps [of H hs] merkle_of.simps [of H "hs @ [H []]"])
qed

end

interpretation sha: digest sha256
  by unfold_locales (rule length_sha256, rule sha256_lower)

subsection \<open>The code's loop computes that tree\<close>

lemma merkle_leaves_Inr: "merkle_leaves mem txs = Inr hs \<Longrightarrow> hs = map sha256 txs"
  by (induction txs arbitrary: hs) (auto dest: sha256_hex_Inr split: sum.splits)

lemma merkle_pairs_Inr:
  "merkle_pairs mem (sha256 []) hs = Inr xs \<Longrightarrow> \<forall>h \<in> set hs. length h = 64 \<Longrightarrow>
   xs = map sha256 (pair_up sha256 hs)"
  by (induction mem "sha256 []" hs arbitrary: xs rule: merkle_pairs.induct)
    (auto dest!: sha256_hex_Inr split: sum.splits simp: snprintf_out_def)

lemma merkle_loop_Inr:
  "merkle_loop mem (sha256 []) hs = Inr r \<Longrightarrow> \<forall>h \<in> set hs. length h = 64 \<Longrightarrow>
   r = merkle_of sha256 hs"
proof (induction mem "sha256 []" hs rule: merkle_loop.induct)
  case (1 mem hs)
  show ?case
  proof (cases "length hs > 1")
    case False
    with "1.prems" show ?thesis
      by (simp add: merkle_loop.simps [of _ _ hs] merkle_of.simps [of _ hs])
  next
    case True
    with "1.prems"(1) obtain xs where xs: "merkle_pairs mem (sha256 []) hs = Inr xs"
      "merkle_loop mem (sha256 []) xs = Inr r"
      by (auto simp: merkle_loop.simps [of _ _ hs] split: sum.splits)
    from merkle_pairs_Inr [OF xs(1) "1.prems"(2)]
    have eq: "xs = map sha256 (pair_up sha256 hs)" .
    then have "r = merkle_of sha256 xs" using "1.hyps" [OF True xs(1) xs(2)] by auto
    then show ?thesis using True eq by (simp add: merkle_of.simps [of _ hs])
  qed
qed

lemma merkle_root_Inr:
  "merkle_root mem txs = Inr r \<Longrightarrow> txs \<noteq> [] \<and> r = merkle_of sha256 (map sha256 txs)"
  by (auto simp: merkle_root_def dest!: sha256_hex_Inr merkle_leaves_Inr merkle_loop_Inr
      split: if_splits sum.splits)

text \<open>With memory for every request that fits a \<open>size_t\<close>, the root is always produced.\<close>

lemma merkle_leaves_plenty:
  "\<forall>t \<in> set txs. length t < 2 ^ 62 \<Longrightarrow> merkle_leaves plenty txs = Inr (map sha256 txs)"
proof (induction txs)
  case Nil
  then show ?case by simp
next
  case (Cons t ts)
  have "padded_len (length t) < 2 ^ 63" using Cons.prems padded_len_bounds(2) [of "length t"] by simp
  with Cons show ?case by simp
qed

lemma padded_len_128: "padded_len 128 = 192"
  by (simp add: padded_len_def)

lemma merkle_pairs_plenty:
  "\<forall>h \<in> set hs. length h = 64 \<Longrightarrow> length e = 64 \<Longrightarrow> \<exists>xs. merkle_pairs plenty e hs = Inr xs
     \<and> length xs = (length hs + 1) div 2 \<and> (\<forall>h \<in> set xs. length h = 64)"
  by (induction plenty e hs rule: merkle_pairs.induct)
    (auto simp: snprintf_out_def padded_len_128)

lemma merkle_loop_plenty:
  "\<forall>h \<in> set hs. length h = 64 \<Longrightarrow> length e = 64 \<Longrightarrow> \<exists>r. merkle_loop plenty e hs = Inr r"
proof (induction "length hs" arbitrary: hs rule: less_induct)
  case less
  show ?case
  proof (cases "length hs > 1")
    case False
    then show ?thesis by (simp add: merkle_loop.simps [of _ _ hs])
  next
    case True
    obtain xs where xs: "merkle_pairs plenty e hs = Inr xs" "length xs = (length hs + 1) div 2"
      "\<forall>h \<in> set xs. length h = 64"
      using merkle_pairs_plenty [OF less.prems] by blast
    have "length xs < length hs" using True xs(2) by arith
    then obtain r where "merkle_loop plenty e xs = Inr r"
      using less.hyps xs(3) less.prems(2) by blast
    with True xs(1) show ?thesis by (simp add: merkle_loop.simps [of _ _ hs])
  qed
qed

lemma merkle_root_plenty:
  assumes "txs \<noteq> []" "length txs < 2 ^ 56" "\<forall>t \<in> set txs. length t < 2 ^ 62"
  shows "merkle_root plenty txs = Inr (merkle_of sha256 (map sha256 txs))"
proof -
  have "padded_len 0 < 2 ^ 63" by (simp add: padded_len_def)
  moreover obtain r where "merkle_loop plenty (sha256 []) (map sha256 txs) = Inr r"
    using merkle_loop_plenty [of "map sha256 txs" "sha256 []"] by auto
  ultimately have "merkle_root plenty txs = Inr r"
    using assms by (simp add: merkle_root_def merkle_leaves_plenty alloc_def)
  with merkle_root_Inr show ?thesis by blast
qed

end
