(* ===== verification/Transaction.thy ===== *)
theory Transaction
  imports Prelude
begin

section \<open>Transactions (transaction.c)\<close>

text \<open>
  The format of a transaction, its validation and its random generation.
  The C code compiles \<open>^[A-Za-z0-9]+ pays [A-Za-z0-9]+ [1-9][0-9]* coins$\<close> with
  \<open>regcomp\<close> and asks \<open>regexec\<close>; here the pattern is a regular expression over character
  ranges, and matching is by derivatives, so that it can be evaluated. \<open>tx_shape\<close> is what the
  pattern means: the theorem \<open>PATTERN_shape\<close> shows that the two agree.
\<close>

subsection \<open>Regular expressions\<close>

datatype rexp =
    Zero | One
  | Class "(char \<times> char) list"
  | Alt rexp rexp
  | Seq rexp rexp
  | Star rexp

definition in_class :: "(char \<times> char) list \<Rightarrow> char \<Rightarrow> bool" where
  "in_class rs c \<longleftrightarrow> list_ex (\<lambda>(lo, hi). lo \<le> c \<and> c \<le> hi) rs"

primrec nullable :: "rexp \<Rightarrow> bool" where
  "nullable Zero = False"
| "nullable One = True"
| "nullable (Class rs) = False"
| "nullable (Alt r s) = (nullable r \<or> nullable s)"
| "nullable (Seq r s) = (nullable r \<and> nullable s)"
| "nullable (Star r) = True"

primrec deriv :: "char \<Rightarrow> rexp \<Rightarrow> rexp" where
  "deriv c Zero = Zero"
| "deriv c One = Zero"
| "deriv c (Class rs) = (if in_class rs c then One else Zero)"
| "deriv c (Alt r s) = Alt (deriv c r) (deriv c s)"
| "deriv c (Seq r s) =
     (if nullable r then Alt (Seq (deriv c r) s) (deriv c s) else Seq (deriv c r) s)"
| "deriv c (Star r) = Seq (deriv c r) (Star r)"

definition regexec :: "rexp \<Rightarrow> string \<Rightarrow> bool" where
  "regexec r s = nullable (fold deriv s r)"

text \<open>The strings a regular expression denotes.\<close>

inductive matches :: "rexp \<Rightarrow> string \<Rightarrow> bool" where
  m_one: "matches One []"
| m_class: "in_class rs c \<Longrightarrow> matches (Class rs) [c]"
| m_left: "matches r u \<Longrightarrow> matches (Alt r s) u"
| m_right: "matches s u \<Longrightarrow> matches (Alt r s) u"
| m_seq: "matches r u \<Longrightarrow> matches s v \<Longrightarrow> matches (Seq r s) (u @ v)"
| m_nil: "matches (Star r) []"
| m_star: "matches r u \<Longrightarrow> matches (Star r) v \<Longrightarrow> matches (Star r) (u @ v)"

inductive_simps matches_Zero [simp]: "matches Zero u"
inductive_simps matches_One [simp]: "matches One u"
inductive_simps matches_Class: "matches (Class rs) u"
inductive_simps matches_Alt [simp]: "matches (Alt r s) u"
inductive_simps matches_Seq: "matches (Seq r s) u"

lemma nullable_iff: "nullable r \<longleftrightarrow> matches r []"
  by (induction r) (auto simp: matches_Class matches_Seq intro: matches.intros)

lemma matches_star_Cons:
  "matches (Star r) (c # u) \<Longrightarrow> \<exists>v w. u = v @ w \<and> matches r (c # v) \<and> matches (Star r) w"
  by (induction "Star r" "c # u" rule: matches.induct) (auto simp: append_eq_Cons_conv)

lemma matches_deriv: "matches (deriv c r) u \<longleftrightarrow> matches r (c # u)"
proof (induction r arbitrary: u)
  case (Seq r s)
  then show ?case
    by (auto simp: matches_Seq nullable_iff append_eq_Cons_conv Cons_eq_append_conv)
next
  case (Star r)
  show ?case
  proof
    assume "matches (deriv c (Star r)) u"
    with Star show "matches (Star r) (c # u)"
      by (auto simp: matches_Seq intro: m_star [of _ "c # _", simplified])
  next
    assume "matches (Star r) (c # u)"
    with Star show "matches (deriv c (Star r)) u"
      by (auto simp: matches_Seq dest!: matches_star_Cons)
  qed
qed (auto simp: matches_Class)

lemma regexec_iff: "regexec r s \<longleftrightarrow> matches r s"
proof (induction s arbitrary: r)
  case Nil
  then show ?case by (simp add: regexec_def nullable_iff)
next
  case (Cons c s)
  then show ?case by (simp add: regexec_def matches_deriv)
qed

subsection \<open>The pattern\<close>

definition Lit :: "string \<Rightarrow> rexp" where
  "Lit s = foldr (\<lambda>c r. Seq (Class [(c, c)]) r) s One"

definition Plus1 :: "rexp \<Rightarrow> rexp" where
  "Plus1 r = Seq r (Star r)"

definition ALNUM :: rexp where
  "ALNUM = Class [(CHR ''A'', CHR ''Z''), (CHR ''a'', CHR ''z''), (CHR ''0'', CHR ''9'')]"

definition PATTERN :: rexp where
  "PATTERN =
     Seq (Plus1 ALNUM) (Seq (Lit '' pays '') (Seq (Plus1 ALNUM) (Seq (Lit '' '')
       (Seq (Class [(CHR ''1'', CHR ''9'')]) (Seq (Star (Class [(CHR ''0'', CHR ''9'')]))
         (Lit '' coins''))))))"

definition isalnum :: "char \<Rightarrow> bool" where
  "isalnum c \<longleftrightarrow> (CHR ''A'' \<le> c \<and> c \<le> CHR ''Z'') \<or> (CHR ''a'' \<le> c \<and> c \<le> CHR ''z'') \<or> isdigit c"

definition tx_shape :: "string \<Rightarrow> bool" where
  "tx_shape s \<longleftrightarrow> (\<exists>a b d ds. s = a @ '' pays '' @ b @ '' '' @ [d] @ ds @ '' coins''
     \<and> a \<noteq> [] \<and> b \<noteq> [] \<and> list_all isalnum a \<and> list_all isalnum b
     \<and> CHR ''1'' \<le> d \<and> d \<le> CHR ''9'' \<and> list_all isdigit ds)"

lemma in_class_single [simp]: "in_class [(c, c)] x \<longleftrightarrow> x = c"
  by (auto simp: in_class_def)

lemma matches_Lit [simp]: "matches (Lit s) u \<longleftrightarrow> u = s"
proof (induction s arbitrary: u)
  case Nil
  then show ?case by (simp add: Lit_def)
next
  case (Cons c s)
  then have "matches (foldr (\<lambda>c r. Seq (Class [(c, c)]) r) s One) v \<longleftrightarrow> v = s" for v
    by (simp add: Lit_def)
  then show ?case by (auto simp: Lit_def matches_Seq matches_Class)
qed

lemma matches_Star_Class: "matches (Star (Class rs)) u \<longleftrightarrow> list_all (in_class rs) u"
proof
  show "list_all (in_class rs) u" if "matches (Star (Class rs)) u"
    using that by (induction "Star (Class rs)" u rule: matches.induct) (auto simp: matches_Class)
next
  show "matches (Star (Class rs)) u" if "list_all (in_class rs) u"
    using that by (induction u)
      (auto intro: matches.intros m_star [of _ "[_]", simplified])
qed

lemma matches_Plus_Class:
  "matches (Plus1 (Class rs)) u \<longleftrightarrow> u \<noteq> [] \<and> list_all (in_class rs) u"
proof (cases u)
  case Nil
  then show ?thesis by (simp add: Plus1_def matches_Seq matches_Class)
next
  case (Cons c v)
  have "matches (Plus1 (Class rs)) (c # v) \<longleftrightarrow> in_class rs c \<and> list_all (in_class rs) v"
    unfolding Plus1_def matches_Seq matches_Class matches_Star_Class
    by (metis append_Cons append_Nil list.inject)
  with Cons show ?thesis by simp
qed

lemma in_class_alnum:
  "in_class [(CHR ''A'', CHR ''Z''), (CHR ''a'', CHR ''z''), (CHR ''0'', CHR ''9'')] = isalnum"
  "in_class [(CHR ''0'', CHR ''9'')] = isdigit"
  by (auto simp: fun_eq_iff in_class_def isalnum_def isdigit_def)

lemma in_class_19: "in_class [(lo, hi)] c \<longleftrightarrow> lo \<le> c \<and> c \<le> hi"
  by (simp add: in_class_def)

lemmas matches_parts =
  matches_Seq matches_Lit matches_Plus_Class matches_Class matches_Star_Class in_class_alnum
  in_class_19

lemma PATTERN_shape: "regexec PATTERN s \<longleftrightarrow> tx_shape s"
proof
  assume "regexec PATTERN s"
  then obtain a b d ds where "s = a @ '' pays '' @ b @ '' '' @ [d] @ ds @ '' coins''"
      "a \<noteq> []" "list_all isalnum a" "b \<noteq> []" "list_all isalnum b"
      "CHR ''1'' \<le> d" "d \<le> CHR ''9''" "list_all isdigit ds"
    unfolding regexec_iff PATTERN_def ALNUM_def matches_parts by blast
  then show "tx_shape s" unfolding tx_shape_def by blast
next
  assume "tx_shape s"
  then obtain a b d ds where "s = a @ '' pays '' @ b @ '' '' @ [d] @ ds @ '' coins''"
      "a \<noteq> []" "list_all isalnum a" "b \<noteq> []" "list_all isalnum b"
      "CHR ''1'' \<le> d" "d \<le> CHR ''9''" "list_all isdigit ds"
    unfolding tx_shape_def by blast
  then show "regexec PATTERN s"
    unfolding regexec_iff PATTERN_def ALNUM_def
    by (simp only:) (intro m_seq; simp add: matches_parts del: append_Cons append_Nil)
qed

subsection \<open>Validation\<close>

text \<open>
  The module's state is one flag, whether the pattern has been compiled. \<open>regcomp\<close> may
  refuse, which is its argument \<open>regcomp_ok\<close>.
\<close>

definition transaction_init :: "bool \<Rightarrow> bool \<Rightarrow> code \<times> bool" where
  "transaction_init regcomp_ok initialized =
     (if initialized then (OK, initialized)
      else if \<not> regcomp_ok then (SYS_ERROR, initialized)
      else (OK, True))"

definition transaction_is_valid :: "bool \<Rightarrow> string \<Rightarrow> code" where
  "transaction_is_valid initialized s =
     (if \<not> initialized then SYS_ERROR
      else if length s \<ge> MAX_TX_LEN then INVALID_TRANSACTION
      else if regexec PATTERN s then OK
      else INVALID_TRANSACTION)"

definition transaction_cleanup :: "bool \<Rightarrow> bool" where
  "transaction_cleanup initialized = (if initialized then False else initialized)"

lemma transaction_is_valid_iff:
  "transaction_is_valid initialized s = OK \<longleftrightarrow> initialized \<and> length s < 128 \<and> tx_shape s"
  by (auto simp: transaction_is_valid_def PATTERN_shape)

lemma isalnum_clean: "isalnum c \<Longrightarrow> c \<notin> {NUL, LF, CR, CHR '','', CHR '':'', CHR '' ''}"
  by (auto simp: isalnum_def isdigit_def less_eq_char_def)

lemma isdigit_clean: "isdigit c \<Longrightarrow> c \<notin> {NUL, LF, CR, CHR '','', CHR '':'', CHR '' ''}"
  by (auto simp: isalnum_def isdigit_def less_eq_char_def)

lemma tx_shape_clean:
  assumes "tx_shape s" and "x \<in> {NUL, LF, CR, CHR '','', CHR '':''}"
  shows "x \<notin> set s"
proof -
  from assms(1) obtain a b d ds where s: "s = a @ '' pays '' @ b @ '' '' @ [d] @ ds @ '' coins''"
      "list_all isalnum a" "list_all isalnum b"
      "CHR ''1'' \<le> d" "d \<le> CHR ''9''" "list_all isdigit ds"
    unfolding tx_shape_def by blast
  then have "x \<notin> set a" "x \<notin> set b" "x \<notin> set ds" "x \<noteq> d"
    using assms(2) isalnum_clean isdigit_clean
    by (auto simp: list_all_iff isdigit_def less_eq_char_def)
  with s(1) assms(2) show ?thesis by auto
qed

lemma tx_shapeI:
  "a \<noteq> [] \<Longrightarrow> b \<noteq> [] \<Longrightarrow> list_all isalnum a \<Longrightarrow> list_all isalnum b \<Longrightarrow>
   CHR ''1'' \<le> d \<Longrightarrow> d \<le> CHR ''9'' \<Longrightarrow> list_all isdigit ds \<Longrightarrow>
   tx_shape (a @ '' pays '' @ b @ '' '' @ [d] @ ds @ '' coins'')"
  unfolding tx_shape_def by blast

lemma tx_shape_nonempty: "tx_shape s \<Longrightarrow> s \<noteq> []"
  by (auto simp: tx_shape_def)

subsection \<open>Random generation\<close>

definition names :: "string list" where
  "names = [''Alice'', ''Bob'', ''Charlie'', ''Dave'', ''Eve'',
            ''Frank'', ''Grace'', ''Heidi'', ''Ivan'', ''Judy'']"

text \<open>
  The three draws of \<open>random()\<close> are arguments; they are never negative. The result is the
  code and the contents left in \<open>out\<close>.
\<close>

definition transaction_generate_random :: "nat \<Rightarrow> nat \<Rightarrow> nat \<Rightarrow> nat \<Rightarrow> code \<times> string" where
  "transaction_generate_random r1 r2 r3 cap =
     (let n_names = length names;
          idx1 = r1 mod n_names;
          idx2 = (if idx1 = r2 mod n_names then (idx1 + 1) mod n_names else r2 mod n_names);
          amount = 1 + r3 mod 999;
          s = names ! idx1 @ '' pays '' @ names ! idx2 @ '' '' @ dec amount @ '' coins''
      in (if snprintf_fits cap s then OK else INVALID_TRANSACTION, snprintf_out cap s))"

lemma names_facts:
  "length names = 10" "distinct names"
  "\<forall>m \<in> set names. m \<noteq> [] \<and> list_all isalnum m \<and> length m \<le> 7"
  by (auto simp: names_def isalnum_def)

lemma dec_split: "0 < n \<Longrightarrow> \<exists>d ds. dec n = [d] @ ds \<and> CHR ''1'' \<le> d \<and> d \<le> CHR ''9''
     \<and> list_all isdigit ds"
proof (induction n rule: dec.induct)
  case (1 n)
  show ?case
  proof (cases "n < 10")
    case True
    then have "dec n = [hex_digit n]" by (simp add: dec.simps [of n])
    moreover have "of_char (hex_digit n) = 48 + n" using True by simp
    ultimately show ?thesis using "1.prems" True by (auto simp: less_eq_char_def)
  next
    case False
    then have "0 < n div 10" by (simp add: div_greater_zero_iff)
    then obtain d ds where "dec (n div 10) = [d] @ ds" "CHR ''1'' \<le> d" "d \<le> CHR ''9''"
      "list_all isdigit ds" using "1.IH" [OF False] by blast
    moreover have "isdigit (hex_digit (n mod 10))" by simp
    ultimately show ?thesis using False
      by (intro exI [of _ d] exI [of _ "ds @ [hex_digit (n mod 10)]"]) (simp add: dec.simps [of n])
  qed
qed

lemma random_tx:
  "\<exists>a b n. a \<in> set names \<and> b \<in> set names \<and> a \<noteq> b \<and> 1 \<le> n \<and> n \<le> 999
     \<and> transaction_generate_random r1 r2 r3 MAX_TX_LEN
         = (OK, a @ '' pays '' @ b @ '' '' @ dec n @ '' coins'')
     \<and> transaction_is_valid True (a @ '' pays '' @ b @ '' '' @ dec n @ '' coins'') = OK"
proof -
  define i where "i = r1 mod 10"
  define j where "j = (if i = r2 mod 10 then (i + 1) mod 10 else r2 mod 10)"
  define n where "n = 1 + r3 mod 999"
  let ?a = "names ! i" and ?b = "names ! j"
  let ?s = "?a @ '' pays '' @ ?b @ '' '' @ dec n @ '' coins''"
  have i: "i < 10" and j: "j < 10" by (simp_all add: i_def j_def)
  have "(i + 1) mod 10 \<noteq> i" using i by (cases "i = 9") auto
  then have "i \<noteq> j" by (auto simp: j_def)
  with i j have mem: "?a \<in> set names" "?b \<in> set names" "?a \<noteq> ?b"
    using names_facts(1,2) by (simp_all add: nth_eq_iff_index_eq)
  have "r3 mod 999 < 999" by simp
  then have n: "1 \<le> n" "n \<le> 999" by (simp_all add: n_def)
  then have "length (dec n) \<le> 3" by (intro length_dec) auto
  moreover have "length ?a \<le> 7" "length ?b \<le> 7" using mem names_facts(3) by auto
  ultimately have len: "length ?s < 128" by simp
  obtain d ds where "dec n = [d] @ ds" "CHR ''1'' \<le> d" "d \<le> CHR ''9''" "list_all isdigit ds"
    using dec_split [of n] n(1) by auto
  moreover have "?a \<noteq> []" "?b \<noteq> []" "list_all isalnum ?a" "list_all isalnum ?b"
    using mem(1,2) names_facts(3) by auto
  ultimately have shape: "tx_shape ?s"
    unfolding tx_shape_def
    by (intro exI [of _ ?a] exI [of _ ?b] exI [of _ d] exI [of _ ds]) simp
  have "transaction_generate_random r1 r2 r3 128 = (OK, ?s)"
    unfolding transaction_generate_random_def Let_def names_facts(1) i_def [symmetric]
      j_def [symmetric] n_def [symmetric]
    using len by (simp only: snprintf_fits_def snprintf_out_fits if_True)
  with mem n len shape show ?thesis
    by (intro exI [of _ ?a] exI [of _ ?b] exI [of _ n]) (simp add: transaction_is_valid_iff)
qed

subsection \<open>Properties\<close>

text \<open>C40: a transaction is accepted exactly when the pattern has been compiled, it is shorter than
  128 bytes and it reads \<open><name> pays <name> <amount> coins\<close> with alphanumeric names and a decimal
  amount that does not start with 0; nothing may come before or after it.\<close>

theorem transaction_is_valid_spec:
  "transaction_is_valid initialized s = OK \<longleftrightarrow>
     initialized \<and> length s < 128 \<and>
     (\<exists>a b d ds. s = a @ '' pays '' @ b @ '' '' @ [d] @ ds @ '' coins''
        \<and> a \<noteq> [] \<and> b \<noteq> [] \<and> list_all isalnum a \<and> list_all isalnum b
        \<and> CHR ''1'' \<le> d \<and> d \<le> CHR ''9'' \<and> list_all isdigit ds)"
  by (simp only: transaction_is_valid_iff tx_shape_def)

text \<open>Whatever the three random draws are, the generator fills the client's 128-byte buffer
  with a transaction between two different people of the list for 1 to 999 coins, reports
  success, and the validation accepts what it produced.\<close>

theorem generate_random_valid:
  "\<exists>a b n. a \<in> set names \<and> b \<in> set names \<and> a \<noteq> b \<and> 1 \<le> n \<and> n \<le> 999
     \<and> transaction_generate_random r1 r2 r3 MAX_TX_LEN
         = (OK, a @ '' pays '' @ b @ '' '' @ dec n @ '' coins'')
     \<and> transaction_is_valid True (a @ '' pays '' @ b @ '' '' @ dec n @ '' coins'') = OK"
  by (rule random_tx)

end
