(* ===== verification/Block.thy ===== *)
theory Block
  imports Crypto Transaction
begin

section \<open>Blocks: serialization, CSV rows and validation (block.c)\<close>

text \<open>
  \<open>block_t\<close> with its fixed array of 16 transaction slots, \<open>S(B)\<close> and the block hash, the
  CSV row in both directions, and the structural validation. The array \<open>b_txs\<close> always has its
  16 slots; only the first \<open>b_tx_count\<close> are in use.

  \<open>block_ok\<close> is what every block that was parsed or built by the program satisfies; the round
  trips and the injectivity of \<open>S(B)\<close> are proved for such blocks, and the parser is shown to
  produce nothing else.
\<close>

subsection \<open>The block record (block.h)\<close>

record block_t =
  b_index :: u64
  b_timestamp :: u64
  b_nonce :: u64
  b_prev_hash :: string
  b_merkle_root :: string
  b_txs :: "string list"
  b_tx_count :: nat

text \<open>A block after \<open>memset(b, 0, sizeof *b)\<close>, and \<open>sizeof(block_t)\<close> on a 64-bit Linux.\<close>

definition zero_block :: block_t where
  "zero_block = \<lparr>b_index = 0, b_timestamp = 0, b_nonce = 0, b_prev_hash = [],
     b_merkle_root = [], b_txs = replicate MAX_TX_PER_BLOCK [], b_tx_count = 0\<rparr>"

definition sizeof_block :: nat where
  "sizeof_block = 2216"

text \<open>What surrounds a call into \<open>block.c\<close>: the allocator and the compiled pattern.\<close>

record env =
  mem :: allocator
  re_ok :: bool

subsection \<open>Serialization\<close>

fun join_rest :: "string list \<Rightarrow> nat \<Rightarrow> string \<Rightarrow> string option" where
  \<comment> \<open>the \<open>for\<close> loop: \<open>out\<close> holds the first \<open>offset = length out\<close> bytes written so far\<close>
  "join_rest [] cap out = Some out"
| "join_rest (t # ts) cap out =
     (let w = ''::'' @ t
      in if length w \<ge> cap - length out then None else join_rest ts cap (out @ w))"

definition join_txs :: "block_t \<Rightarrow> nat \<Rightarrow> string option" where
  \<comment> \<open>\<open>None\<close> is the return value \<open>-1\<close>\<close>
  "join_txs b cap =
     (if cap = 0 then None
      else if b_tx_count b = 0 then Some []
      else if length (b_txs b ! 0) \<ge> cap then None
      else join_rest (map (\<lambda>i. b_txs b ! i) [1..<b_tx_count b]) cap (b_txs b ! 0))"

definition block_serialize :: "block_t \<Rightarrow> nat \<Rightarrow> code + string" where
  "block_serialize b cap =
     (case join_txs b MAX_SERIAL_LEN of
        None \<Rightarrow> Inl SYS_ERROR
      | Some transactions \<Rightarrow>
          (let s = u64_to_hex16 (b_index b) @ u64_to_hex16 (b_timestamp b) @ b_prev_hash b
                     @ b_merkle_root b @ u64_to_hex16 (b_nonce b) @ transactions
           in if \<not> snprintf_fits cap s then Inl SYS_ERROR else Inr s))"

definition block_hash :: "allocator \<Rightarrow> block_t \<Rightarrow> code + string" where
  "block_hash M b =
     (case block_serialize b MAX_SERIAL_LEN of Inl r \<Rightarrow> Inl r | Inr sb \<Rightarrow> sha256_hex M sb)"

text \<open>
  The row is written into \<open>out\<close>, whose old contents stay when the transactions cannot be
  joined; two callers look at \<open>out\<close> without looking at the code.
\<close>

definition block_to_csv_row :: "block_t \<Rightarrow> string \<Rightarrow> nat \<Rightarrow> code \<times> string" where
  "block_to_csv_row b out cap =
     (case join_txs b MAX_SERIAL_LEN of
        None \<Rightarrow> (SYS_ERROR, out)
      | Some transactions \<Rightarrow>
          (let s = u64_to_hex16 (b_index b) @ '','' @ u64_to_hex16 (b_timestamp b) @ '',''
                     @ b_prev_hash b @ '','' @ b_merkle_root b @ '',''
                     @ u64_to_hex16 (b_nonce b) @ '','' @ transactions
           in (if snprintf_fits cap s then OK else SYS_ERROR, snprintf_out cap s)))"

subsection \<open>Parsing a row\<close>

definition is_hex_lowercase :: "string \<Rightarrow> nat \<Rightarrow> bool" where
  "is_hex_lowercase str len =
     list_all (\<lambda>c. (CHR ''0'' \<le> c \<and> c \<le> CHR ''9'') \<or> (CHR ''a'' \<le> c \<and> c \<le> CHR ''f''))
       (take len str)"

text \<open>
  The \<open>while (1)\<close> loop over \<open>current_tx\<close>; \<open>acc\<close> is the part of \<open>b->txs\<close> filled so far,
  so \<open>b->tx_count = length acc\<close>.
\<close>

function parse_txs :: "string list \<Rightarrow> string \<Rightarrow> code + string list" where
  "parse_txs acc current_tx =
     (let next_separator = strstr current_tx ''::'';
          tx_len = (case next_separator of Some i \<Rightarrow> i | None \<Rightarrow> length current_tx)
      in if length acc \<ge> MAX_TX_PER_BLOCK then Inl INVALID_BLOCK
         else if tx_len \<ge> MAX_TX_LEN then Inl INVALID_BLOCK
         else (case next_separator of
                 None \<Rightarrow> Inr (acc @ [take tx_len current_tx])
               | Some i \<Rightarrow> parse_txs (acc @ [take tx_len current_tx]) (drop (i + 2) current_tx)))"
  by pat_completeness auto
termination
  by (relation "measure (\<lambda>(acc, current_tx). length current_tx)") (auto dest!: strstr_length [OF sym])

declare parse_txs.simps [simp del]

definition block_from_csv_row :: "string \<Rightarrow> code + block_t" where
  "block_from_csv_row row =
     (if length row < 181 \<or> row ! 16 \<noteq> CHR '','' \<or> row ! 33 \<noteq> CHR '','' \<or> row ! 98 \<noteq> CHR '',''
         \<or> row ! 163 \<noteq> CHR '','' \<or> row ! 180 \<noteq> CHR '','' then Inl CSV_PARSE_ERROR
      else case hex16_to_u64 (take 16 row) of Inl _ \<Rightarrow> Inl INVALID_BLOCK | Inr index \<Rightarrow>
      case hex16_to_u64 (take 16 (drop 17 row)) of Inl _ \<Rightarrow> Inl INVALID_BLOCK | Inr timestamp \<Rightarrow>
      (let prev_hash = take 64 (drop 34 row) in
       if \<not> is_hex_lowercase prev_hash 64 then Inl INVALID_BLOCK else
       let merkle = take 64 (drop 99 row) in
       if \<not> is_hex_lowercase merkle 64 then Inl INVALID_BLOCK else
       case hex16_to_u64 (take 16 (drop 164 row)) of Inl _ \<Rightarrow> Inl INVALID_BLOCK | Inr nonce \<Rightarrow>
       if drop 181 row = [] then Inl INVALID_BLOCK else
       case parse_txs [] (drop 181 row) of Inl r \<Rightarrow> Inl r | Inr ts \<Rightarrow>
         Inr \<lparr>b_index = index, b_timestamp = timestamp, b_nonce = nonce,
              b_prev_hash = prev_hash, b_merkle_root = merkle,
              b_txs = ts @ drop (length ts) (b_txs zero_block), b_tx_count = length ts\<rparr>))"

subsection \<open>Validation\<close>

definition block_is_valid :: "env \<Rightarrow> block_t \<Rightarrow> bool \<Rightarrow> code" where
  "block_is_valid E b is_genesis =
     (if b_tx_count b < 1 \<or> b_tx_count b > MAX_TX_PER_BLOCK then INVALID_BLOCK
      else if \<not> is_genesis
        \<and> list_ex (\<lambda>i. transaction_is_valid (re_ok E) (b_txs b ! i) \<noteq> OK) [0..<b_tx_count b]
      then INVALID_BLOCK
      else (case merkle_root (mem E) (map (\<lambda>i. b_txs b ! i) [0..<b_tx_count b]) of
              Inl _ \<Rightarrow> INVALID_BLOCK
            | Inr calc_merkle \<Rightarrow>
                if strcmp calc_merkle (b_merkle_root b) \<noteq> 0 then INVALID_BLOCK else OK))"

subsection \<open>Well-formed blocks\<close>

definition txs_of :: "block_t \<Rightarrow> string list" where
  "txs_of b = take (b_tx_count b) (b_txs b)"

fun join_sep :: "string list \<Rightarrow> string" where
  "join_sep [] = []"
| "join_sep [t] = t"
| "join_sep (t # ts) = t @ ''::'' @ join_sep ts"

text \<open>
  The lists that can be told apart again after \<open>join_sep\<close>: no transaction holds the separator or
  runs into the one that follows it. This says nothing of the parser; transactions without a
  colon are always of this kind, but the text of a genesis block may hold single colons.
\<close>

fun separable :: "string list \<Rightarrow> bool" where
  "separable [] = True"
| "separable [t] = (strstr t ''::'' = None)"
| "separable (t # ts) = (strstr (t @ ''::'') ''::'' = Some (length t) \<and> separable ts)"

definition hex64 :: "string \<Rightarrow> bool" where
  "hex64 s \<longleftrightarrow> length s = 64 \<and> list_all lower_hex s"

definition block_ok :: "block_t \<Rightarrow> bool" where
  "block_ok b \<longleftrightarrow>
     1 \<le> b_tx_count b \<and> b_tx_count b \<le> 16
     \<and> b_txs b = txs_of b @ replicate (16 - b_tx_count b) [] \<and> length (txs_of b) = b_tx_count b
     \<and> (\<forall>t \<in> set (txs_of b). length t < 128 \<and> NUL \<notin> set t)
     \<and> hex64 (b_prev_hash b) \<and> hex64 (b_merkle_root b)
     \<and> join_sep (txs_of b) \<noteq> [] \<and> separable (txs_of b)"

text \<open>\<open>S(B)\<close>, the row and the hash of a well-formed block, without the buffers.\<close>

definition serial :: "block_t \<Rightarrow> string" where
  "serial b = u64_to_hex16 (b_index b) @ u64_to_hex16 (b_timestamp b) @ b_prev_hash b
     @ b_merkle_root b @ u64_to_hex16 (b_nonce b) @ join_sep (txs_of b)"

definition csv_row :: "block_t \<Rightarrow> string" where
  "csv_row b = u64_to_hex16 (b_index b) @ '','' @ u64_to_hex16 (b_timestamp b) @ '',''
     @ b_prev_hash b @ '','' @ b_merkle_root b @ '','' @ u64_to_hex16 (b_nonce b) @ '',''
     @ join_sep (txs_of b)"

definition digest_of :: "block_t \<Rightarrow> string" where
  "digest_of b = sha256 (serial b)"

subsection \<open>Joining and splitting the transactions\<close>

lemma join_sep_Cons [simp]: "ts \<noteq> [] \<Longrightarrow> join_sep (t # ts) = t @ ''::'' @ join_sep ts"
  by (cases ts) simp_all

lemma join_sep_snoc: "ts \<noteq> [] \<Longrightarrow> join_sep (ts @ [t]) = join_sep ts @ ''::'' @ t"
  by (induction ts rule: join_sep.induct) auto

lemma length_join_sep:
  assumes "\<forall>t \<in> set ts. length t \<le> n" "ts \<noteq> []"
  shows "length (join_sep ts) \<le> length ts * (n + 2) - 2"
  using assms
proof (induction ts rule: join_sep.induct)
  case (3 t t' ts)
  then have "length (join_sep (t' # ts)) \<le> length (t' # ts) * (n + 2) - 2" by simp
  moreover have "length t \<le> n" using 3 by simp
  ultimately show ?case by simp
qed auto

lemma join_rest_eq:
  "length (join_sep (acc # ts)) < cap \<Longrightarrow> join_rest ts cap acc = Some (join_sep (acc # ts))"
proof (induction ts arbitrary: acc)
  case Nil
  then show ?case by simp
next
  case (Cons t ts)
  have eq: "join_sep (acc # t # ts) = join_sep ((acc @ ''::'' @ t) # ts)"
    by (cases ts) simp_all
  have len: "length (acc @ ''::'' @ t) \<le> length (join_sep ((acc @ ''::'' @ t) # ts))"
    by (cases ts) simp_all
  have IH: "join_rest ts cap (acc @ ''::'' @ t) = Some (join_sep (acc # t # ts))"
    using Cons.IH [of "acc @ ''::'' @ t"] Cons.prems unfolding eq by blast
  have "\<not> length (''::'' @ t) \<ge> cap - length acc" using Cons.prems len unfolding eq by simp
  with IH show ?case by (simp add: Let_def)
qed

lemma txs_of_nth:
  assumes "length (txs_of b) = b_tx_count b"
  shows "map (\<lambda>i. b_txs b ! i) [0..<b_tx_count b] = txs_of b"
  using assms by (intro nth_equalityI) (simp_all add: txs_of_def)

lemma join_txs_eq:
  assumes "length (txs_of b) = b_tx_count b" "length (join_sep (txs_of b)) < cap"
  shows "join_txs b cap = Some (join_sep (txs_of b))"
proof (cases "txs_of b")
  case Nil
  with assms show ?thesis by (simp add: join_txs_def)
next
  case (Cons t ts)
  then have n: "b_tx_count b = Suc (length ts)" using assms(1) by simp
  from txs_of_nth [OF assms(1)] have "map (\<lambda>i. b_txs b ! i) [0..<b_tx_count b] = t # ts"
    by (simp add: Cons)
  then have hd: "b_txs b ! 0 = t" and tl: "map (\<lambda>i. b_txs b ! i) [1..<b_tx_count b] = ts"
    unfolding n upt_conv_Cons [OF zero_less_Suc] by auto
  have "length t \<le> length (join_sep (t # ts))" by (cases ts) simp_all
  then show ?thesis
    using assms(2) join_rest_eq [of t ts cap] Cons hd tl n by (simp add: join_txs_def)
qed

lemma strstr_sep:
  "CHR '':'' \<notin> set t \<Longrightarrow> strstr (t @ ''::'' @ r) ''::'' = Some (length t)"
  by (induction t) (auto simp: starts_with_def)

lemma strstr_no_sep: "CHR '':'' \<notin> set t \<Longrightarrow> strstr t ''::'' = None"
  by (induction t) (auto simp: starts_with_def)

lemma starts_with_extend: "length p \<le> length s \<Longrightarrow> starts_with p (s @ r) = starts_with p s"
  by (simp add: starts_with_def)

lemma strstr_extend: "strstr s p = Some i \<Longrightarrow> strstr (s @ r) p = Some i"
proof (induction s arbitrary: i)
  case (Cons c s)
  have "length p \<le> length (c # s)" using strstr_length [OF Cons.prems] by simp
  from starts_with_extend [OF this, of r] Cons show ?case by (auto split: if_splits)
qed simp

lemma strstr_cut:
  "p \<noteq> [] \<Longrightarrow> strstr (s @ p @ r) p = Some (length s) \<Longrightarrow> strstr (s @ p) p = Some (length s)"
proof (induction s)
  case Nil
  then show ?case by (cases p) (auto simp: starts_with_def)
next
  case (Cons c s)
  have "length p \<le> length (c # s @ p)" by simp
  from starts_with_extend [OF this, of r] Cons show ?case by (auto split: if_splits)
qed

lemma separable_Cons [simp]:
  "ts \<noteq> [] \<Longrightarrow> separable (t # ts) \<longleftrightarrow> strstr (t @ ''::'') ''::'' = Some (length t) \<and> separable ts"
  by (cases ts) simp_all

lemma separable_no_colon: "\<forall>t \<in> set ts. CHR '':'' \<notin> set t \<Longrightarrow> separable ts"
  by (induction ts rule: separable.induct) (auto simp: strstr_no_sep strstr_sep [of _ "[]", simplified])

lemma parse_txs_join:
  "separable ts \<Longrightarrow> \<forall>t \<in> set ts. length t < 128 \<Longrightarrow> ts \<noteq> [] \<Longrightarrow>
   length acc + length ts \<le> 16 \<Longrightarrow> parse_txs acc (join_sep ts) = Inr (acc @ ts)"
proof (induction ts arbitrary: acc rule: join_sep.induct)
  case 1
  then show ?case by simp
next
  case (2 t)
  then show ?case by (simp add: parse_txs.simps [of _ t])
next
  case (3 t t' ts)
  let ?r = "join_sep (t' # ts)"
  have "strstr (t @ ''::'') ''::'' = Some (length t)" using "3.prems"(1) by simp
  from strstr_extend [OF this, of ?r] have "strstr (t @ ''::'' @ ?r) ''::'' = Some (length t)" by simp
  moreover have "parse_txs (acc @ [t]) ?r = Inr ((acc @ [t]) @ t' # ts)"
    using "3.prems" by (intro "3.IH") auto
  ultimately show ?case using 3 by (simp add: parse_txs.simps [of acc "t @ _"])
qed

lemma parse_txs_Inr:
  "parse_txs acc s = Inr ts \<Longrightarrow> \<exists>us. ts = acc @ us \<and> us \<noteq> [] \<and> s = join_sep us
     \<and> separable us \<and> (\<forall>t \<in> set us. length t < 128) \<and> length ts \<le> 16"
proof (induction acc s arbitrary: ts rule: parse_txs.induct)
  case (1 acc s)
  show ?case
  proof (cases "strstr s ''::''")
    case None
    with "1.prems" have "ts = acc @ [s]" "length s < 128" "length acc < 16"
      by (auto simp: parse_txs.simps [of acc s] Let_def split: if_splits)
    with None show ?thesis by (intro exI [of _ "[s]"]) simp
  next
    case (Some i)
    then obtain r where s: "s = take i s @ ''::'' @ r" "i + 2 \<le> length s"
      using strstr_Some [OF Some] by auto
    then have "drop i s = ''::'' @ r" by (metis append_take_drop_id same_append_eq)
    then have "drop 2 (drop i s) = r" by simp
    then have dr: "drop (i + 2) s = r" by (simp add: add.commute)
    from Some "1.prems" have acc: "length acc < 16" "i < 128"
      "parse_txs (acc @ [take i s]) (drop (i + 2) s) = Inr ts"
      by (auto simp: parse_txs.simps [of acc s] Let_def split: if_splits)
    then obtain us where us: "ts = (acc @ [take i s]) @ us" "us \<noteq> []" "drop (i + 2) s = join_sep us"
      "separable us" "\<forall>t \<in> set us. length t < 128" "length ts \<le> 16"
      using "1.IH" [OF refl refl] Some by force
    have len: "length (take i s) = i" using s(2) by simp
    have "strstr (take i s @ ''::'' @ r) ''::'' = Some (length (take i s))"
      using Some s(1) len by simp
    from strstr_cut [OF _ this] have "separable (take i s # us)" using us(2,4) by simp
    then show ?thesis
      using us acc(2) s dr by (intro exI [of _ "take i s # us"]) simp
  qed
qed

subsection \<open>Well-formed blocks fit the buffers\<close>

lemma block_okD:
  assumes "block_ok b"
  shows "1 \<le> b_tx_count b" "b_tx_count b \<le> 16" "length (txs_of b) = b_tx_count b"
    "b_txs b = txs_of b @ replicate (16 - b_tx_count b) []"
    "t \<in> set (txs_of b) \<Longrightarrow> length t < 128" "t \<in> set (txs_of b) \<Longrightarrow> NUL \<notin> set t"
    "length (b_prev_hash b) = 64" "length (b_merkle_root b) = 64"
    "list_all lower_hex (b_prev_hash b)" "list_all lower_hex (b_merkle_root b)"
    "join_sep (txs_of b) \<noteq> []" "separable (txs_of b)"
  using assms by (auto simp: block_ok_def hex64_def)

lemma parse_txs_ok:
  assumes "block_ok b"
  shows "parse_txs [] (join_sep (txs_of b)) = Inr (txs_of b)"
proof -
  note D = block_okD [OF assms]
  have "txs_of b \<noteq> []" using D(1,3) by auto
  moreover have "\<forall>t \<in> set (txs_of b). length t < 128" using D(5) by blast
  ultimately show ?thesis using parse_txs_join [of "txs_of b" "[]"] D(2,3,12) by simp
qed

lemma length_join_ok: "block_ok b \<Longrightarrow> length (join_sep (txs_of b)) \<le> 2062"
proof -
  assume ok: "block_ok b"
  note D = block_okD [OF ok]
  have "\<forall>t \<in> set (txs_of b). length t \<le> 127" using D(5) by fastforce
  moreover have "txs_of b \<noteq> []" using D(1,3) by auto
  ultimately have "length (join_sep (txs_of b)) \<le> length (txs_of b) * (127 + 2) - 2"
    by (rule length_join_sep)
  also have "\<dots> \<le> 16 * 129 - 2" using D(2,3) by simp
  finally show ?thesis by simp
qed

lemma length_serial: "block_ok b \<Longrightarrow> length (serial b) = 176 + length (join_sep (txs_of b))"
  by (simp add: serial_def block_okD)

lemma length_csv_row: "block_ok b \<Longrightarrow> length (csv_row b) = 181 + length (join_sep (txs_of b))"
  by (simp add: csv_row_def block_okD)

lemma csv_row_bounds: "block_ok b \<Longrightarrow> 181 < length (csv_row b)" "block_ok b \<Longrightarrow> length (csv_row b) \<le> 2243"
  using length_join_ok [of b] block_okD(11) [of b] by (auto simp: length_csv_row Suc_le_eq)

lemma join_txs_ok [simp]: "block_ok b \<Longrightarrow> join_txs b MAX_SERIAL_LEN = Some (join_sep (txs_of b))"
  using length_join_ok [of b] by (intro join_txs_eq) (simp_all add: block_okD(3))

lemma block_serialize_ok [simp]: "block_ok b \<Longrightarrow> block_serialize b MAX_SERIAL_LEN = Inr (serial b)"
  using length_serial [of b] length_join_ok [of b]
  by (simp add: block_serialize_def serial_def [symmetric] Let_def snprintf_fits_def
      del: MAX_SERIAL_LEN_eq) simp

lemma block_hash_ok: "block_ok b \<Longrightarrow> block_hash M b = sha256_hex M (serial b)"
  by (simp add: block_hash_def del: MAX_SERIAL_LEN_eq)

lemma block_hash_Inr: "block_ok b \<Longrightarrow> block_hash M b = Inr h \<Longrightarrow> h = digest_of b"
  by (auto simp: block_hash_ok digest_of_def dest: sha256_hex_Inr)

lemma block_hash_plenty [simp]: "block_ok b \<Longrightarrow> block_hash plenty b = Inr (digest_of b)"
  using length_serial [of b] length_join_ok [of b] padded_len_bounds(2) [of "length (serial b)"]
  by (simp add: block_hash_ok digest_of_def)

lemma block_to_csv_row_ok:
  assumes "block_ok b" "2244 \<le> cap"
  shows "block_to_csv_row b out cap = (OK, csv_row b)"
proof -
  have "snprintf_fits cap (csv_row b)"
    using csv_row_bounds(2) [OF assms(1)] assms(2) by (simp add: snprintf_fits_def)
  then show ?thesis
    using assms(1) by (simp add: block_to_csv_row_def csv_row_def Let_def del: MAX_SERIAL_LEN_eq)
qed

subsection \<open>The row round trip\<close>

lemma is_hex_lowercase_iff: "length s = n \<Longrightarrow> is_hex_lowercase s n \<longleftrightarrow> list_all lower_hex s"
  by (simp add: is_hex_lowercase_def list_all_iff lower_hex_def isdigit_def)

lemma append_slice:
  "length a = n \<Longrightarrow> take n (a @ r) = a" "length a = n \<Longrightarrow> drop n (a @ r) = r"
  by simp_all

lemma csv_row_slices:
  assumes "block_ok b"
  shows "take 16 (csv_row b) = u64_to_hex16 (b_index b)"
    "take 16 (drop 17 (csv_row b)) = u64_to_hex16 (b_timestamp b)"
    "take 64 (drop 34 (csv_row b)) = b_prev_hash b"
    "take 64 (drop 99 (csv_row b)) = b_merkle_root b"
    "take 16 (drop 164 (csv_row b)) = u64_to_hex16 (b_nonce b)"
    "drop 181 (csv_row b) = join_sep (txs_of b)"
    "csv_row b ! 16 = CHR '',''" "csv_row b ! 33 = CHR '',''" "csv_row b ! 98 = CHR '',''"
    "csv_row b ! 163 = CHR '',''" "csv_row b ! 180 = CHR '',''"
  using block_okD(7,8) [OF assms] by (simp_all add: csv_row_def nth_append)

lemma block_from_csv_row_of_row:
  assumes ok: "block_ok b"
  shows "block_from_csv_row (csv_row b) = Inr b"
proof -
  note D = block_okD [OF ok]
  have "b_txs b = txs_of b @ drop (length (txs_of b)) (b_txs zero_block)"
    using D(3) by (subst D(4)) (simp add: zero_block_def)
  then have "Inr b = Inr \<lparr>b_index = b_index b, b_timestamp = b_timestamp b, b_nonce = b_nonce b,
      b_prev_hash = b_prev_hash b, b_merkle_root = b_merkle_root b,
      b_txs = txs_of b @ drop (length (txs_of b)) (b_txs zero_block),
      b_tx_count = length (txs_of b)\<rparr>" using D(3) by simp
  then show ?thesis
    using csv_row_bounds(1) [OF ok] D parse_txs_ok [OF ok]
    by (simp add: block_from_csv_row_def csv_row_slices [OF ok] is_hex_lowercase_iff Let_def)
qed

lemma block_from_csv_row_Inr:
  assumes "block_from_csv_row row = Inr b"
  shows "181 < length row"
    "row ! 16 = CHR '',''" "row ! 33 = CHR '',''" "row ! 98 = CHR '',''" "row ! 163 = CHR '',''"
    "row ! 180 = CHR '',''"
    "hex16_to_u64 (take 16 row) = Inr (b_index b)"
    "hex16_to_u64 (take 16 (drop 17 row)) = Inr (b_timestamp b)"
    "hex16_to_u64 (take 16 (drop 164 row)) = Inr (b_nonce b)"
    "b_prev_hash b = take 64 (drop 34 row)" "list_all lower_hex (b_prev_hash b)"
    "b_merkle_root b = take 64 (drop 99 row)" "list_all lower_hex (b_merkle_root b)"
    "parse_txs [] (drop 181 row) = Inr (txs_of b)"
    "b_tx_count b = length (txs_of b)" "b_txs b = txs_of b @ replicate (16 - b_tx_count b) []"
proof -
  have row: "\<not> (length row < 181 \<or> row ! 16 \<noteq> CHR '','' \<or> row ! 33 \<noteq> CHR '','' \<or> row ! 98 \<noteq> CHR '',''
      \<or> row ! 163 \<noteq> CHR '','' \<or> row ! 180 \<noteq> CHR '','')"
    using assms by (auto simp: block_from_csv_row_def split: if_splits)
  obtain i t n ts where parts: "hex16_to_u64 (take 16 row) = Inr i"
      "hex16_to_u64 (take 16 (drop 17 row)) = Inr t" "hex16_to_u64 (take 16 (drop 164 row)) = Inr n"
      "is_hex_lowercase (take 64 (drop 34 row)) 64" "is_hex_lowercase (take 64 (drop 99 row)) 64"
      "drop 181 row \<noteq> []" "parse_txs [] (drop 181 row) = Inr ts"
    and b: "b = \<lparr>b_index = i, b_timestamp = t, b_nonce = n, b_prev_hash = take 64 (drop 34 row),
      b_merkle_root = take 64 (drop 99 row), b_txs = ts @ drop (length ts) (b_txs zero_block),
      b_tx_count = length ts\<rparr>"
    using assms row
    by (auto simp: block_from_csv_row_def Let_def split: sum.splits if_splits)
  have txs: "txs_of b = ts" by (simp add: b txs_of_def)
  show "181 < length row" using parts(6) by simp
  then show "list_all lower_hex (b_prev_hash b)" "list_all lower_hex (b_merkle_root b)"
    using parts(4,5) by (simp_all add: b is_hex_lowercase_iff)
  show "b_txs b = txs_of b @ replicate (16 - b_tx_count b) []"
    by (simp add: txs) (simp add: b zero_block_def)
  show "row ! 16 = CHR '',''" "row ! 33 = CHR '',''" "row ! 98 = CHR '',''" "row ! 163 = CHR '',''"
    "row ! 180 = CHR '',''" using row by simp_all
  show "hex16_to_u64 (take 16 row) = Inr (b_index b)"
    "hex16_to_u64 (take 16 (drop 17 row)) = Inr (b_timestamp b)"
    "hex16_to_u64 (take 16 (drop 164 row)) = Inr (b_nonce b)"
    "b_prev_hash b = take 64 (drop 34 row)" "b_merkle_root b = take 64 (drop 99 row)"
    "parse_txs [] (drop 181 row) = Inr (txs_of b)" "b_tx_count b = length (txs_of b)"
    using parts txs by (simp_all add: b)
qed

lemma block_from_csv_row_ok:
  assumes "block_from_csv_row row = Inr b" and "NUL \<notin> set row"
  shows "block_ok b"
proof -
  note R = block_from_csv_row_Inr [OF assms(1)]
  from parse_txs_Inr [OF R(14)]
  have ts: "txs_of b \<noteq> []" "drop 181 row = join_sep (txs_of b)"
    "separable (txs_of b)" "\<forall>t \<in> set (txs_of b). length t < 128" "length (txs_of b) \<le> 16" by auto
  have sub: "t \<in> set us \<Longrightarrow> set t \<subseteq> set (join_sep us)" for t us
    by (induction us rule: join_sep.induct) auto
  have "NUL \<notin> set t" if "t \<in> set (txs_of b)" for t
    using sub [OF that] assms(2) ts(2) by (metis in_set_dropD subsetD)
  moreover have "hex64 (b_prev_hash b)" "hex64 (b_merkle_root b)"
    using R(1,10-13) by (simp_all add: hex64_def)
  moreover have "join_sep (txs_of b) \<noteq> []" using ts(2) R(1) by (metis drop_eq_Nil not_le)
  ultimately show ?thesis
    using ts R(14-16) by (auto simp: block_ok_def Suc_le_eq)
qed

lemma slice_step:
  assumes "a + k < length r" "r ! (a + k) = c"
  shows "take k (drop a r) @ [c] @ drop (a + k + 1) r = drop a r"
proof -
  have "k < length (drop a r)" "drop a r ! k = c" using assms by simp_all
  from id_take_nth_drop [OF this(1)] this(2) show ?thesis by (simp add: add.commute)
qed

lemma csv_row_of_parsed:
  assumes p: "block_from_csv_row row = Inr b" "NUL \<notin> set row"
    and lower: "list_all lower_hex (take 16 row)" "list_all lower_hex (take 16 (drop 17 row))"
      "list_all lower_hex (take 16 (drop 164 row))"
  shows "csv_row b = row"
proof -
  note R = block_from_csv_row_Inr [OF p(1)]
  have "u64_to_hex16 (b_index b) = take 16 row"
    "u64_to_hex16 (b_timestamp b) = take 16 (drop 17 row)"
    "u64_to_hex16 (b_nonce b) = take 16 (drop 164 row)"
    using u64_to_hex16_of_hex16 [OF R(7)] u64_to_hex16_of_hex16 [OF R(8)]
      u64_to_hex16_of_hex16 [OF R(9)] lower by (simp_all add: list_all_iff)
  moreover have "join_sep (txs_of b) = drop 181 row" using parse_txs_Inr [OF R(14)] by auto
  moreover have "take 16 row @ '','' @ drop 17 row = row"
    using slice_step [of 0 16 row "CHR '',''"] R(1,2) by simp
  moreover have "take 16 (drop 17 row) @ '','' @ drop 34 row = drop 17 row"
    using slice_step [of 17 16 row "CHR '',''"] R(1,3) by simp
  moreover have "take 64 (drop 34 row) @ '','' @ drop 99 row = drop 34 row"
    using slice_step [of 34 64 row "CHR '',''"] R(1,4) by simp
  moreover have "take 64 (drop 99 row) @ '','' @ drop 164 row = drop 99 row"
    using slice_step [of 99 64 row "CHR '',''"] R(1,5) by simp
  moreover have "take 16 (drop 164 row) @ '','' @ drop 181 row = drop 164 row"
    using slice_step [of 164 16 row "CHR '',''"] R(1,6) by simp
  ultimately show ?thesis by (simp only: csv_row_def R(10,12))
qed

subsection \<open>\<open>S(B)\<close> determines the block\<close>

lemma serial_inj:
  assumes ok: "block_ok a" "block_ok b" and eq: "serial a = serial b"
  shows "a = b"
proof -
  note A = block_okD [OF ok(1)] and B = block_okD [OF ok(2)]
  from eq have "b_index a = b_index b" "b_timestamp a = b_timestamp b" "b_prev_hash a = b_prev_hash b"
    "b_merkle_root a = b_merkle_root b" "b_nonce a = b_nonce b"
    and join: "join_sep (txs_of a) = join_sep (txs_of b)"
    using A(7,8) B(7,8) by (simp_all add: serial_def u64_to_hex16_inj)
  moreover have txs: "txs_of a = txs_of b" using parse_txs_ok [OF ok(1)] parse_txs_ok [OF ok(2)] join
    by (metis sum.inject(2))
  moreover have "b_tx_count a = b_tx_count b" using txs A(3) B(3) by simp
  moreover from this have "b_txs a = b_txs b" using txs A(4) B(4) by simp
  ultimately show ?thesis by simp
qed

subsection \<open>What validation accepts\<close>

definition valid_block :: "block_t \<Rightarrow> bool" where
  "valid_block b \<longleftrightarrow> block_ok b
     \<and> (b_index b = 0 \<or> (\<forall>t \<in> set (txs_of b). tx_shape t))
     \<and> b_merkle_root b = merkle_of sha256 (map sha256 (txs_of b))"

lemma block_is_valid_iff:
  assumes "length (txs_of b) = b_tx_count b"
  shows "block_is_valid E b g = OK \<longleftrightarrow> 1 \<le> b_tx_count b \<and> b_tx_count b \<le> 16
     \<and> (g \<or> (\<forall>t \<in> set (txs_of b). transaction_is_valid (re_ok E) t = OK))
     \<and> merkle_root (mem E) (txs_of b) = Inr (b_merkle_root b)"
proof -
  have "list_ex (\<lambda>i. transaction_is_valid (re_ok E) (b_txs b ! i) \<noteq> OK) [0..<b_tx_count b]
      \<longleftrightarrow> (\<exists>t \<in> set (txs_of b). transaction_is_valid (re_ok E) t \<noteq> OK)"
    unfolding txs_of_nth [OF assms, symmetric] by (simp add: list_ex_iff)
  then show ?thesis
    by (auto simp: block_is_valid_def txs_of_nth [OF assms] Suc_le_eq split: sum.splits)
qed

lemma block_is_valid_sound:
  "block_ok b \<Longrightarrow> block_is_valid E b (b_index b = 0) = OK \<Longrightarrow> valid_block b"
  using block_is_valid_iff [OF block_okD(3), of b E "b_index b = 0"]
  by (auto simp: valid_block_def transaction_is_valid_iff dest: merkle_root_Inr)

lemma block_is_valid_complete:
  assumes "valid_block b" "mem E = plenty" "re_ok E"
  shows "block_is_valid E b (b_index b = 0) = OK"
proof -
  have ok: "block_ok b" using assms(1) by (simp add: valid_block_def)
  note D = block_okD [OF ok]
  have "merkle_root plenty (txs_of b) = Inr (b_merkle_root b)"
    using merkle_root_plenty [of "txs_of b"] D(1-3,5) assms(1)
    by (fastforce simp: valid_block_def)
  then show ?thesis
    using D assms by (auto simp: block_is_valid_iff [OF D(3)] transaction_is_valid_iff valid_block_def)
qed

subsection \<open>Blocks built from their parts\<close>

text \<open>
  The block a program part fills in field by field, with the Merkle root of its transactions:
  the genesis block of \<open>main.c\<close> and the candidates of \<open>miner.c\<close> have this form.
\<close>

definition block_with :: "u64 \<Rightarrow> u64 \<Rightarrow> u64 \<Rightarrow> string \<Rightarrow> string list \<Rightarrow> block_t" where
  "block_with i t n p ts = \<lparr>b_index = i, b_timestamp = t, b_nonce = n, b_prev_hash = p,
     b_merkle_root = merkle_of sha256 (map sha256 ts),
     b_txs = ts @ replicate (16 - length ts) [], b_tx_count = length ts\<rparr>"

lemma block_with_sel [simp]:
  "b_index (block_with i t n p ts) = i" "b_prev_hash (block_with i t n p ts) = p"
  "b_tx_count (block_with i t n p ts) = length ts" "txs_of (block_with i t n p ts) = ts"
  "b_timestamp (block_with i t n p ts) = t" "b_nonce (block_with i t n p ts) = n"
  "b_merkle_root (block_with i t n p ts) = merkle_of sha256 (map sha256 ts)"
  by (simp_all add: block_with_def txs_of_def)

definition plain_tx :: "string \<Rightarrow> bool" where
  "plain_tx t \<longleftrightarrow> t \<noteq> [] \<and> length t < 128 \<and> NUL \<notin> set t \<and> CHR '':'' \<notin> set t"

lemma plain_tx_shape: "tx_shape t \<Longrightarrow> length t < 128 \<Longrightarrow> plain_tx t"
  using tx_shape_clean [of t] tx_shape_nonempty [of t] by (auto simp: plain_tx_def)

lemma merkle_hex64: "ts \<noteq> [] \<Longrightarrow> hex64 (merkle_of sha256 (map sha256 ts))"
  by (auto simp: hex64_def list_all_iff sha.merkle_of_hex)

lemma block_with_ok:
  assumes "ts \<noteq> []" "length ts \<le> 16" "\<forall>t \<in> set ts. plain_tx t" "hex64 p"
  shows "block_ok (block_with i t n p ts)"
proof -
  have "separable ts" using assms(3) by (intro separable_no_colon) (auto simp: plain_tx_def)
  moreover have "join_sep ts \<noteq> []"
    using assms(1,3) by (cases ts rule: join_sep.cases) (auto simp: plain_tx_def)
  moreover have "1 \<le> length ts" using assms(1) by (cases ts) auto
  ultimately show ?thesis
    using assms merkle_hex64 [OF assms(1)]
    unfolding block_ok_def block_with_sel
    by (auto simp: block_with_def plain_tx_def)
qed

lemma block_with_valid:
  assumes "ts \<noteq> []" "length ts \<le> 16" "\<forall>t \<in> set ts. tx_shape t \<and> length t < 128" "hex64 p"
  shows "valid_block (block_with i t n p ts)"
proof -
  have "\<forall>t \<in> set ts. plain_tx t" using assms(3) plain_tx_shape by blast
  from block_with_ok [OF assms(1,2) this assms(4)] assms(3) show ?thesis
    by (simp add: valid_block_def)
qed

definition zeros64 :: string where
  "zeros64 = replicate 64 (CHR ''0'')"

lemma hex64_zeros [simp]: "hex64 zeros64"
  by (simp add: hex64_def zeros64_def list_all_iff lower_hex_def isdigit_def)

lemma hex64_sha256 [simp]: "hex64 (sha256 s)"
  by (auto simp: hex64_def list_all_iff dest: sha256_lower)

subsection \<open>Concrete blocks for the witnesses\<close>

definition tx1 :: string where "tx1 = ''Alice pays Bob 10 coins''"
definition tx2 :: string where "tx2 = ''Bob pays Charlie 5 coins''"

lemma tx_samples [simp]:
  "tx_shape tx1" "tx_shape tx2" "length tx1 < 128" "length tx2 < 128"
  using tx_shapeI [of "''Alice''" "''Bob''" "CHR ''1''" "''0''"]
    tx_shapeI [of "''Bob''" "''Charlie''" "CHR ''5''" "[]"]
  by (simp_all add: tx1_def tx2_def isalnum_def isdigit_def)

definition block1 :: block_t where
  "block1 = block_with 1 0x677485e4 0 zeros64 [tx1, tx2]"

lemma block1_valid [simp]: "valid_block block1"
  by (simp add: block1_def block_with_valid)

lemma block1_ok [simp]: "block_ok block1"
  using block1_valid by (simp add: valid_block_def)

subsection \<open>Properties\<close>

text \<open>C29: printing a well-formed block as a CSV row always succeeds, the row is at most 2243 bytes
  long, and parsing it gives the same block back. Well-formed means 1 to 16 transactions of less
  than 128 bytes that do not blur the separator, empty slots behind them, and two hashes of 64
  lower-case digits; nothing is assumed of the parser.\<close>

theorem row_roundtrip:
  assumes "block_ok b"
  shows "\<exists>row. block_to_csv_row b out MAX_CSV_ROW_LEN = (OK, row) \<and> length row \<le> 2243
    \<and> block_from_csv_row row = Inr b"
  using block_to_csv_row_ok [OF assms] csv_row_bounds(2) [OF assms]
    block_from_csv_row_of_row [OF assms] by simp

theorem row_roundtrip_witness:
  "\<exists>row. block_to_csv_row block1 [] MAX_CSV_ROW_LEN = (OK, row) \<and> length row \<le> 2243
    \<and> block_from_csv_row row = Inr block1"
  by (rule row_roundtrip) simp

text \<open>C34: whatever bytes arrive, a row the parser accepts gives a well-formed block: 1 to 16
  transactions of less than 128 bytes, the unused slots empty, hashes of 64 lower-case digits;
  and if the three numbers of the row are in lower case, printing the block gives the row back.\<close>

theorem parsed_block_ok:
  assumes "block_from_csv_row row = Inr b" and "NUL \<notin> set row"
  shows "block_ok b \<and> (list_all lower_hex (take 16 row) \<and> list_all lower_hex (take 16 (drop 17 row))
    \<and> list_all lower_hex (take 16 (drop 164 row)) \<longrightarrow>
      block_to_csv_row b out MAX_CSV_ROW_LEN = (OK, row))"
  using block_from_csv_row_ok [OF assms] csv_row_of_parsed [OF assms]
    block_to_csv_row_ok [of b MAX_CSV_ROW_LEN out] by auto

theorem parsed_block_ok_witness:
  "block_from_csv_row (csv_row block1) = Inr block1 \<and> block_ok block1"
proof -
  have row: "block_from_csv_row (csv_row block1) = Inr block1"
    by (rule block_from_csv_row_of_row) simp
  have "NUL \<notin> set (csv_row block1)"
    by (simp add: csv_row_def block1_def zeros64_def tx1_def tx2_def)
      (use sha.merkle_of_hex(2) [of "[tx1, tx2]"] lower_hex_neq in
        \<open>fastforce simp: tx1_def tx2_def\<close>)
  from parsed_block_ok [OF row this] row show ?thesis by blast
qed

text \<open>Two well-formed blocks with the same serialization \<open>S(B)\<close> are the same block, so two
  blocks have the same hash only if they are equal or their serializations collide under SHA-256.\<close>

theorem serialization_injective:
  assumes "block_ok a" "block_ok b" and "block_serialize a MAX_SERIAL_LEN = block_serialize b MAX_SERIAL_LEN"
  shows "a = b"
  using assms serial_inj [of a b] by (simp del: MAX_SERIAL_LEN_eq)

text \<open>C35: a well-formed block passes validation exactly when every transaction of a non-genesis
  block has the transaction format and the declared Merkle root is that of its transactions.\<close>

theorem validation_spec:
  assumes "block_ok b" "mem E = plenty" "re_ok E"
  shows "block_is_valid E b (b_index b = 0) = OK \<longleftrightarrow>
     (b_index b = 0 \<or> (\<forall>t \<in> set (txs_of b). tx_shape t))
     \<and> b_merkle_root b = merkle_of sha256 (map sha256 (txs_of b))"
  using block_is_valid_sound [OF assms(1)] block_is_valid_complete [OF _ assms(2,3)] assms(1)
  by (auto simp: valid_block_def)

theorem validation_spec_witness:
  "block_is_valid \<lparr>mem = plenty, re_ok = True\<rparr> block1 (b_index block1 = 0) = OK"
proof -
  have "(b_index block1 = 0 \<or> (\<forall>t \<in> set (txs_of block1). tx_shape t))
     \<and> b_merkle_root block1 = merkle_of sha256 (map sha256 (txs_of block1))"
    by (simp add: block1_def)
  then show ?thesis using validation_spec [of block1 "\<lparr>mem = plenty, re_ok = True\<rparr>"] by simp
qed

end
