(* ===== verification/Chain.thy ===== *)
theory Chain
  imports Block
begin

section \<open>The chain and the append rules (block.c)\<close>

text \<open>
  \<open>chain_t\<close> (a growable array), the look-ups and \<open>chain_append\<close>, the only function that
  changes a chain: push, tie-breaker, and the five ways a block can be refused.

  \<open>chain_inv\<close> says what every chain of the program satisfies: block \<open>i\<close> sits at position
  \<open>i\<close>, is valid, and names the hash of block \<open>i - 1\<close>. \<open>append_spec\<close> is the contract of
  \<open>chain_append\<close> on plain lists of blocks; \<open>chain_append_refines\<close> shows that the code keeps it.
  The interface other components use is the locale \<open>ledger\<close>.
\<close>

subsection \<open>Data (block.h)\<close>

record chain_t =
  c_v :: "block_t list"
  c_len :: nat
  c_cap :: nat

datatype append_result =
    APPEND_OK | APPEND_REPLACED | APPEND_DUP | APPEND_STALE | APPEND_AHEAD | APPEND_LOST
  | APPEND_INVALID

definition chain_init :: chain_t where
  "chain_init = \<lparr>c_v = [], c_len = 0, c_cap = 0\<rparr>"

definition chain_free :: "chain_t \<Rightarrow> chain_t" where
  \<comment> \<open>the array goes back to the allocator and the record is reset\<close>
  "chain_free c = chain_init"

subsection \<open>Operations\<close>

text \<open>
  \<open>c_v\<close> holds the \<open>c_len\<close> cells in use; the cells up to \<open>c_cap\<close> are allocated but never
  read. A push doubles a full array and may be refused the memory.
\<close>

definition chain_push :: "allocator \<Rightarrow> chain_t \<Rightarrow> block_t \<Rightarrow> code \<times> chain_t" where
  "chain_push M c b =
     (let new_cap = (if c_cap c = 0 then 1 else c_cap c * 2);
          store = (\<lambda>d. d\<lparr>c_v := take (c_len d) (c_v d) @ [b], c_len := c_len d + 1\<rparr>)
      in if c_len c \<ge> c_cap c
         then (if \<not> alloc M (new_cap * sizeof_block mod 2 ^ 64) then (SYS_ERROR, c)
               else (OK, store (c\<lparr>c_cap := new_cap\<rparr>)))
         else (OK, store c))"

definition chain_tip :: "chain_t \<Rightarrow> block_t option" where
  "chain_tip c = (if c_len c = 0 then None else Some (c_v c ! (c_len c - 1)))"

definition chain_find_index :: "chain_t \<Rightarrow> u64 \<Rightarrow> block_t option" where
  "chain_find_index c i =
     (if c_len c \<le> unat i \<or> b_index (c_v c ! unat i) \<noteq> i then None
      else Some (c_v c ! unat i))"

fun find_hash_from :: "allocator \<Rightarrow> block_t list \<Rightarrow> string \<Rightarrow> block_t option" where
  "find_hash_from M [] h = None"
| "find_hash_from M (b # bs) h =
     (case block_hash M b of
        Inr current_hash \<Rightarrow>
          if strcmp current_hash h = 0 then Some b else find_hash_from M bs h
      | Inl _ \<Rightarrow> find_hash_from M bs h)"

definition chain_find_hash :: "allocator \<Rightarrow> chain_t \<Rightarrow> string \<Rightarrow> block_t option" where
  "chain_find_hash M c h = (if c_len c = 0 then None else find_hash_from M (take (c_len c) (c_v c)) h)"

definition is_duplicate :: "allocator \<Rightarrow> chain_t \<Rightarrow> block_t \<Rightarrow> string \<Rightarrow> bool" where
  \<comment> \<open>case 1 of \<open>chain_append\<close>\<close>
  "is_duplicate M c b b_hash =
     (case chain_find_index c (b_index b) of
        None \<Rightarrow> False
      | Some same_index \<Rightarrow>
          (case block_hash M same_index of Inl _ \<Rightarrow> False | Inr same_hash \<Rightarrow> strcmp same_hash b_hash = 0))"

definition push_result :: "allocator \<Rightarrow> chain_t \<Rightarrow> block_t \<Rightarrow> append_result \<times> chain_t" where
  "push_result M c b =
     (let (r, c') = chain_push M c b in if r \<noteq> OK then (APPEND_INVALID, c') else (APPEND_OK, c'))"

definition chain_append :: "env \<Rightarrow> chain_t \<Rightarrow> block_t \<Rightarrow> append_result \<times> chain_t" where
  "chain_append E c b =
     (let is_genesis = (b_index b = 0) in
      if block_is_valid E b is_genesis \<noteq> OK then (APPEND_INVALID, c) else
      case block_hash (mem E) b of Inl _ \<Rightarrow> (APPEND_INVALID, c) | Inr b_hash \<Rightarrow>
      if is_duplicate (mem E) c b b_hash then (APPEND_DUP, c) else
      case chain_tip c of
        None \<Rightarrow> if is_genesis then push_result (mem E) c b else (APPEND_AHEAD, c)
      | Some tip \<Rightarrow>
      (case block_hash (mem E) tip of Inl _ \<Rightarrow> (APPEND_INVALID, c) | Inr tip_hash \<Rightarrow>
       if b_index b = b_index tip + 1 \<and> strcmp (b_prev_hash b) tip_hash = 0
       then push_result (mem E) c b
       else if b_index b > b_index tip + 1 then (APPEND_AHEAD, c)
       else if b_index b = b_index tip \<and> strcmp (b_prev_hash b) (b_prev_hash tip) = 0
       then (if strcmp b_hash tip_hash < 0
             then (APPEND_REPLACED, c\<lparr>c_v := (c_v c)[c_len c - 1 := b]\<rparr>)
             else (APPEND_LOST, c))
       else (APPEND_STALE, c)))"

subsection \<open>The invariant\<close>

definition linked :: "block_t list \<Rightarrow> bool" where
  "linked bs \<longleftrightarrow>
     (\<forall>i < length bs. b_index (bs ! i) = of_nat i \<and> valid_block (bs ! i))
     \<and> (\<forall>i. Suc i < length bs \<longrightarrow> b_prev_hash (bs ! Suc i) = digest_of (bs ! i))"

definition chain_inv :: "chain_t \<Rightarrow> bool" where
  "chain_inv c \<longleftrightarrow> c_len c = length (c_v c) \<and> c_len c \<le> c_cap c \<and> c_cap c \<le> 2 * c_len c
     \<and> c_cap c * sizeof_block < 2 ^ 63 \<and> linked (c_v c)"

text \<open>The contract of an append, on the blocks alone.\<close>

definition append_spec :: "block_t list \<Rightarrow> block_t \<Rightarrow> append_result \<times> block_t list" where
  "append_spec bs b =
     (let i = unat (b_index b) in
      if \<not> valid_block b then (APPEND_INVALID, bs)
      else if i < length bs \<and> digest_of (bs ! i) = digest_of b then (APPEND_DUP, bs)
      else if bs = [] then (if i = 0 then (APPEND_OK, [b]) else (APPEND_AHEAD, bs))
      else if i = length bs \<and> b_prev_hash b = digest_of (last bs) then (APPEND_OK, bs @ [b])
      else if i > length bs then (APPEND_AHEAD, bs)
      else if Suc i = length bs \<and> b_prev_hash b = b_prev_hash (last bs)
      then (if digest_of b < digest_of (last bs) then (APPEND_REPLACED, butlast bs @ [b])
            else (APPEND_LOST, bs))
      else (APPEND_STALE, bs))"

subsection \<open>Facts about linked lists of blocks\<close>

lemma linked_Nil [simp]: "linked []"
  by (simp add: linked_def)

lemma linkedD:
  assumes "linked bs" "i < length bs"
  shows "b_index (bs ! i) = of_nat i" "valid_block (bs ! i)" "block_ok (bs ! i)"
  using assms by (auto simp: linked_def valid_block_def)

lemma linked_snoc:
  "linked (bs @ [b]) \<longleftrightarrow> linked bs \<and> valid_block b \<and> b_index b = of_nat (length bs)
     \<and> (bs \<noteq> [] \<longrightarrow> b_prev_hash b = digest_of (last bs))"
proof (cases bs rule: rev_cases)
  case Nil
  then show ?thesis by (auto simp: linked_def)
next
  case (snoc as a)
  have "(\<forall>i. Suc i < length (bs @ [b]) \<longrightarrow> b_prev_hash ((bs @ [b]) ! Suc i) = digest_of ((bs @ [b]) ! i))
      \<longleftrightarrow> (\<forall>i. Suc i < length bs \<longrightarrow> b_prev_hash (bs ! Suc i) = digest_of (bs ! i))
        \<and> b_prev_hash b = digest_of a"
    by (auto simp: snoc nth_append less_Suc_eq)
  then show ?thesis
    unfolding linked_def using snoc by (auto simp: nth_append less_Suc_eq)
qed

lemma linked_butlast: "linked bs \<Longrightarrow> linked (butlast bs)"
  by (cases bs rule: rev_cases) (auto simp: linked_snoc)

lemma linked_replace:
  assumes "linked bs" "bs \<noteq> []" "valid_block b" "b_index b = b_index (last bs)"
    "b_prev_hash b = b_prev_hash (last bs)"
  shows "linked (butlast bs @ [b])"
  using assms by (cases bs rule: rev_cases) (auto simp: linked_snoc)

lemma chain_invD:
  assumes "chain_inv c"
  shows "c_len c = length (c_v c)" "linked (c_v c)" "length (c_v c) < 2 ^ 52"
proof -
  show "c_len c = length (c_v c)" "linked (c_v c)" using assms by (simp_all add: chain_inv_def)
  have "c_len c * 2216 < 2 ^ 63"
    using assms mult_le_mono1 [of "c_len c" "c_cap c" 2216]
    by (auto simp: chain_inv_def sizeof_block_def)
  then show "length (c_v c) < 2 ^ 52" using assms by (simp add: chain_inv_def)
qed

lemma chain_inv_init [simp]: "chain_inv chain_init" "c_v chain_init = []" "c_len chain_init = 0"
  by (simp_all add: chain_inv_def chain_init_def)

subsection \<open>Positions and 64-bit indices\<close>

lemma index_conv:
  fixes i :: u64
  assumes "0 < n" "n < 2 ^ 52"
  shows "i = of_nat (n - 1) + 1 \<longleftrightarrow> unat i = n"
    and "of_nat (n - 1) + 1 < i \<longleftrightarrow> n < unat i"
    and "i = of_nat (n - 1) \<longleftrightarrow> Suc (unat i) = n"
    and "unat (of_nat (n - 1) :: u64) = n - 1"
proof -
  have gen: "unat (of_nat k :: u64) = k" if "k < 2 ^ 52" for k
    using that by (simp add: unat_of_nat take_bit_nat_eq_self)
  have un: "unat (of_nat n :: u64) = n" and un': "unat (of_nat (n - 1) :: u64) = n - 1"
    by (rule gen, use assms in simp)+
  show "unat (of_nat (n - 1) :: u64) = n - 1" by (rule un')
  have eq: "of_nat (n - 1) + 1 = (of_nat n :: u64)"
    using assms(1) of_nat_Suc [of "n - 1", where ?'a = u64] by (simp add: add.commute)
  show "i = of_nat (n - 1) + 1 \<longleftrightarrow> unat i = n"
    unfolding eq using un by (metis word_unat_eq_iff)
  show "of_nat (n - 1) + 1 < i \<longleftrightarrow> n < unat i"
    unfolding eq using un by (simp add: word_less_nat_alt)
  show "i = of_nat (n - 1) \<longleftrightarrow> Suc (unat i) = n"
    using un' assms(1) by (metis Suc_pred' diff_Suc_1 word_unat_eq_iff)
qed

lemma chain_tip_eq:
  assumes "chain_inv c"
  shows "chain_tip c = (if c_v c = [] then None else Some (last (c_v c)))"
  using chain_invD(1) [OF assms] by (simp add: chain_tip_def last_conv_nth)

lemma tip_index:
  assumes "chain_inv c" "c_v c \<noteq> []"
  shows "b_index (last (c_v c)) = of_nat (length (c_v c) - 1)"
    "block_ok (last (c_v c))" "valid_block (last (c_v c))"
  using linkedD [OF chain_invD(2) [OF assms(1)], of "length (c_v c) - 1"] assms(2)
  by (simp_all add: last_conv_nth)

lemma chain_find_index_eq:
  assumes "chain_inv c"
  shows "chain_find_index c i = (if unat i < length (c_v c) then Some (c_v c ! unat i) else None)"
  using linkedD(1) [OF chain_invD(2) [OF assms], of "unat i"] chain_invD(1) [OF assms]
  by (auto simp: chain_find_index_def)

subsection \<open>What a push does\<close>

lemma chain_push_cases:
  assumes inv: "chain_inv c"
  shows "chain_push M c b = (SYS_ERROR, c) \<or>
    (\<exists>cap. chain_push M c b = (OK, \<lparr>c_v = c_v c @ [b], c_len = Suc (c_len c), c_cap = cap\<rparr>)
       \<and> Suc (c_len c) \<le> cap \<and> cap \<le> 2 * Suc (c_len c) \<and> cap * sizeof_block < 2 ^ 63)"
proof -
  let ?new = "if c_cap c = 0 then 1 else c_cap c * 2"
  have bounds: "c_len c = length (c_v c)" "c_len c \<le> c_cap c" "c_cap c \<le> 2 * c_len c" "c_cap c * sizeof_block < 2 ^ 63"
    using inv by (auto simp: chain_inv_def)
  then have no_wrap: "?new * sizeof_block mod 2 ^ 64 = ?new * sizeof_block"
    by (auto simp: sizeof_block_def)
  show ?thesis
  proof (cases "c_len c \<ge> c_cap c \<and> \<not> alloc M (?new * sizeof_block)")
    case True
    then show ?thesis using no_wrap by (simp add: chain_push_def Let_def)
  next
    case False
    let ?cap = "if c_len c \<ge> c_cap c then ?new else c_cap c"
    have "chain_push M c b = (OK, \<lparr>c_v = c_v c @ [b], c_len = Suc (c_len c), c_cap = ?cap\<rparr>)"
      using False no_wrap bounds(1) by (simp add: chain_push_def Let_def)
    moreover have "Suc (c_len c) \<le> ?cap" "?cap \<le> 2 * Suc (c_len c)" using bounds(2,3) by auto
    moreover have "?cap * sizeof_block < 2 ^ 63" using False bounds(4) by (auto simp: alloc_def)
    ultimately show ?thesis by blast
  qed
qed

lemma chain_push_plenty:
  assumes "chain_inv c" "length (c_v c) < 2 ^ 49"
  shows "fst (chain_push plenty c b) = OK"
  using assms by (auto simp: chain_inv_def chain_push_def Let_def alloc_def sizeof_block_def)

subsection \<open>What an append does, whatever the allocator answers\<close>

lemma push_result_cases:
  assumes "chain_inv c" "valid_block b" "b_index b = of_nat (length (c_v c))"
    "c_v c \<noteq> [] \<longrightarrow> b_prev_hash b = digest_of (last (c_v c))"
  shows "push_result M c b = (APPEND_INVALID, c) \<or>
    (\<exists>c'. push_result M c b = (APPEND_OK, c') \<and> c_v c' = c_v c @ [b] \<and> chain_inv c')"
proof -
  have "linked (c_v c @ [b])" using assms chain_invD(2) by (auto simp: linked_snoc)
  then show ?thesis
    using chain_push_cases [OF assms(1), of M b] chain_invD(1) [OF assms(1)]
    by (auto simp: push_result_def chain_inv_def)
qed

lemma tie_update:
  assumes "chain_inv c" "c_v c \<noteq> []" "valid_block b" "b_index b = b_index (last (c_v c))"
    "b_prev_hash b = b_prev_hash (last (c_v c))"
  shows "chain_inv (c\<lparr>c_v := (c_v c)[c_len c - 1 := b]\<rparr>)"
    and "(c_v c)[c_len c - 1 := b] = butlast (c_v c) @ [b]"
proof -
  show upd: "(c_v c)[c_len c - 1 := b] = butlast (c_v c) @ [b]"
    using assms(2) chain_invD(1) [OF assms(1)] by (cases "c_v c" rule: rev_cases) simp_all
  have "linked (butlast (c_v c) @ [b])"
    using linked_replace [OF chain_invD(2) [OF assms(1)] assms(2-)] .
  then show "chain_inv (c\<lparr>c_v := (c_v c)[c_len c - 1 := b]\<rparr>)"
    using assms(1,2) upd by (simp add: chain_inv_def)
qed

text \<open>The code of \<open>chain_append\<close> on a chain that keeps the invariant, in terms of positions.\<close>

lemma chain_append_eq:
  assumes inv: "chain_inv c"
  shows "chain_append E c b =
    (if block_is_valid E b (b_index b = 0) \<noteq> OK then (APPEND_INVALID, c) else
     case block_hash (mem E) b of Inl _ \<Rightarrow> (APPEND_INVALID, c) | Inr h \<Rightarrow>
     if is_duplicate (mem E) c b h then (APPEND_DUP, c)
     else if c_v c = [] then
       (if b_index b = 0 then push_result (mem E) c b else (APPEND_AHEAD, c))
     else case block_hash (mem E) (last (c_v c)) of Inl _ \<Rightarrow> (APPEND_INVALID, c) | Inr t \<Rightarrow>
     if unat (b_index b) = length (c_v c) \<and> b_prev_hash b = t then push_result (mem E) c b
     else if length (c_v c) < unat (b_index b) then (APPEND_AHEAD, c)
     else if Suc (unat (b_index b)) = length (c_v c)
       \<and> b_prev_hash b = b_prev_hash (last (c_v c))
     then (if h < t then (APPEND_REPLACED, c\<lparr>c_v := (c_v c)[c_len c - 1 := b]\<rparr>)
           else (APPEND_LOST, c))
     else (APPEND_STALE, c))"
proof (cases "c_v c = []")
  case True
  then have "chain_tip c = None" by (simp add: chain_tip_eq [OF inv])
  with True show ?thesis
    unfolding chain_append_def Let_def by (cases "block_hash (mem E) b") simp_all
next
  case False
  then have "0 < length (c_v c)" by simp
  note idx = index_conv(1-3) [OF this chain_invD(3) [OF inv], of "b_index b",
      folded tip_index(1) [OF inv False]]
  have "chain_tip c = Some (last (c_v c))" using False by (simp add: chain_tip_eq [OF inv])
  with False show ?thesis
    unfolding chain_append_def Let_def
    by (cases "block_hash (mem E) b"; cases "block_hash (mem E) (last (c_v c))")
      (simp_all add: idx)
qed

lemma chain_append_cases:
  assumes inv: "chain_inv c" and wf: "block_ok b"
  obtains (ok) c' where "chain_append E c b = (APPEND_OK, c')" "c_v c' = c_v c @ [b]" "chain_inv c'"
  | (replaced) c' where "chain_append E c b = (APPEND_REPLACED, c')" "c_v c \<noteq> []"
      "c_v c' = butlast (c_v c) @ [b]" "chain_inv c'" "b_index b = b_index (last (c_v c))"
      "b_prev_hash b = b_prev_hash (last (c_v c))" "digest_of b < digest_of (last (c_v c))"
  | (kept) r where "chain_append E c b = (r, c)" "r \<noteq> APPEND_OK" "r \<noteq> APPEND_REPLACED"
proof -
  consider (other) r where "chain_append E c b = (r, c)" "r \<noteq> APPEND_OK" "r \<noteq> APPEND_REPLACED"
    | (push) "chain_append E c b = push_result (mem E) c b" "valid_block b"
        "unat (b_index b) = length (c_v c)"
        "c_v c \<noteq> [] \<longrightarrow> b_prev_hash b = digest_of (last (c_v c))"
    | (tie) "chain_append E c b = (APPEND_REPLACED, c\<lparr>c_v := (c_v c)[c_len c - 1 := b]\<rparr>)"
        "valid_block b" "c_v c \<noteq> []" "Suc (unat (b_index b)) = length (c_v c)"
        "b_prev_hash b = b_prev_hash (last (c_v c))" "digest_of b < digest_of (last (c_v c))"
  proof (cases "block_is_valid E b (b_index b = 0) = OK \<and> block_hash (mem E) b = Inr (digest_of b)
      \<and> \<not> is_duplicate (mem E) c b (digest_of b)")
    case False
    then show thesis using other block_hash_Inr [OF wf, of "mem E"] chain_append_eq [OF inv, of E b]
      by (cases "block_hash (mem E) b") (auto split: if_splits)
  next
    case pass: True
    then have vb: "valid_block b" using block_is_valid_sound [OF wf, of E] by simp
    show thesis
    proof (cases "c_v c = []")
      case True
      with pass vb show thesis using push other [of APPEND_AHEAD] chain_append_eq [OF inv, of E b]
        by (cases "b_index b = 0") simp_all
    next
      case False
      show thesis
      proof (cases "block_hash (mem E) (last (c_v c))")
        case (Inl e)
        with pass False show thesis
          using other [of APPEND_INVALID] chain_append_eq [OF inv, of E b] by simp
      next
        case (Inr t)
        then have "t = digest_of (last (c_v c))"
          using block_hash_Inr [OF tip_index(2) [OF inv False]] by blast
        with pass vb False Inr show thesis
          using push tie other chain_append_eq [OF inv, of E b] by (simp split: if_splits)
      qed
    qed
  qed
  then show thesis
  proof cases
    case other
    then show ?thesis by (rule kept)
  next
    case push
    from push(3) have "b_index b = of_nat (length (c_v c))" by (metis ucast_id of_nat_unat)
    from push_result_cases [OF inv push(2) this push(4), of "mem E"] show ?thesis
      using kept [of APPEND_INVALID] ok unfolding push(1) by auto
  next
    case tie
    have "0 < length (c_v c)" using tie(3) by simp
    from index_conv(3) [OF this chain_invD(3) [OF inv], of "b_index b"] tie(4)
    have "b_index b = b_index (last (c_v c))" by (simp add: tip_index(1) [OF inv tie(3)])
    with tie_update [OF inv tie(3,2) this tie(5)] tie show ?thesis by (intro replaced) auto
  qed
qed

subsection \<open>The code implements the contract\<close>

text \<open>The environment in which no allocation fails and the pattern is compiled.\<close>

abbreviation env0 :: env where "env0 \<equiv> \<lparr>mem = plenty, re_ok = True\<rparr>"

lemma is_duplicate_plenty:
  assumes "chain_inv c"
  shows "is_duplicate plenty c b h \<longleftrightarrow>
    unat (b_index b) < length (c_v c) \<and> digest_of (c_v c ! unat (b_index b)) = h"
  using linkedD(3) [OF chain_invD(2) [OF assms], of "unat (b_index b)"]
  by (simp add: is_duplicate_def chain_find_index_eq [OF assms])

lemma push_result_plenty:
  assumes "chain_inv c" "length (c_v c) < 2 ^ 49"
  shows "map_prod id c_v (push_result plenty c b) = (APPEND_OK, c_v c @ [b])"
  using chain_push_cases [OF assms(1), of plenty b] chain_push_plenty [OF assms, of b]
  by (auto simp: push_result_def)

lemma chain_append_refines:
  assumes inv: "chain_inv c" and wf: "block_ok b" and room: "length (c_v c) < 2 ^ 49"
  shows "map_prod id c_v (chain_append env0 c b) = append_spec (c_v c) b"
proof -
  have valid: "block_is_valid env0 b (b_index b = 0) = OK \<longleftrightarrow> valid_block b"
    using block_is_valid_sound [OF wf] block_is_valid_complete by auto
  note push = push_result_plenty [OF inv room, of b]
  note dup = is_duplicate_plenty [OF inv]
  note eq = chain_append_eq [OF inv, of env0 b]
    block_hash_plenty [OF wf] append_spec_def Let_def valid dup
  show ?thesis
  proof (cases "c_v c = []")
    case True
    have "unat (b_index b) = 0 \<longleftrightarrow> b_index b = 0" by (simp add: unat_eq_0)
    with True push show ?thesis by (simp add: eq)
  next
    case False
    with tip_index(2) [OF inv False] push tie_update(2) [OF inv False]
    have hash: "block_hash plenty (last (c_v c)) = Inr (digest_of (last (c_v c)))" by simp
    have "(c_v c)[c_len c - 1 := b] = butlast (c_v c) @ [b]"
      using False chain_invD(1) [OF inv] by (cases "c_v c" rule: rev_cases) simp_all
    with False push hash show ?thesis by (simp add: eq)
  qed
qed

lemma chain_append_inv:
  assumes "chain_inv c" "block_ok b"
  shows "chain_inv (snd (chain_append E c b))"
  by (rule chain_append_cases [OF assms, of E]) (use assms in auto)

subsection \<open>Look-ups\<close>

lemma find_hash_from_plenty:
  "\<forall>b \<in> set bs. block_ok b \<Longrightarrow> find_hash_from plenty bs h = List.find (\<lambda>b. digest_of b = h) bs"
  by (induction bs) auto

lemma chain_find_hash_plenty:
  assumes "chain_inv c"
  shows "chain_find_hash plenty c h = List.find (\<lambda>b. digest_of b = h) (c_v c)"
proof -
  note I = chain_invD [OF assms]
  have "\<forall>b \<in> set (c_v c). block_ok b" using linkedD(3) [OF I(2)] by (auto simp: in_set_conv_nth)
  then show ?thesis using I(1) by (auto simp: chain_find_hash_def find_hash_from_plenty)
qed

lemma find_hash_from_sound:
  "\<forall>b \<in> set bs. block_ok b \<Longrightarrow> find_hash_from M bs h = Some b \<Longrightarrow> b \<in> set bs \<and> digest_of b = h"
  by (induction bs) (auto split: sum.splits if_splits dest: block_hash_Inr)

lemma find_hash_from_is_member:
  assumes "chain_inv c" "chain_find_hash M c h = Some b"
  shows "b \<in> set (c_v c)" "digest_of b = h" "b_index b = of_nat (unat (b_index b))"
    "unat (b_index b) < length (c_v c)" "c_v c ! unat (b_index b) = b"
proof -
  note I = chain_invD [OF assms(1)]
  have ok: "\<forall>b \<in> set (c_v c). block_ok b" using linkedD(3) [OF I(2)] by (auto simp: in_set_conv_nth)
  have "find_hash_from M (c_v c) h = Some b"
    using assms(2) I(1) by (auto simp: chain_find_hash_def split: if_splits)
  with find_hash_from_sound [OF ok] show b: "b \<in> set (c_v c)" "digest_of b = h" by auto
  then obtain i where i: "i < length (c_v c)" "c_v c ! i = b" by (auto simp: in_set_conv_nth)
  then have "b_index b = of_nat i" using linkedD(1) [OF I(2), of i] by simp
  moreover have "unat (of_nat i :: u64) = i"
    using i(1) I(3) by (simp add: unat_of_nat take_bit_nat_eq_self)
  ultimately show "b_index b = of_nat (unat (b_index b))" "unat (b_index b) < length (c_v c)"
    "c_v c ! unat (b_index b) = b" using i by simp_all
qed

subsection \<open>The interface of a ledger\<close>

text \<open>Blocks handed to a ledger one after the other; the results are not looked at.\<close>

definition deliver :: "('s \<Rightarrow> block_t \<Rightarrow> append_result \<times> 's) \<Rightarrow> block_t list \<Rightarrow> 's \<Rightarrow> 's" where
  "deliver app bs s = fold (\<lambda>b s. snd (app s b)) bs s"

lemma deliver_simps [simp]:
  "deliver app [] s = s"
  "deliver app (b # bs) s = deliver app bs (snd (app s b))"
  "deliver app (bs @ cs) s = deliver app cs (deliver app bs s)"
  by (simp_all add: deliver_def)

text \<open>Compared with an earlier state: never shorter, nothing changed below the old tip, and a
  tip of the same height never has a larger hash.\<close>

definition extends :: "block_t list \<Rightarrow> block_t list \<Rightarrow> bool" where
  "extends new old \<longleftrightarrow> length old \<le> length new
     \<and> take (length old - 1) new = take (length old - 1) old
     \<and> (old \<noteq> [] \<longrightarrow> digest_of (new ! (length old - 1)) \<le> digest_of (last old))"

locale ledger =
  fixes append :: "'s \<Rightarrow> block_t \<Rightarrow> append_result \<times> 's"
    and blocks :: "'s \<Rightarrow> block_t list"
    and inv :: "'s \<Rightarrow> bool"
  assumes inv_append: "inv s \<Longrightarrow> block_ok b \<Longrightarrow> inv (snd (append s b))"
    and effect: "inv s \<Longrightarrow> block_ok b \<Longrightarrow>
      (case fst (append s b) of
         APPEND_OK \<Rightarrow> blocks (snd (append s b)) = blocks s @ [b]
       | APPEND_REPLACED \<Rightarrow> blocks s \<noteq> [] \<and> blocks (snd (append s b)) = butlast (blocks s) @ [b]
           \<and> b_index b = b_index (last (blocks s)) \<and> b_prev_hash b = b_prev_hash (last (blocks s))
           \<and> digest_of b < digest_of (last (blocks s))
       | _ \<Rightarrow> snd (append s b) = s)"
begin

lemma inv_deliver: "inv s \<Longrightarrow> \<forall>b \<in> set bs. block_ok b \<Longrightarrow> inv (deliver append bs s)"
  by (induction bs arbitrary: s) (simp_all add: inv_append)

lemma extends_append:
  assumes "inv s" "block_ok b"
  shows "extends (blocks (snd (append s b))) (blocks s)"
proof (cases "blocks s" rule: rev_cases)
  case Nil
  then show ?thesis by (simp add: extends_def)
next
  case (snoc xs x)
  then show ?thesis
    using effect [OF assms]
    by (cases "fst (append s b)") (auto simp: extends_def nth_append)
qed

lemma extends_trans:
  assumes "extends c b" "extends b a"
  shows "extends c a"
proof (cases "length a = length b")
  case True
  with assms show ?thesis
    by (cases "a = []") (auto simp: extends_def last_conv_nth dest: order_trans)
next
  case False
  with assms have l: "length a \<le> length b - 1" by (auto simp: extends_def)
  then have "take (length a) c = take (length a) b"
    using assms(1) take_take [of "length a" "length b - 1"] unfolding extends_def by (metis min.absorb1)
  then have "take (length a - 1) c = take (length a - 1) b"
    "a \<noteq> [] \<longrightarrow> c ! (length a - 1) = b ! (length a - 1)"
    by (metis min.absorb1 take_take diff_le_self, metis diff_less length_greater_0_conv nth_take zero_less_one)
  with assms show ?thesis unfolding extends_def by auto
qed

lemma extends_refl: "extends bs bs"
  by (cases bs rule: rev_cases) (simp_all add: extends_def)

lemma deliver_extends:
  "inv s \<Longrightarrow> \<forall>b \<in> set bs. block_ok b \<Longrightarrow> extends (blocks (deliver append bs s)) (blocks s)"
proof (induction bs arbitrary: s)
  case Nil
  then show ?case by (simp add: extends_refl)
next
  case (Cons b bs)
  then show ?case
    using extends_trans [OF Cons.IH extends_append, of s b] inv_append by simp
qed

lemma deliver_final:
  assumes "inv s" "\<forall>b \<in> set bs. block_ok b" "Suc i < length (blocks s)"
  shows "blocks (deliver append bs s) ! i = blocks s ! i"
proof -
  from deliver_extends [OF assms(1,2)] have "take (length (blocks s) - 1) (blocks (deliver append bs s))
    = take (length (blocks s) - 1) (blocks s)" by (simp add: extends_def)
  then show ?thesis using assms(3) by (metis less_diff_conv nth_take add.commute plus_1_eq_Suc)
qed

end

text \<open>A ledger with memory to spare behaves as \<open>append_spec\<close> until it holds \<open>room\<close> blocks.\<close>

locale exact_ledger = ledger append blocks inv
  for append :: "'s \<Rightarrow> block_t \<Rightarrow> append_result \<times> 's"
    and blocks :: "'s \<Rightarrow> block_t list" and inv :: "'s \<Rightarrow> bool" +
  fixes room :: nat
  assumes refines: "inv s \<Longrightarrow> block_ok b \<Longrightarrow> length (blocks s) < room \<Longrightarrow>
      map_prod id blocks (append s b) = append_spec (blocks s) b"
begin

lemma blocks_append:
  "inv s \<Longrightarrow> block_ok b \<Longrightarrow> length (blocks s) < room \<Longrightarrow>
    blocks (snd (append s b)) = snd (append_spec (blocks s) b)"
  by (metis refines snd_map_prod)

lemma length_append: "inv s \<Longrightarrow> block_ok b \<Longrightarrow> length (blocks (snd (append s b))) \<le> Suc (length (blocks s))"
  using effect [of s b] by (cases "fst (append s b)") auto

lemma blocks_deliver:
  "inv s \<Longrightarrow> \<forall>b \<in> set bs. block_ok b \<Longrightarrow> length (blocks s) + length bs \<le> room \<Longrightarrow>
    blocks (deliver append bs s) = deliver append_spec bs (blocks s)"
proof (induction bs arbitrary: s)
  case Nil
  then show ?case by simp
next
  case (Cons b bs)
  have "length (blocks (snd (append s b))) + length bs \<le> room"
    using length_append [of s b] Cons.prems by simp
  with Cons show ?case by (simp add: inv_append blocks_append)
qed

end

interpretation led: ledger "chain_append E" c_v chain_inv for E
proof (unfold_locales, goal_cases)
  case (1 c b)
  then show ?case by (rule chain_append_inv)
next
  case (2 c b)
  then show ?case
  proof (cases rule: chain_append_cases [OF 2, of E])
    case (3 r)
    then show ?thesis by (cases r) simp_all
  qed simp_all
qed

interpretation led0: exact_ledger "chain_append env0" c_v chain_inv "2 ^ 49"
  by unfold_locales (rule chain_append_refines)

subsection \<open>The fork choice on the contract\<close>

definition competes :: "block_t list \<Rightarrow> block_t \<Rightarrow> bool" where
  \<comment> \<open>a valid successor of the last block of \<open>bs\<close>\<close>
  "competes bs b \<longleftrightarrow> valid_block b \<and> unat (b_index b) = length bs \<and> bs \<noteq> []
     \<and> b_prev_hash b = digest_of (last bs)"

lemma spec_first: "competes bs b \<Longrightarrow> append_spec bs b = (APPEND_OK, bs @ [b])"
  by (simp add: append_spec_def competes_def)

lemma spec_tie:
  "competes bs a \<Longrightarrow> competes bs b \<Longrightarrow>
    snd (append_spec (bs @ [a]) b) = bs @ [if digest_of b < digest_of a then b else a]"
  by (auto simp: append_spec_def competes_def Let_def)

lemma spec_fork_choice:
  assumes "xs \<noteq> []" "\<forall>x \<in> set xs. competes bs x"
  shows "\<exists>m \<in> set xs. deliver append_spec xs bs = bs @ [m] \<and> (\<forall>x \<in> set xs. digest_of m \<le> digest_of x)"
  using assms
proof (induction xs rule: rev_induct)
  case Nil
  then show ?case by simp
next
  case (snoc x xs)
  show ?case
  proof (cases "xs = []")
    case True
    then show ?thesis using snoc.prems spec_first [of bs x] by simp
  next
    case False
    with snoc obtain m where m: "m \<in> set xs" "deliver append_spec xs bs = bs @ [m]"
      "\<forall>y \<in> set xs. digest_of m \<le> digest_of y" by auto
    have "deliver append_spec (xs @ [x]) bs = bs @ [if digest_of x < digest_of m then x else m]"
      using m(1,2) snoc.prems(2) spec_tie [of bs m x] by simp
    with m show ?thesis
      by (intro bexI [of _ "if digest_of x < digest_of m then x else m"]) (auto dest: order_trans)
  qed
qed

text \<open>
  The choice is local to one height: a node that received a block \<open>C\<close> on top of \<open>A\<close> before a
  competitor \<open>B\<close> of \<open>A\<close> with a smaller hash keeps \<open>A\<close> and \<open>C\<close>, and one that received \<open>B\<close> first
  ends with \<open>B\<close>; the same three blocks leave two different chains until a further block arrives.
\<close>

lemma spec_fork_divergence:
  assumes "competes bs A" "competes bs B" "digest_of B < digest_of A" "competes (bs @ [A]) C"
  shows "deliver append_spec [A, C, B] bs = bs @ [A, C]" "deliver append_spec [B, A, C] bs = bs @ [B]"
proof -
  have "append_spec (bs @ [A, C]) B = (APPEND_STALE, bs @ [A, C])"
    using assms by (auto simp: append_spec_def competes_def Let_def nth_append)
  then show "deliver append_spec [A, C, B] bs = bs @ [A, C]"
    using spec_first [OF assms(1)] spec_first [OF assms(4)] by simp
  have "append_spec (bs @ [B]) C = (APPEND_STALE, bs @ [B])"
    using assms by (auto simp: append_spec_def competes_def Let_def nth_append)
  moreover have "snd (append_spec (bs @ [B]) A) = bs @ [B]"
    using spec_tie [OF assms(2,1)] assms(3) by simp
  ultimately show "deliver append_spec [B, A, C] bs = bs @ [B]"
    using spec_first [OF assms(2)] by simp
qed

subsection \<open>Concrete chains for the witnesses\<close>

definition genesis1 :: block_t where
  "genesis1 = block_with 0 0x677485e0 0 zeros64 [''Genesis block'']"

definition chain1 :: chain_t where
  "chain1 = \<lparr>c_v = [genesis1], c_len = 1, c_cap = 1\<rparr>"

definition blockA :: block_t where
  "blockA = block_with 1 0x677485e4 3 (digest_of genesis1) [tx1]"

definition blockB :: block_t where
  "blockB = block_with 1 0x677485e5 5 (digest_of genesis1) [tx2, tx1]"

lemma genesis1_valid [simp]: "valid_block genesis1"
proof -
  have "block_ok genesis1"
    unfolding genesis1_def by (rule block_with_ok) (simp_all add: plain_tx_def)
  then show ?thesis by (simp add: valid_block_def genesis1_def)
qed

lemma digest_hex64 [simp]: "hex64 (digest_of b)"
  by (simp add: digest_of_def)

lemma samples_valid [simp]: "valid_block blockA" "valid_block blockB"
  by (simp_all add: blockA_def blockB_def block_with_valid)

lemma samples_ok [simp]: "block_ok genesis1" "block_ok blockA" "block_ok blockB"
  using genesis1_valid samples_valid by (simp_all only: valid_block_def)

lemma chain1_inv [simp]: "chain_inv chain1" "c_v chain1 = [genesis1]"
proof -
  have "b_index genesis1 = 0" by (simp add: genesis1_def)
  then show "chain_inv chain1"
    by (simp add: chain_inv_def chain1_def sizeof_block_def linked_def)
qed (simp add: chain1_def)

lemma samples_compete [simp]: "competes [genesis1] blockA" "competes [genesis1] blockB"
  by (simp_all add: competes_def) (simp_all add: blockA_def blockB_def)

subsection \<open>Properties\<close>

text \<open>C4: \<open>chain_append\<close> keeps a chain well formed (positions, links, validity, capacity) whatever
  the allocator answers and whether or not the pattern is compiled: it pushes the block, or puts
  it in place of the tip when it has the same parent and a smaller hash, or changes nothing.\<close>

theorem chain_append_safe:
  assumes "chain_inv c" "block_ok b"
  shows "chain_inv (snd (chain_append E c b)) \<and>
    (case fst (chain_append E c b) of
       APPEND_OK \<Rightarrow> c_v (snd (chain_append E c b)) = c_v c @ [b]
     | APPEND_REPLACED \<Rightarrow> c_v c \<noteq> [] \<and> c_v (snd (chain_append E c b)) = butlast (c_v c) @ [b]
         \<and> b_index b = b_index (last (c_v c)) \<and> b_prev_hash b = b_prev_hash (last (c_v c))
         \<and> digest_of b < digest_of (last (c_v c))
     | _ \<Rightarrow> snd (chain_append E c b) = c)"
  using led.inv_append [OF assms] led.effect [OF assms] by (rule conjI)

theorem chain_append_safe_witness:
  "chain_inv (snd (chain_append \<lparr>mem = (\<lambda>n. n < 1000), re_ok = False\<rparr> chain1 blockA))"
  using chain_append_safe [of chain1 blockA] by simp

text \<open>C3: with memory to spare and the pattern compiled, \<open>chain_append\<close> is exactly the contract
  \<open>append_spec\<close> on the list of blocks: the same result code in every case and the same blocks.\<close>

theorem chain_append_implements_spec:
  assumes "chain_inv c" "block_ok b" "length (c_v c) < 2 ^ 49"
  shows "map_prod id c_v (chain_append \<lparr>mem = plenty, re_ok = True\<rparr> c b) = append_spec (c_v c) b"
  using led0.refines [OF assms] .

theorem chain_append_implements_spec_witness:
  "map_prod id c_v (chain_append \<lparr>mem = plenty, re_ok = True\<rparr> chain1 blockA)
    = (APPEND_OK, [genesis1, blockA])"
  using chain_append_implements_spec [of chain1 blockA] spec_first [of "[genesis1]" blockA] by simp

text \<open>C6: no sequence of blocks handed to a chain makes it shorter or changes a block below the
  tip it had, and at the height of that tip the hash can only become smaller.\<close>

theorem chain_never_goes_back:
  assumes "chain_inv c" "\<forall>b \<in> set bs. block_ok b"
  shows "extends (c_v (deliver (chain_append E) bs c)) (c_v c)
    \<and> chain_inv (deliver (chain_append E) bs c)"
  using led.deliver_extends [OF assms] led.inv_deliver [OF assms] by (rule conjI)

theorem chain_never_goes_back_witness:
  "extends (c_v (deliver (chain_append env0) [blockA, blockB] chain1)) (c_v chain1)"
  using chain_never_goes_back [of chain1 "[blockA, blockB]" env0] by simp

text \<open>C5: the tie-breaker does not depend on the order of arrival. Two chains with the same
  blocks that receive the same set of competing successors of their tip, in any order and with
  repetitions, both end one block longer: each has one of the competitors it received as its new
  tip, the two tips have the same hash, and no competitor has a smaller one.\<close>

theorem fork_choice_converges:
  assumes "chain_inv c" "chain_inv c'" "c_v c' = c_v c" "set ys = set xs" "xs \<noteq> []"
    "\<forall>x \<in> set xs. competes (c_v c) x"
    "length (c_v c) + length xs \<le> 2 ^ 49" "length (c_v c) + length ys \<le> 2 ^ 49"
  shows "\<exists>m \<in> set xs. \<exists>m' \<in> set ys. c_v (deliver (chain_append env0) xs c) = c_v c @ [m]
    \<and> c_v (deliver (chain_append env0) ys c') = c_v c @ [m']
    \<and> digest_of m = digest_of m' \<and> (\<forall>x \<in> set xs. digest_of m \<le> digest_of x)"
proof -
  have ok: "\<forall>x \<in> set xs. block_ok x" "\<forall>y \<in> set ys. block_ok y"
    using assms(4,6) by (auto simp: competes_def valid_block_def)
  have ys: "ys \<noteq> []" "\<forall>y \<in> set ys. competes (c_v c) y" using assms(4-6) by auto
  obtain m m' where m: "m \<in> set xs" "deliver append_spec xs (c_v c) = c_v c @ [m]"
      "\<forall>x \<in> set xs. digest_of m \<le> digest_of x"
    and m': "m' \<in> set ys" "deliver append_spec ys (c_v c) = c_v c @ [m']"
      "\<forall>x \<in> set ys. digest_of m' \<le> digest_of x"
    using spec_fork_choice [OF assms(5,6)] spec_fork_choice [OF ys] by auto
  have "digest_of m = digest_of m'" using m(1,3) m'(1,3) assms(4) by (intro order_antisym) auto
  moreover have "c_v (deliver (chain_append env0) xs c) = c_v c @ [m]"
    using led0.blocks_deliver [OF assms(1) ok(1) assms(7)] m(2) by simp
  moreover have "c_v (deliver (chain_append env0) ys c') = c_v c @ [m']"
    using led0.blocks_deliver [OF assms(2) ok(2)] assms(3,8) m'(2) by simp
  ultimately show ?thesis using m(1,3) m'(1) by blast
qed

theorem fork_choice_converges_witness:
  "\<exists>m \<in> set [blockA, blockB]. \<exists>m' \<in> set [blockB, blockA, blockB].
    c_v (deliver (chain_append env0) [blockA, blockB] chain1) = c_v chain1 @ [m]
    \<and> c_v (deliver (chain_append env0) [blockB, blockA, blockB] chain1) = c_v chain1 @ [m']
    \<and> digest_of m = digest_of m' \<and> (\<forall>x \<in> set [blockA, blockB]. digest_of m \<le> digest_of x)"
  by (rule fork_choice_converges) auto

text \<open>On a well-formed chain, asking for an index gives exactly the block at that position, and
  a block found by hash is a member of the chain with that hash, at the position of its index.\<close>

theorem chain_lookups:
  assumes "chain_inv c"
  shows "chain_find_index c i = (if unat i < length (c_v c) then Some (c_v c ! unat i) else None)
    \<and> (chain_find_hash M c h = Some b \<longrightarrow> digest_of b = h \<and> chain_find_index c (b_index b) = Some b)
    \<and> chain_find_hash plenty c h = List.find (\<lambda>b. digest_of b = h) (c_v c)"
  using chain_find_index_eq [OF assms] find_hash_from_is_member [OF assms, of M h b]
    chain_find_hash_plenty [OF assms] by auto

theorem chain_lookups_witness:
  "chain_find_index chain1 0 = Some genesis1 \<and> chain_find_index chain1 1 = None
    \<and> chain_find_hash plenty chain1 (digest_of genesis1) = Some genesis1"
  using chain_lookups [of chain1 0 plenty "digest_of genesis1" genesis1]
    chain_lookups [of chain1 1 plenty "digest_of genesis1" genesis1] by simp

end
