(* ===== verification/Csv.thy ===== *)
theory Csv
  imports Chain
begin

section \<open>Loading and saving a chain as CSV (block.c)\<close>

text \<open>
  \<open>csv_load\<close> reads a file through a 2244-byte line buffer and appends its rows to a chain;
  \<open>csv_save\<close> writes a temporary file and renames it. Files are a map from paths to their bytes;
  which system calls fail is a parameter (\<open>io\<close>).
\<close>

subsection \<open>Files\<close>

type_synonym files = "string \<Rightarrow> string option"

text \<open>
  The answers of the system to one \<open>csv_save\<close> or \<open>csv_load\<close>: \<open>put_ok i\<close> for the \<open>i\<close>-th
  \<open>fprintf\<close>, and \<open>torn\<close> for what really is on the disk once a write or the close has reported an
  error, out of the text handed to the stream: nothing is known of it.
\<close>

record io =
  open_ok :: bool
  put_ok :: "nat \<Rightarrow> bool"
  close_ok :: bool
  rename_ok :: bool
  remove_ok :: bool
  torn :: "string \<Rightarrow> string"

text \<open>
  A stream opened for writing: the text handed to it, and whether some of it is lost. The file
  holds the text only if no \<open>fprintf\<close> and not the \<open>fclose\<close> failed; the buffered stream may fail as
  late as in \<open>fclose\<close>.
\<close>

record stream =
  st_text :: string
  st_lost :: bool

definition fprintf :: "io \<Rightarrow> nat \<Rightarrow> string \<Rightarrow> stream \<Rightarrow> bool \<times> stream" where
  "fprintf d i s st =
     (put_ok d i, \<lparr>st_text = st_text st @ s, st_lost = st_lost st \<or> \<not> put_ok d i\<rparr>)"

definition fclose :: "io \<Rightarrow> stream \<Rightarrow> bool \<times> string" where
  \<comment> \<open>whether it succeeded, and the bytes that are in the file then\<close>
  "fclose d st =
     (close_ok d, if st_lost st \<or> \<not> close_ok d then torn d (st_text st) else st_text st)"

definition remove_file :: "io \<Rightarrow> string \<Rightarrow> files \<Rightarrow> files" where
  "remove_file d p fs = (if remove_ok d then fs(p := None) else fs)"

definition rename_file :: "io \<Rightarrow> string \<Rightarrow> string \<Rightarrow> files \<Rightarrow> bool \<times> files" where
  \<comment> \<open>the new name gets whatever the old one holds\<close>
  "rename_file d old new fs =
     (if rename_ok d then (True, fs(old := None, new := fs old)) else (False, fs))"

text \<open>
  \<open>fgets(buf, n, fp)\<close> on the bytes not yet read: the bytes stored, the bytes left, and whether
  the end of the file was met; \<open>None\<close> is the null pointer.
\<close>

definition fgets :: "nat \<Rightarrow> string \<Rightarrow> (string \<times> string \<times> bool) option" where
  "fgets n s =
     (if s = [] then None else
      case strchr (take (n - 1) s) LF of
        Some i \<Rightarrow> Some (take (i + 1) s, drop (i + 1) s, False)
      | None \<Rightarrow> Some (take (n - 1) s, drop (n - 1) s, length s < n - 1))"

lemma fgets_shorter: "fgets n s = Some (l, r, e) \<Longrightarrow> 1 < n \<Longrightarrow> length r < length s"
  by (auto simp: fgets_def split: if_splits option.splits)

definition cut_line :: "string \<Rightarrow> string" where
  \<comment> \<open>\<open>buf[strcspn(buf, "\r\n")] = '\0'\<close>\<close>
  "cut_line s = takeWhile (\<lambda>c. c \<noteq> CR \<and> c \<noteq> LF) s"

subsection \<open>csv\_load\<close>

function load_rows :: "env \<Rightarrow> string \<Rightarrow> chain_t \<Rightarrow> code \<times> chain_t" where
  "load_rows E s c =
     (case fgets MAX_CSV_ROW_LEN s of
        None \<Rightarrow> (OK, c)
      | Some (line, rest, eof) \<Rightarrow>
          (let buf = cstr line in
           if buf \<noteq> [] \<and> last buf \<noteq> LF \<and> \<not> eof then (CSV_PARSE_ERROR, c)
           else let row = cut_line buf in
           if row = [] then load_rows E rest c
           else case block_from_csv_row row of
               Inl _ \<Rightarrow> (CSV_PARSE_ERROR, c)
             | Inr b \<Rightarrow>
                 (let (res, c') = chain_append E c b in
                  case res of
                    APPEND_OK \<Rightarrow> load_rows E rest c'
                  | APPEND_INVALID \<Rightarrow> (INVALID_BLOCK, c')
                  | _ \<Rightarrow> (CHAIN_MISMATCH, c'))))"
  by pat_completeness auto
termination
  by (relation "measure (\<lambda>(E, s, c). length s)") (auto intro: fgets_shorter [of MAX_CSV_ROW_LEN, simplified])

declare load_rows.simps [simp del]

definition csv_load :: "env \<Rightarrow> io \<Rightarrow> files \<Rightarrow> string \<Rightarrow> chain_t \<Rightarrow> code \<times> chain_t" where
  "csv_load E d fs path out =
     (if \<not> open_ok d then (FILE_ERROR, out) else
      case fs path of None \<Rightarrow> (FILE_ERROR, out) | Some text \<Rightarrow>
      case fgets MAX_CSV_ROW_LEN text of None \<Rightarrow> (CSV_PARSE_ERROR, out) | Some (line, rest, eof) \<Rightarrow>
      if strcmp (cut_line (cstr line)) CSV_HEADER \<noteq> 0 then (CSV_PARSE_ERROR, out)
      else load_rows E rest out)"

subsection \<open>csv\_save\<close>

fun save_rows :: "io \<Rightarrow> nat \<Rightarrow> block_t list \<Rightarrow> stream \<Rightarrow> bool \<times> stream" where
  "save_rows d i [] st = (True, st)"
| "save_rows d i (b # bs) st =
     (let (r, row_buf) = block_to_csv_row b [] MAX_CSV_ROW_LEN in
      if r \<noteq> OK then (False, st)
      else let (ok, st') = fprintf d i (row_buf @ [LF]) st in
      if \<not> ok then (False, st')
      else save_rows d (i + 1) bs st')"

definition csv_save :: "io \<Rightarrow> files \<Rightarrow> string \<Rightarrow> chain_t \<Rightarrow> code \<times> files" where
  "csv_save d fs path c =
     (let tmp_path = path @ ''.tmp'';
          give_up = (\<lambda>st. (FILE_ERROR, remove_file d tmp_path (fs(tmp_path \<mapsto> snd (fclose d st)))))
      in
      if \<not> snprintf_fits 512 tmp_path then (FILE_ERROR, fs)
      else if \<not> open_ok d then (FILE_ERROR, fs)
      else let (ok, st) = fprintf d 0 (CSV_HEADER @ [LF]) \<lparr>st_text = [], st_lost = False\<rparr> in
      if \<not> ok then give_up st
      else let (ok, st) = save_rows d 1 (take (c_len c) (c_v c)) st in
      if \<not> ok then give_up st
      else let (closed, contents) = fclose d st; fs1 = fs(tmp_path \<mapsto> contents) in
      if \<not> closed then (FILE_ERROR, remove_file d tmp_path fs1)
      else let (renamed, fs2) = rename_file d tmp_path path fs1 in
      if \<not> renamed then (FILE_ERROR, remove_file d tmp_path fs2)
      else (OK, fs2))"

subsection \<open>The text of a chain\<close>

definition rows_text :: "block_t list \<Rightarrow> string" where
  "rows_text bs = concat (map (\<lambda>b. csv_row b @ [LF]) bs)"

definition file_text :: "block_t list \<Rightarrow> string" where
  "file_text bs = CSV_HEADER @ [LF] @ rows_text bs"

lemma rows_text_simps [simp]: "rows_text [] = []" "rows_text (b # bs) = csv_row b @ LF # rows_text bs"
  by (simp_all add: rows_text_def)

lemma save_rows_text:
  assumes "\<forall>b \<in> set bs. block_ok b"
  shows "\<exists>st'. save_rows d i bs st =
    (if \<forall>j < length bs. put_ok d (i + j) then (True, st\<lparr>st_text := st_text st @ rows_text bs\<rparr>)
     else (False, st'))"
  using assms
proof (induction bs arbitrary: i st)
  case Nil
  then show ?case by simp
next
  case (Cons b bs)
  have row: "block_to_csv_row b [] MAX_CSV_ROW_LEN = (OK, csv_row b)"
    using Cons.prems by (intro block_to_csv_row_ok) simp_all
  have puts: "(\<forall>j < length (b # bs). put_ok d (i + j))
      \<longleftrightarrow> put_ok d i \<and> (\<forall>j < length bs. put_ok d (i + 1 + j))"
    by (auto simp: less_Suc_eq_0_disj)
  show ?case
  proof (cases "put_ok d i")
    case True
    let ?st = "st\<lparr>st_text := st_text st @ csv_row b @ [LF]\<rparr>"
    have put: "fprintf d i (csv_row b @ [LF]) st = (True, ?st)" using True by (simp add: fprintf_def)
    from Cons.IH [of "i + 1" ?st] Cons.prems obtain st' where "save_rows d (i + 1) bs ?st =
      (if \<forall>j < length bs. put_ok d (i + 1 + j)
       then (True, ?st\<lparr>st_text := st_text ?st @ rows_text bs\<rparr>) else (False, st'))" by auto
    then show ?thesis unfolding puts using True row put by (intro exI [of _ st']) (simp add: Let_def)
  next
    case False
    then show ?thesis
      unfolding puts using row by (simp add: fprintf_def Let_def)
  qed
qed

text \<open>A row that holds no line break; only a genesis block can have another kind of row.\<close>

definition one_line :: "block_t \<Rightarrow> bool" where
  "one_line b \<longleftrightarrow> CR \<notin> set (csv_row b) \<and> LF \<notin> set (csv_row b)"

lemma fgets_row:
  assumes "LF \<notin> set l" "Suc (length l) < n"
  shows "fgets n (l @ LF # r) = Some (l @ [LF], r, False)"
proof -
  have "take (n - 1) (l @ LF # r) = l @ LF # take (n - 2 - length l) r"
    using assms(2) by (simp add: take_Cons' numeral_2_eq_2)
  then show ?thesis using assms by (simp add: fgets_def)
qed

lemma fgets_long:
  assumes "LF \<notin> set l" "length l = n - 1" "l \<noteq> []"
  shows "fgets n (l @ r) = Some (l, r, False)"
  using assms by (simp add: fgets_def)

lemma cut_line_row [simp]: "CR \<notin> set l \<Longrightarrow> LF \<notin> set l \<Longrightarrow> cut_line (l @ [LF]) = l"
  by (auto simp: cut_line_def takeWhile_append takeWhile_eq_all_conv)

lemma cstr_line [simp]: "NUL \<notin> set l \<Longrightarrow> cstr (l @ [LF]) = l @ [LF]"
  by simp

lemma join_sep_set: "c \<in> set (join_sep ts) \<Longrightarrow> c = CHR '':'' \<or> (\<exists>t \<in> set ts. c \<in> set t)"
  by (induction ts rule: join_sep.induct) auto

lemma csv_row_chars:
  assumes "block_ok b" "c \<in> set (csv_row b)"
  shows "lower_hex c \<or> c = CHR '','' \<or> c = CHR '':'' \<or> (\<exists>t \<in> set (txs_of b). c \<in> set t)"
  using assms(2) block_okD(9,10) [OF assms(1)] join_sep_set [of c "txs_of b"]
  by (auto simp: csv_row_def list_all_iff dest: u64_to_hex16_lower)

lemma csv_row_no_nul [simp]: "block_ok b \<Longrightarrow> NUL \<notin> set (csv_row b)"
  using csv_row_chars [of b NUL] block_okD(6) [of b] lower_hex_neq [of NUL] by auto

lemma valid_one_line:
  assumes "valid_block b" "b_index b \<noteq> 0"
  shows "one_line b"
proof -
  have ok: "block_ok b" and txs: "\<forall>t \<in> set (txs_of b). tx_shape t"
    using assms by (auto simp: valid_block_def)
  have "\<forall>t \<in> set (txs_of b). CR \<notin> set t \<and> LF \<notin> set t" using txs tx_shape_clean by blast
  then show ?thesis
    using csv_row_chars [OF ok] lower_hex_neq unfolding one_line_def by fastforce
qed

subsection \<open>Loading what was saved\<close>

lemma spec_linked:
  assumes "linked (as @ [b])" "length as < 2 ^ 52"
  shows "append_spec as b = (APPEND_OK, as @ [b])"
proof -
  have b: "valid_block b" "b_index b = of_nat (length as)" "as \<noteq> [] \<longrightarrow> b_prev_hash b = digest_of (last as)"
    using assms(1) by (simp_all add: linked_snoc)
  have "unat (b_index b) = length as"
    using b(2) assms(2) by (simp add: unat_of_nat take_bit_nat_eq_self)
  with b show ?thesis by (auto simp: append_spec_def Let_def)
qed

lemma linked_prefix: "linked (as @ bs) \<Longrightarrow> linked as"
  by (induction bs rule: rev_induct) (simp_all add: linked_snoc flip: append_assoc)

lemma append_linked:
  assumes "chain_inv c" "c_v c = as" "linked (as @ [b])" "length as < 2 ^ 49"
  obtains c' where "chain_append env0 c b = (APPEND_OK, c')" "c_v c' = as @ [b]" "chain_inv c'"
proof -
  have "block_ok b" using assms(3) by (simp add: linked_snoc valid_block_def)
  then have "map_prod id c_v (chain_append env0 c b) = (APPEND_OK, as @ [b])"
    using led0.refines [OF assms(1)] spec_linked [OF assms(3)] assms(2,4) by simp
  with led.inv_append [OF assms(1) \<open>block_ok b\<close>, of env0] show ?thesis
    by (cases "chain_append env0 c b") (auto intro: that)
qed

text \<open>A row of 2243 bytes fills the buffer of \<open>fgets\<close> and leaves no room for its line feed.\<close>

lemma load_rows_text:
  assumes "chain_inv c" "c_v c = as" "linked (as @ bs)" "length (as @ bs) < 2 ^ 49"
    "\<forall>b \<in> set bs. one_line b"
  shows "fst (load_rows env0 (rows_text bs) c) =
      (if \<forall>b \<in> set bs. length (csv_row b) < 2243 then OK else CSV_PARSE_ERROR)
    \<and> ((\<forall>b \<in> set bs. length (csv_row b) < 2243) \<longrightarrow>
        c_v (snd (load_rows env0 (rows_text bs) c)) = as @ bs)"
  using assms
proof (induction bs arbitrary: c as)
  case Nil
  then show ?case by (simp add: load_rows.simps [of _ "[]"] fgets_def)
next
  case (Cons b bs)
  have l: "linked (as @ [b])" using linked_prefix [of "as @ [b]" bs] Cons.prems(3) by simp
  then have ok: "block_ok b" by (simp add: linked_snoc valid_block_def)
  have clean: "CR \<notin> set (csv_row b)" "LF \<notin> set (csv_row b)" "NUL \<notin> set (csv_row b)"
    using Cons.prems(5) ok by (auto simp: one_line_def)
  show ?case
  proof (cases "length (csv_row b) < 2243")
    case False
    then have len: "length (csv_row b) = MAX_CSV_ROW_LEN - 1" using csv_row_bounds(2) [OF ok] by simp
    have "fgets MAX_CSV_ROW_LEN (rows_text (b # bs)) = Some (csv_row b, LF # rows_text bs, False)"
      unfolding rows_text_simps using clean(2) len by (intro fgets_long) auto
    moreover have "csv_row b \<noteq> []" using len by auto
    moreover from this have "last (csv_row b) \<noteq> LF" using clean(2) by (metis last_in_set)
    ultimately have "load_rows env0 (rows_text (b # bs)) c = (CSV_PARSE_ERROR, c)"
      using clean(3) by (simp add: load_rows.simps [of _ "rows_text (b # bs)"] del: rows_text_simps)
    with False show ?thesis by simp
  next
    case short: True
    obtain c' where c': "chain_append env0 c b = (APPEND_OK, c')" "c_v c' = as @ [b]" "chain_inv c'"
      using append_linked [OF Cons.prems(1,2) l] Cons.prems(4) by auto
    have "fgets MAX_CSV_ROW_LEN (rows_text (b # bs)) = Some (csv_row b @ [LF], rows_text bs, False)"
      unfolding rows_text_simps using clean(2) short by (intro fgets_row) simp_all
    moreover have "csv_row b \<noteq> []" using csv_row_bounds(1) [OF ok] by auto
    ultimately have "load_rows env0 (rows_text (b # bs)) c = load_rows env0 (rows_text bs) c'"
      using clean c'(1) block_from_csv_row_of_row [OF ok]
      by (simp add: load_rows.simps [of _ "rows_text (b # bs)"] del: rows_text_simps)
    with short Cons.IH [OF c'(3,2)] Cons.prems show ?thesis by simp
  qed
qed

lemma csv_header_clean: "NUL \<notin> set CSV_HEADER" "CR \<notin> set CSV_HEADER" "LF \<notin> set CSV_HEADER"
  "length CSV_HEADER = 56"
  by (simp_all add: CSV_HEADER_def)

lemma csv_load_file_text:
  assumes "open_ok d" "fs path = Some (file_text bs)"
  shows "csv_load E d fs path c = load_rows E (rows_text bs) c"
proof -
  have "fgets MAX_CSV_ROW_LEN (file_text bs) = Some (CSV_HEADER @ [LF], rows_text bs, False)"
    unfolding file_text_def append_Cons append_Nil
    by (rule fgets_row) (simp_all add: csv_header_clean)
  then show ?thesis using assms csv_header_clean by (simp add: csv_load_def)
qed

subsection \<open>What a save leaves on disk\<close>

lemma le_all_split: "(\<forall>i \<le> n. P i) \<longleftrightarrow> P 0 \<and> (\<forall>j < n. P (Suc j))" for n :: nat
  by (auto simp: less_Suc_eq_le [symmetric] less_Suc_eq_0_disj)

text \<open>The only way to a success: every call succeeds.\<close>

definition disk_fine :: "io \<Rightarrow> nat \<Rightarrow> bool" where
  "disk_fine d n \<longleftrightarrow> open_ok d \<and> (\<forall>i \<le> n. put_ok d i) \<and> close_ok d \<and> rename_ok d"

lemma csv_save_cases:
  assumes "chain_inv c"
  shows "\<exists>left. csv_save d fs path c =
     (if length path + 4 < 512 \<and> disk_fine d (length (c_v c))
      then (OK, fs(path @ ''.tmp'' := None, path \<mapsto> file_text (c_v c)))
      else (FILE_ERROR, fs(path @ ''.tmp'' := left)))"
proof -
  note I = chain_invD [OF assms]
  let ?tmp = "path @ ''.tmp''" and ?st = "\<lparr>st_text = CSV_HEADER @ [LF], st_lost = False\<rparr>"
  have ok: "\<forall>b \<in> set (c_v c). block_ok b" using linkedD(3) [OF I(2)] by (auto simp: in_set_conv_nth)
  have all: "take (c_len c) (c_v c) = c_v c" using I(1) by simp
  obtain st' where rows: "save_rows d 1 (c_v c) ?st =
      (if \<forall>j < length (c_v c). put_ok d (1 + j)
       then (True, ?st\<lparr>st_text := st_text ?st @ rows_text (c_v c)\<rparr>) else (False, st'))"
    using save_rows_text [OF ok, of d 1 ?st] by blast
  have new: "(f(?tmp \<mapsto> t))(?tmp := None, path := Some t) = f(?tmp := None, path \<mapsto> t)" for f :: files and t
    by (auto simp: fun_eq_iff)
  have left: "\<exists>left. remove_file d ?tmp (fs(?tmp \<mapsto> t)) = fs(?tmp := left)" for t
    by (auto simp: remove_file_def)
  have same: "\<exists>left. fs = fs(?tmp := left)" by (metis fun_upd_triv)
  show ?thesis
    unfolding disk_fine_def le_all_split
    using left same rows all new
    by (auto simp: csv_save_def snprintf_fits_def fprintf_def fclose_def rename_file_def file_text_def
        Let_def)
qed

lemma csv_save_OK:
  assumes "chain_inv c" "csv_save d fs path c = (OK, fs')"
  shows "fs' = fs(path @ ''.tmp'' := None, path \<mapsto> file_text (c_v c))"
  using csv_save_cases [OF assms(1), of d fs path] assms(2) by (auto split: if_splits)

lemma csv_save_fine:
  assumes "chain_inv c" "length path < 508" "disk_fine d (length (c_v c))"
  shows "csv_save d fs path c = (OK, fs(path @ ''.tmp'' := None, path \<mapsto> file_text (c_v c)))"
  using csv_save_cases [OF assms(1), of d fs path] assms(2,3) by auto

subsection \<open>What a load accepts\<close>

text \<open>
  A file is read in pieces. The row of a piece ends at the first carriage return, line feed or NUL
  byte. A piece that is a row must end with a line feed or be the last one; only a piece that
  starts with a NUL byte, which looks empty to the code, may be a part of a longer line.
\<close>

definition row_of :: "string \<Rightarrow> string" where
  "row_of l = takeWhile (\<lambda>c. c \<noteq> CR \<and> c \<noteq> LF \<and> c \<noteq> NUL) l"

fun pieces :: "string list \<Rightarrow> bool" where
  "pieces [] = True"
| "pieces (l # ls) \<longleftrightarrow> l \<noteq> [] \<and> LF \<notin> set (butlast l)
     \<and> (last l = LF \<or> ls = [] \<or> hd l = NUL) \<and> pieces ls"

lemma takeWhile_takeWhile:
  "takeWhile P (takeWhile Q xs) = takeWhile (\<lambda>x. P x \<and> Q x) xs"
  by (induction xs) auto

lemma cut_line_row_of: "cut_line (cstr l) = row_of l"
  unfolding cut_line_def cstr_def row_of_def takeWhile_takeWhile by (simp add: conj_ac)

lemma fgets_piece:
  assumes f: "fgets n s = Some (line, rest, e)" and n: "1 < n"
  shows "s = line @ rest" "line \<noteq> []" "LF \<notin> set (butlast line)" "e \<Longrightarrow> rest = []"
    "last line = LF \<or> rest = [] \<or> length line = n - 1"
proof -
  show lr: "s = line @ rest" using f by (auto simp: fgets_def split: if_splits option.splits)
  have s: "s \<noteq> []" using f by (auto simp: fgets_def)
  show "line \<noteq> []" using f n s by (auto simp: fgets_def split: if_splits option.splits)
  have "LF \<notin> set (butlast line) \<and> (e \<longrightarrow> rest = []) \<and> (last line = LF \<or> rest = [] \<or> length line = n - 1)"
  proof (cases "strchr (take (n - 1) s) LF")
    case None
    then show ?thesis
      using f s by (auto simp: fgets_def strchr_def dest: in_set_butlastD split: if_splits)
  next
    case (Some i)
    let ?t = "take (n - 1) s" and ?l = "takeWhile (\<lambda>c. c \<noteq> LF) (take (n - 1) s)"
    from Some have t: "LF \<in> set ?t" "i = length ?l" by (auto simp: strchr_def split: if_splits)
    from split_list_first [OF t(1)] obtain a b where ab: "?t = a @ LF # b" "LF \<notin> set a" by blast
    then have "?l = a" by (auto simp: takeWhile_append)
    then have i: "i = length a" using t(2) by simp
    have "s = a @ LF # b @ drop (n - 1) s" using ab(1) by (metis append_Cons append_assoc append_take_drop_id)
    then have cut: "take (i + 1) s = a @ [LF]" unfolding i by (metis append_eq_conv_conj append_Cons append_Nil append_assoc length_append_singleton Suc_eq_plus1)
    have "line = take (i + 1) s" using f s Some by (simp add: fgets_def)
    with cut have "line = a @ [LF]" by simp
    moreover have "\<not> e" using f s Some by (simp add: fgets_def)
    ultimately show ?thesis using ab(2) by simp
  qed
  then show "LF \<notin> set (butlast line)" "e \<Longrightarrow> rest = []" "last line = LF \<or> rest = [] \<or> length line = n - 1"
    by blast+
qed

lemma last_cstr:
  assumes "cstr l = [] \<or> last (cstr l) = LF" "l \<noteq> []" "LF \<notin> set (butlast l)"
  shows "last l = LF \<or> hd l = NUL"
proof (cases "NUL \<in> set l")
  case False
  then show ?thesis using assms(1,2) by simp
next
  case True
  then obtain a b where l: "l = a @ NUL # b" "NUL \<notin> set a" by (auto dest: split_list_first)
  have "cstr l = a" using l by (auto simp: cstr_def takeWhile_append)
  then show ?thesis using assms(1,3) l by (cases "a = []") (auto simp: butlast_append dest: last_in_set)
qed

lemma cut_line_no_nul: "NUL \<notin> set (cut_line (cstr l))"
  unfolding cut_line_def by (metis cstr_no_nul set_takeWhileD)

text \<open>The three ways one round of the loop can go.\<close>

lemma load_rows_cases:
  assumes inv: "chain_inv c" and s: "s \<noteq> []"
  obtains (stop) r c' where "load_rows E s c = (r, c')" "r \<noteq> OK" "chain_inv c'"
  | (skip) line rest e where "fgets MAX_CSV_ROW_LEN s = Some (line, rest, e)"
      "cstr line = [] \<or> last (cstr line) = LF \<or> e" "cut_line (cstr line) = []"
      "load_rows E s c = load_rows E rest c"
  | (row) line rest e b c' where "fgets MAX_CSV_ROW_LEN s = Some (line, rest, e)"
      "cstr line = [] \<or> last (cstr line) = LF \<or> e" "cut_line (cstr line) \<noteq> []"
      "block_from_csv_row (cut_line (cstr line)) = Inr b" "block_ok b"
      "chain_append E c b = (APPEND_OK, c')" "load_rows E s c = load_rows E rest c'"
proof -
  obtain line rest e where f: "fgets MAX_CSV_ROW_LEN s = Some (line, rest, e)"
  proof -
    have "fgets MAX_CSV_ROW_LEN s \<noteq> None" using s by (simp add: fgets_def split: option.split del: not_None_eq)
    then show ?thesis using that by (metis not_None_eq prod_cases3)
  qed
  let ?row = "cut_line (cstr line)"
  note eq = load_rows.simps [of E s c] f [unfolded MAX_CSV_ROW_LEN_eq] Let_def
  show thesis
  proof (cases "cstr line = [] \<or> last (cstr line) = LF \<or> e")
    case False
    then show thesis using stop [of CSV_PARSE_ERROR c] inv by (simp add: eq)
  next
    case complete: True
    show thesis
    proof (cases "?row = []")
      case True
      then show thesis using skip [OF f complete] complete by (auto simp: eq)
    next
      case nonempty: False
      show thesis
      proof (cases "block_from_csv_row ?row")
        case (Inl r)
        then show thesis using stop [of CSV_PARSE_ERROR c] inv complete nonempty by (auto simp: eq)
      next
        case (Inr b)
        have ok: "block_ok b" using block_from_csv_row_ok [OF Inr cut_line_no_nul] .
        obtain res c' where app: "chain_append E c b = (res, c')" by fastforce
        then have "chain_inv c'" using led.inv_append [OF inv ok, of E] by simp
        then show thesis
          using row [OF f complete nonempty Inr ok, of c'] app complete nonempty Inr
            stop [of INVALID_BLOCK c'] stop [of CHAIN_MISMATCH c']
          by (cases res) (auto simp: eq)
      qed
    qed
  qed
qed

lemma load_rows_Nil [simp]: "load_rows E [] c = (OK, c)"
  by (simp add: load_rows.simps [of _ "[]"] fgets_def)

lemma load_rows_inv: "chain_inv c \<Longrightarrow> chain_inv (snd (load_rows E s c))"
proof (induction s arbitrary: c rule: measure_induct_rule [where f = length])
  case (less s)
  show ?case
  proof (cases "s = []")
    case False
    then show ?thesis
    proof (cases rule: load_rows_cases [OF less.prems False, of E])
      case (2 line rest e)
      with fgets_shorter [OF 2(1)] less show ?thesis by simp
    next
      case (3 line rest e b c')
      then have "chain_inv c'" using led.inv_append [OF less.prems 3(5), of E] by simp
      with 3 fgets_shorter [OF 3(1)] less.IH show ?thesis by simp
    qed simp
  qed (use less in simp)
qed

lemma load_rows_sound:
  "chain_inv c \<Longrightarrow> load_rows E s c = (OK, d) \<Longrightarrow>
    \<exists>ls bs. s = concat ls \<and> pieces ls \<and> c_v d = c_v c @ bs
      \<and> map block_from_csv_row (filter (\<lambda>r. r \<noteq> []) (map row_of ls)) = map Inr bs"
proof (induction s arbitrary: c rule: measure_induct_rule [where f = length])
  case (less s)
  show ?case
  proof (cases "s = []")
    case True
    with less.prems show ?thesis by (intro exI [of _ "[]"]) simp
  next
    case s: False
    have piece: "s = concat (line # ls) \<and> pieces (line # ls)"
      if f: "fgets MAX_CSV_ROW_LEN s = Some (line, rest, e)" and ls: "rest = concat ls" "pieces ls"
        and complete: "cstr line = [] \<or> last (cstr line) = LF \<or> e" for line rest e ls
    proof -
      note F = fgets_piece [OF f]
      have "rest = [] \<Longrightarrow> ls = []" using ls by (cases ls) auto
      then have "last line = LF \<or> ls = [] \<or> hd line = NUL"
        using F(2,3,4) complete last_cstr [of line] by auto
      with F(1-3) ls show ?thesis by simp
    qed
    show ?thesis
    proof (cases rule: load_rows_cases [OF less.prems(1) s, of E])
      case (1 r c')
      with less.prems show ?thesis by simp
    next
      case (2 line rest e)
      obtain ls bs where ls: "rest = concat ls" "pieces ls" "c_v d = c_v c @ bs"
          "map block_from_csv_row (filter (\<lambda>r. r \<noteq> []) (map row_of ls)) = map Inr bs"
        using less.IH [of rest c] fgets_shorter [OF 2(1)] less.prems 2(4) by auto
      have "row_of line = []" using 2(3) by (simp only: cut_line_row_of)
      then show ?thesis
        using piece [OF 2(1) ls(1,2) 2(2)] ls(3,4) by (intro exI [of _ "line # ls"] exI [of _ bs]) simp
    next
      case (3 line rest e b c')
      have c': "chain_inv c'" "c_v c' = c_v c @ [b]"
        using led.inv_append [OF less.prems(1) 3(5), of E] led.effect [OF less.prems(1) 3(5), of E] 3(6)
        by simp_all
      obtain ls bs where ls: "rest = concat ls" "pieces ls" "c_v d = c_v c' @ bs"
          "map block_from_csv_row (filter (\<lambda>r. r \<noteq> []) (map row_of ls)) = map Inr bs"
        using less.IH [of rest c'] fgets_shorter [OF 3(1)] c'(1) less.prems(2) 3(7) by auto
      have "row_of line \<noteq> []" "block_from_csv_row (row_of line) = Inr b"
        using 3(3,4) unfolding cut_line_row_of by blast+
      then show ?thesis
        using piece [OF 3(1) ls(1,2) 3(2)] ls(3,4) c'(2)
        by (intro exI [of _ "line # ls"] exI [of _ "b # bs"]) simp
    qed
  qed
qed

lemma csv_load_inv: "chain_inv c \<Longrightarrow> chain_inv (snd (csv_load E d fs path c))"
  using load_rows_inv [of c E] by (auto simp: csv_load_def split: option.split)

lemma csv_load_OK:
  assumes "csv_load E d fs path chain_init = (OK, c)"
  shows "open_ok d \<and> (\<exists>l0 ls. fs path = Some (l0 @ concat ls)
    \<and> LF \<notin> set (butlast l0) \<and> (last l0 = LF \<or> ls = [] \<or> length l0 = MAX_CSV_ROW_LEN - 1)
    \<and> row_of l0 = CSV_HEADER \<and> pieces ls
    \<and> map block_from_csv_row (filter (\<lambda>r. r \<noteq> []) (map row_of ls)) = map Inr (c_v c))"
proof -
  have "fst (csv_load E d fs path chain_init) = OK" using assms by simp
  then obtain s l0 rest e where f: "open_ok d" "fs path = Some s" "fgets MAX_CSV_ROW_LEN s = Some (l0, rest, e)"
    and h: "strcmp (cut_line (cstr l0)) CSV_HEADER = 0"
    by (auto simp: csv_load_def simp del: MAX_CSV_ROW_LEN_eq split: if_splits option.splits)
  then have r: "load_rows E rest chain_init = (OK, c)" using assms by (simp add: csv_load_def)
  obtain ls where ls: "rest = concat ls" "pieces ls"
      "map block_from_csv_row (filter (\<lambda>r. r \<noteq> []) (map row_of ls)) = map Inr (c_v c)"
    using load_rows_sound [OF chain_inv_init(1) r] by auto
  note F = fgets_piece [OF f(3)]
  have "rest = [] \<Longrightarrow> ls = []" using ls by (cases ls) auto
  then have "last l0 = LF \<or> ls = [] \<or> length l0 = MAX_CSV_ROW_LEN - 1" using F(5) by auto
  moreover have "row_of l0 = CSV_HEADER" using h by (simp add: cut_line_row_of)
  moreover have "fs path = Some (l0 @ concat ls)" using f(2) F(1) ls(1) by simp
  moreover have "LF \<notin> set (butlast l0)" using F(3) by simp
  ultimately show ?thesis using f(1) ls(2,3) by blast
qed

subsection \<open>Samples for the witnesses\<close>

definition disk0 :: io where
  "disk0 = \<lparr>open_ok = True, put_ok = (\<lambda>i. True), close_ok = True, rename_ok = True,
     remove_ok = True, torn = (\<lambda>s. [])\<rparr>"

lemma disk0_sel [simp]:
  "open_ok disk0" "disk_fine disk0 n"
  by (simp_all add: disk0_def disk_fine_def)

lemma genesis1_line [simp]: "one_line genesis1"
proof -
  have ok: "block_ok genesis1" by simp
  have "txs_of genesis1 = [''Genesis block'']" by (simp add: genesis1_def)
  then show ?thesis
    using csv_row_chars [OF ok] lower_hex_neq unfolding one_line_def by fastforce
qed

lemma genesis1_row: "length (csv_row genesis1) < 2243"
proof -
  have "block_ok genesis1" by simp
  then show ?thesis by (simp add: length_csv_row) (simp add: genesis1_def)
qed

text \<open>Sixteen transactions of 127 bytes: a block the program accepts and can mine.\<close>

definition big_tx :: string where
  "big_tx = replicate 109 (CHR ''A'') @ '' pays '' @ ''Bob'' @ '' '' @ ''10'' @ '' coins''"

definition big_block :: block_t where
  "big_block = block_with 1 0x677485e4 0 (digest_of genesis1) (replicate 16 big_tx)"

definition big_chain :: chain_t where
  "big_chain = \<lparr>c_v = [genesis1, big_block], c_len = 2, c_cap = 2\<rparr>"

lemma big_tx_facts: "tx_shape big_tx" "length big_tx = 127"
proof -
  have "list_all isalnum (replicate 109 (CHR ''A''))" by (simp add: list_all_iff isalnum_def)
  then show "tx_shape big_tx" "length big_tx = 127"
    using tx_shapeI [of "replicate 109 (CHR ''A'')" "''Bob''" "CHR ''1''" "''0''"]
    by (simp_all add: big_tx_def isalnum_def isdigit_def)
qed

lemma big_block_valid: "valid_block big_block" "block_ok big_block" "b_index big_block = 1"
proof -
  show v: "valid_block big_block"
    unfolding big_block_def by (rule block_with_valid) (simp_all add: big_tx_facts)
  then show "block_ok big_block" by (simp add: valid_block_def)
qed (simp add: big_block_def)

lemma length_join_sep_eq:
  "\<forall>t \<in> set ts. length t = k \<Longrightarrow> length ts = Suc n \<Longrightarrow> length (join_sep ts) = Suc n * k + 2 * n"
proof (induction ts arbitrary: n rule: join_sep.induct)
  case (3 t t' ts)
  then show ?case by (cases n) auto
qed auto

lemma big_row: "length (csv_row big_block) = 2243"
  using length_csv_row [OF big_block_valid(2)] length_join_sep_eq [of "replicate 16 big_tx" 127 15]
  by (simp add: big_block_def big_tx_facts)

lemma big_chain_inv: "chain_inv big_chain" "c_v big_chain = [genesis1, big_block]"
proof -
  have "linked ([genesis1] @ [big_block])"
    unfolding linked_snoc using chain1_inv(1) big_block_valid
    by (simp add: chain_inv_def) (simp add: big_block_def)
  then show "chain_inv big_chain" by (simp add: chain_inv_def big_chain_def sizeof_block_def)
qed (simp add: big_chain_def)

subsection \<open>Properties\<close>

text \<open>C15: saving is atomic. \<open>csv_save\<close> reports success exactly when the temporary name fits its buffer
  and every call down to \<open>fclose\<close> and \<open>rename\<close> succeeds, and then the target holds the complete text
  of the chain and the temporary file is gone. Whatever fails, and whatever a failed write or close
  leaves on the disk, it otherwise reports \<open>FILE_ERROR\<close> and every file except the temporary one is
  as it was before.\<close>

theorem csv_save_atomic:
  assumes "chain_inv c" "csv_save d fs path c = (r, fs')"
  shows "(r = OK \<longleftrightarrow> length path + 4 < 512 \<and> open_ok d
        \<and> (\<forall>i \<le> length (c_v c). put_ok d i) \<and> close_ok d \<and> rename_ok d)
    \<and> (r = OK \<longrightarrow> fs' = fs(path @ ''.tmp'' := None, path \<mapsto> CSV_HEADER @ [LF] @ rows_text (c_v c)))
    \<and> (r \<noteq> OK \<longrightarrow> r = FILE_ERROR \<and> (\<forall>q. q \<noteq> path @ ''.tmp'' \<longrightarrow> fs' q = fs q))"
  using csv_save_cases [OF assms(1), of d fs path] assms(2)
  by (auto simp: disk_fine_def file_text_def split: if_splits)

theorem csv_save_atomic_witness:
  "\<exists>fs'. csv_save (disk0\<lparr>close_ok := False, remove_ok := False\<rparr>) (\<lambda>q. None) ''a.csv'' chain1 = (FILE_ERROR, fs')
    \<and> fs' ''a.csv'' = None"
proof -
  let ?d = "disk0\<lparr>close_ok := False, remove_ok := False\<rparr>"
  obtain r fs' where s: "csv_save ?d (\<lambda>q. None) ''a.csv'' chain1 = (r, fs')" by fastforce
  from csv_save_atomic [OF chain1_inv(1) s] have "r = FILE_ERROR" "fs' ''a.csv'' = None" by auto
  with s show ?thesis by blast
qed

text \<open>C16: a saved chain is read back block for block by a later \<open>csv_load\<close>, exactly when every
  row is shorter than 2243 bytes; a row of 2243 bytes, the longest a valid block has, makes the
  load fail with \<open>CSV_PARSE_ERROR\<close>, because the line buffer has no room for its line feed.\<close>

theorem csv_reload:
  assumes "chain_inv c" "\<forall>b \<in> set (c_v c). one_line b" "length (c_v c) < 2 ^ 49"
    "csv_save d fs path c = (OK, fs')" "open_ok d'"
  shows "fst (csv_load env0 d' fs' path chain_init) =
      (if \<forall>b \<in> set (c_v c). length (csv_row b) < 2243 then OK else CSV_PARSE_ERROR)
    \<and> ((\<forall>b \<in> set (c_v c). length (csv_row b) < 2243) \<longrightarrow>
        c_v (snd (csv_load env0 d' fs' path chain_init)) = c_v c)"
proof -
  have "fs' path = Some (file_text (c_v c))"
    using csv_save_OK [OF assms(1,4)] by simp
  then have "csv_load env0 d' fs' path chain_init = load_rows env0 (rows_text (c_v c)) chain_init"
    using assms(5) by (rule csv_load_file_text [rotated])
  then show ?thesis
    using load_rows_text [of chain_init "[]" "c_v c"] assms(1-3) chain_invD(2) by simp
qed

theorem csv_reload_witness:
  "\<exists>fs'. csv_save disk0 (\<lambda>q. None) ''a.csv'' chain1 = (OK, fs')
    \<and> fst (csv_load env0 disk0 fs' ''a.csv'' chain_init) = OK
    \<and> c_v (snd (csv_load env0 disk0 fs' ''a.csv'' chain_init)) = [genesis1]"
proof -
  obtain fs' where s: "csv_save disk0 (\<lambda>q. None) ''a.csv'' chain1 = (OK, fs')"
    using csv_save_fine [OF chain1_inv(1), of "''a.csv''" disk0 "\<lambda>q. None"] by simp
  show ?thesis using csv_reload [OF chain1_inv(1) _ _ s, of disk0] s genesis1_row by simp
qed

text \<open>C17: a chain that holds a block of 16 transactions of 127 bytes, the largest a miner can make, is
  saved with success and refused with \<open>CSV_PARSE_ERROR\<close> by every later load of that file. No row
  contains a line break: the row of that block has 2243 bytes and fills the line buffer, which
  has no room left for its line feed.\<close>

theorem saved_chain_not_loadable:
  assumes "chain_inv c" "\<forall>b \<in> set (c_v c). one_line b" "length (c_v c) < 2 ^ 49"
    "big \<in> set (c_v c)" "length (txs_of big) = 16" "\<forall>t \<in> set (txs_of big). length t = 127"
    "csv_save d fs path c = (OK, fs')" "open_ok d'"
  shows "length (csv_row big) = MAX_CSV_ROW_LEN - 1
    \<and> fst (csv_load env0 d' fs' path chain_init) = CSV_PARSE_ERROR"
proof -
  note I = chain_invD [OF assms(1)]
  have ok: "block_ok big" using linkedD(3) [OF I(2)] assms(4) by (auto simp: in_set_conv_nth)
  have row: "length (csv_row big) = 2243"
    using length_csv_row [OF ok] length_join_sep_eq [OF assms(6), of 15] assms(5) by simp
  have "fs' path = Some (file_text (c_v c))" using csv_save_OK [OF assms(1,7)] by simp
  then have "csv_load env0 d' fs' path chain_init = load_rows env0 (rows_text (c_v c)) chain_init"
    using assms(8) by (rule csv_load_file_text [rotated])
  moreover have "fst (load_rows env0 (rows_text (c_v c)) chain_init) = CSV_PARSE_ERROR"
  proof -
    have "\<not> (\<forall>b \<in> set (c_v c). length (csv_row b) < 2243)" using assms(4) row by force
    then show ?thesis using load_rows_text [of chain_init "[]" "c_v c"] assms(2,3) I(2) by simp
  qed
  ultimately show ?thesis using row by simp
qed

theorem saved_chain_not_loadable_witness:
  "\<exists>fs'. csv_save disk0 (\<lambda>q. None) ''a.csv'' big_chain = (OK, fs')
    \<and> fst (csv_load env0 disk0 fs' ''a.csv'' chain_init) = CSV_PARSE_ERROR"
proof -
  obtain fs' where s: "csv_save disk0 (\<lambda>q. None) ''a.csv'' big_chain = (OK, fs')"
    using csv_save_fine [OF big_chain_inv(1), of "''a.csv''" disk0 "\<lambda>q. None"] by simp
  have line: "\<forall>b \<in> set (c_v big_chain). one_line b"
    using valid_one_line big_block_valid by (simp add: big_chain_inv(2))
  have big: "big_block \<in> set (c_v big_chain)" "length (txs_of big_block) = 16"
    "\<forall>t \<in> set (txs_of big_block). length t = 127" "length (c_v big_chain) < 2 ^ 49"
    by (simp_all add: big_chain_inv(2) big_block_def big_tx_facts)
  show ?thesis
    using saved_chain_not_loadable [OF big_chain_inv(1) line big(4,1,2,3) s, of disk0] s by simp
qed

text \<open>C18: whatever bytes a file holds, and whatever fails, a load into an empty chain leaves the chain well
  formed. If it succeeds, the file could be opened and is a first piece whose row is the header,
  followed by pieces whose non-empty rows the parser turned into exactly the blocks of the chain,
  in order: an empty file, a wrong or missing header, a row that does not parse and a row cut off
  by the line buffer are all refused. Line ends with a carriage return are accepted, and so are
  empty lines, which includes those that start with a NUL byte.\<close>

theorem csv_load_sound:
  assumes "csv_load E d fs path chain_init = (r, c)"
  shows "chain_inv c \<and> (r = OK \<longrightarrow> open_ok d \<and>
     (\<exists>l0 ls. fs path = Some (l0 @ concat ls)
       \<and> LF \<notin> set (butlast l0) \<and> (last l0 = LF \<or> ls = [] \<or> length l0 = MAX_CSV_ROW_LEN - 1)
       \<and> row_of l0 = CSV_HEADER \<and> pieces ls
       \<and> map block_from_csv_row (filter (\<lambda>r. r \<noteq> []) (map row_of ls)) = map Inr (c_v c)))"
  using csv_load_inv [OF chain_inv_init(1), of E d fs path] csv_load_OK [of E d fs path c] assms by auto

theorem csv_load_sound_witness:
  "\<exists>c l0 ls. csv_load env0 disk0 (\<lambda>q. Some (file_text [genesis1])) ''a.csv'' chain_init = (OK, c)
    \<and> c_v c = [genesis1] \<and> file_text [genesis1] = l0 @ concat ls \<and> row_of l0 = CSV_HEADER
    \<and> map block_from_csv_row (filter (\<lambda>r. r \<noteq> []) (map row_of ls)) = [Inr genesis1]"
proof -
  let ?L = "csv_load env0 disk0 (\<lambda>q. Some (file_text [genesis1])) ''a.csv'' chain_init"
  have "linked ([] @ [genesis1])" using chain1_inv by (simp add: chain_inv_def)
  then have r: "fst ?L = OK" "c_v (snd ?L) = [genesis1]"
    using load_rows_text [of chain_init "[]" "[genesis1]"] genesis1_row
      csv_load_file_text [of disk0 "\<lambda>q. Some (file_text [genesis1])" "''a.csv''" "[genesis1]"]
    by (simp_all del: rows_text_simps)
  then have L: "?L = (OK, snd ?L)" by (metis prod.collapse)
  obtain c where c: "?L = (OK, c)" "c_v c = [genesis1]" using L r(2) by blast
  have "\<exists>l0 ls. Some (file_text [genesis1]) = Some (l0 @ concat ls) \<and> row_of l0 = CSV_HEADER
      \<and> map block_from_csv_row (filter (\<lambda>r. r \<noteq> []) (map row_of ls)) = map Inr (c_v c)"
    using csv_load_sound [OF c(1)] by blast
  with c show ?thesis by (metis option.inject list.map)
qed

end
