(* ===== verification/Ipc.thy ===== *)
theory Ipc
  imports Crypto
begin

section \<open>Messages, FIFOs and signals (ipc.c, common.h)\<close>

text \<open>
  The message record and its bytes, the FIFO paths, creation and removal of the FIFOs, sending
  and the three ways of receiving, and the signal handlers. A FIFO holds the bytes written and
  not yet read; what the system calls answer is a parameter. The interface the other processes
  rely on, messages come out whole and in the order they went in, is the locale \<open>channel\<close>.
\<close>

subsection \<open>Data (common.h)\<close>

datatype role = ROLE_PARENT | ROLE_NODE | ROLE_MINER | ROLE_CLIENT

datatype msg_type = MSG_TX | MSG_BLOCK | MSG_BLOCK_REQUEST | MSG_CHAIN_REQUEST | MSG_REPLY

text \<open>The numbers of the two enumerations, which travel in 32-bit fields.\<close>

fun role_code :: "role \<Rightarrow> u32" where
  "role_code ROLE_PARENT = 0"
| "role_code ROLE_NODE = 1"
| "role_code ROLE_MINER = 2"
| "role_code ROLE_CLIENT = 3"

fun type_code :: "msg_type \<Rightarrow> u32" where
  "type_code MSG_TX = 0"
| "type_code MSG_BLOCK = 1"
| "type_code MSG_BLOCK_REQUEST = 2"
| "type_code MSG_CHAIN_REQUEST = 3"
| "type_code MSG_REPLY = 4"

record msg_t =
  m_type :: u32
  m_role :: u32
  m_idx :: u32
  m_seq :: u32
  m_last :: u32
  m_len :: u32
  m_payload :: "char list"

definition sizeof_msg :: nat where
  "sizeof_msg = 6 * 4 + MSG_PAYLOAD_MAX"

lemma sizeof_msg_eq [simp]: "sizeof_msg = 4088"
  by (simp add: sizeof_msg_def)

definition wf_msg :: "msg_t \<Rightarrow> bool" where
  "wf_msg m \<longleftrightarrow> length (m_payload m) = MSG_PAYLOAD_MAX"

text \<open>A record after \<open>memset\<close>, and its payload after \<open>snprintf(payload, sizeof payload, "%s", s)\<close>.\<close>

definition zero_msg :: msg_t where
  "zero_msg = \<lparr>m_type = 0, m_role = 0, m_idx = 0, m_seq = 0, m_last = 0, m_len = 0,
     m_payload = replicate MSG_PAYLOAD_MAX NUL\<rparr>"

definition fill :: "string \<Rightarrow> char list" where
  "fill s = snprintf_out MSG_PAYLOAD_MAX s
     @ replicate (MSG_PAYLOAD_MAX - length (snprintf_out MSG_PAYLOAD_MAX s)) NUL"

abbreviation payload :: "msg_t \<Rightarrow> string" where "payload m \<equiv> cstr (m_payload m)"

lemma length_fill [simp]: "length (fill s) = 4064"
  by (simp add: fill_def snprintf_out_def)

lemma wf_zero_msg [simp]: "wf_msg zero_msg"
  by (simp add: wf_msg_def zero_msg_def)

lemma cstr_fill [simp]: "NUL \<notin> set s \<Longrightarrow> length s < 4064 \<Longrightarrow> cstr (fill s) = s"
  by (cases "4064 - length s") (simp_all add: fill_def snprintf_out_def)

subsection \<open>The bytes of a message\<close>

definition le32 :: "u32 \<Rightarrow> string" where
  "le32 w = (let v = unat w in
     [char_of v, char_of (v div 256), char_of (v div 65536), char_of (v div 16777216)])"

definition read_le32 :: "string \<Rightarrow> u32" where
  "read_le32 s = of_nat (of_char (s ! 0) + 256 * of_char (s ! 1) + 65536 * of_char (s ! 2)
     + 16777216 * of_char (s ! 3))"

definition encode :: "msg_t \<Rightarrow> string" where
  "encode m = le32 (m_type m) @ le32 (m_role m) @ le32 (m_idx m) @ le32 (m_seq m)
     @ le32 (m_last m) @ le32 (m_len m) @ m_payload m"

definition decode :: "string \<Rightarrow> msg_t" where
  "decode s = \<lparr>m_type = read_le32 s, m_role = read_le32 (drop 4 s), m_idx = read_le32 (drop 8 s),
     m_seq = read_le32 (drop 12 s), m_last = read_le32 (drop 16 s), m_len = read_le32 (drop 20 s),
     m_payload = drop 24 s\<rparr>"

lemma length_le32 [simp]: "length (le32 w) = 4"
  by (simp add: le32_def Let_def)

lemma base256: "v mod 256 + 256 * (v div 256 mod 256) + 65536 * (v div 65536 mod 256)
    + 16777216 * (v div 16777216 mod 256) = v mod 4294967296" for v :: nat
proof -
  have *: "v mod (256 * n) = v mod n + n * (v div n mod 256)" for n
    by (simp add: mod_mult2_eq mult.commute)
  show ?thesis using * [of 256] * [of 65536] * [of 16777216] by simp
qed

lemma read_le32_le32 [simp]: "read_le32 (le32 w @ r) = w"
proof -
  have "unat w < 4294967296" by (rule order_less_le_trans [OF unsigned_less]) simp
  then have sum: "of_char (char_of (unat w) :: char) + 256 * of_char (char_of (unat w div 256) :: char)
      + 65536 * of_char (char_of (unat w div 65536) :: char)
      + 16777216 * of_char (char_of (unat w div 16777216) :: char) = unat w"
    using base256 [of "unat w"] by simp
  have nth: "(le32 w @ r) ! 0 = char_of (unat w)" "(le32 w @ r) ! 1 = char_of (unat w div 256)"
    "(le32 w @ r) ! 2 = char_of (unat w div 65536)" "(le32 w @ r) ! 3 = char_of (unat w div 16777216)"
    by (simp_all add: le32_def Let_def)
  show ?thesis unfolding read_le32_def nth sum by simp
qed

lemma read_le32_le32' [simp]: "read_le32 (le32 w) = w"
  using read_le32_le32 [of w "[]"] by simp

lemma decode_encode [simp]: "decode (encode m) = m"
  by (simp add: decode_def encode_def)

lemma length_encode [simp]: "wf_msg m \<Longrightarrow> length (encode m) = 4088"
  by (simp add: encode_def wf_msg_def)

subsection \<open>FIFO paths, creation and removal\<close>

definition dec_int :: "int \<Rightarrow> string" where
  \<comment> \<open>\<open>%d\<close>\<close>
  "dec_int i = (if i < 0 then CHR ''-'' # dec (nat (- i)) else dec (nat i))"

definition ipc_fifo_path :: "nat \<Rightarrow> role \<Rightarrow> int \<Rightarrow> code + string" where
  "ipc_fifo_path cap r idx =
     (let check = (\<lambda>s. if snprintf_fits cap s then Inr s else Inl IPC_ERROR) in
      case r of
        ROLE_PARENT \<Rightarrow> check ''fifo/parent''
      | ROLE_NODE \<Rightarrow> check (''fifo/node-'' @ dec_int idx)
      | ROLE_MINER \<Rightarrow> check (''fifo/miner-'' @ dec_int idx)
      | ROLE_CLIENT \<Rightarrow> Inl ARGS_ERROR)"

text \<open>
  The capacity a FIFO ends with: the first size the kernel accepts, from 1 MiB halved down to
  64 KiB; \<open>None\<close> when it accepts none and the FIFO keeps its capacity.
\<close>

function grow_from :: "(nat \<Rightarrow> bool) \<Rightarrow> nat \<Rightarrow> nat option" where
  "grow_from accepts sz =
     (if sz < 65536 then None
      else if accepts sz then Some sz else grow_from accepts (sz div 2))"
  by pat_completeness auto
termination
  by (relation "measure snd") auto

declare grow_from.simps [simp del]

definition ipc_grow_fifo :: "(nat \<Rightarrow> bool) \<Rightarrow> nat option" where
  "ipc_grow_fifo accepts = grow_from accepts (1024 * 1024)"

text \<open>
  The answers of the system to the calls that create and open FIFOs: whether a FIFO exists after
  \<open>mkfifo\<close> (created, or \<open>EEXIST\<close>), the descriptor \<open>open\<close> returns for the flags and the path it is
  given, and whether the directory exists after \<open>mkdir\<close>. The state is the set of FIFO files, as a
  list.
\<close>

datatype open_flag = O_RDWR | O_WRONLY | O_NONBLOCK

record kernel =
  dir_ok :: bool
  mkfifo_ok :: "string \<Rightarrow> bool"
  open_fd :: "open_flag set \<Rightarrow> string \<Rightarrow> nat option"

definition create_one :: "kernel \<Rightarrow> role \<times> int \<Rightarrow> string list \<Rightarrow> (nat option) \<times> string list" where
  \<comment> \<open>the body of the loops: the descriptor, if every call worked, and the FIFOs that exist\<close>
  "create_one k t ex =
     (case ipc_fifo_path 256 (fst t) (snd t) of
        Inl _ \<Rightarrow> (None, ex)
      | Inr path \<Rightarrow>
          if \<not> mkfifo_ok k path then (None, ex)
          else (open_fd k {O_RDWR} path, List.insert path ex))"

fun create_each :: "kernel \<Rightarrow> (role \<times> int) list \<Rightarrow> nat list \<Rightarrow> string list \<Rightarrow> code \<times> nat list \<times> string list" where
  "create_each k [] fds ex = (OK, fds, ex)"
| "create_each k (t # ts) fds ex =
     (case create_one k t ex of
        (None, ex') \<Rightarrow> (IPC_ERROR, fds, ex')
      | (Some fd, ex') \<Rightarrow> create_each k ts (fds @ [fd]) ex')"

definition fifo_targets :: "nat \<Rightarrow> nat \<Rightarrow> (role \<times> int) list" where
  "fifo_targets n_nodes n_miner = map (\<lambda>i. (ROLE_NODE, int i)) [0..<n_nodes]
     @ map (\<lambda>i. (ROLE_MINER, int i)) [0..<n_miner] @ [(ROLE_PARENT, 0)]"

definition ipc_create_all :: "kernel \<Rightarrow> nat \<Rightarrow> nat \<Rightarrow> string list \<Rightarrow> code \<times> nat list \<times> string list" where
  "ipc_create_all k n_nodes n_miner ex =
     (if \<not> dir_ok k then (IPC_ERROR, [], ex)
      else create_each k (fifo_targets n_nodes n_miner) [] ex)"

definition unlink_one :: "role \<times> int \<Rightarrow> string list \<Rightarrow> string list" where
  "unlink_one t ex =
     (case ipc_fifo_path 256 (fst t) (snd t) of Inl _ \<Rightarrow> ex | Inr path \<Rightarrow> removeAll path ex)"

definition ipc_unlink_all :: "nat \<Rightarrow> nat \<Rightarrow> string list \<Rightarrow> code \<times> string list" where
  "ipc_unlink_all n_nodes n_miner ex = (OK, fold unlink_one (fifo_targets n_nodes n_miner) ex)"

definition ipc_open_inbox :: "kernel \<Rightarrow> role \<Rightarrow> int \<Rightarrow> bool \<Rightarrow> code + nat" where
  \<comment> \<open>for reading and writing, so that the FIFO never loses its last writer\<close>
  "ipc_open_inbox k r idx nonblock =
     (case ipc_fifo_path 256 r idx of Inl _ \<Rightarrow> Inl IPC_ERROR
      | Inr path \<Rightarrow>
          (let flags = (if nonblock then insert O_NONBLOCK {O_RDWR} else {O_RDWR}) in
           case open_fd k flags path of None \<Rightarrow> Inl IPC_ERROR | Some fd \<Rightarrow> Inr fd))"

definition ipc_open_sender :: "kernel \<Rightarrow> role \<Rightarrow> int \<Rightarrow> code + nat" where
  "ipc_open_sender k r idx =
     (case ipc_fifo_path 256 r idx of Inl _ \<Rightarrow> Inl IPC_ERROR
      | Inr path \<Rightarrow>
          (case open_fd k {O_WRONLY, O_NONBLOCK} path of None \<Rightarrow> Inl IPC_ERROR | Some fd \<Rightarrow> Inr fd))"

subsection \<open>Sending\<close>

datatype errno = EAGAIN | EINTR | EOTHER

text \<open>What \<open>write\<close> and \<open>read\<close> return: a count, or an error.\<close>

datatype io_result = Count nat | Fail errno

definition ipc_send :: "io_result \<Rightarrow> code" where
  \<comment> \<open>\<open>write(fd, m, sizeof *m)\<close> has returned \<open>res\<close>\<close>
  "ipc_send res = (if res = Count sizeof_msg then OK else IPC_ERROR)"

text \<open>
  A FIFO. A non-blocking write of \<open>n \<le> PIPE_BUF = 4096\<close> bytes is atomic: all of it or
  \<open>EAGAIN\<close>; that is why a message is 4088 bytes.
\<close>

record pipe =
  p_bytes :: string
  p_cap :: nat

definition pipe_write :: "pipe \<Rightarrow> string \<Rightarrow> io_result \<times> pipe" where
  "pipe_write p s =
     (if length (p_bytes p) + length s \<le> p_cap p
      then (Count (length s), p\<lparr>p_bytes := p_bytes p @ s\<rparr>) else (Fail EAGAIN, p))"

definition fifo_send :: "pipe \<Rightarrow> msg_t \<Rightarrow> code \<times> pipe" where
  "fifo_send p m = (let (res, p') = pipe_write p (encode m) in (ipc_send res, p'))"

subsection \<open>Receiving\<close>

text \<open>
  The two receive loops differ only in what they answer when \<open>read\<close> gives nothing. \<open>acc\<close> is the
  part of the record filled so far, \<open>counter = length acc\<close>. The system's answers are a list: a
  count \<open>k\<close> moves \<open>k\<close> bytes, but never more than asked for or than there are; when the list
  ends before the loop the call has not returned yet (\<open>None\<close>).
\<close>

definition seal :: "msg_t \<Rightarrow> msg_t" where
  \<comment> \<open>\<open>m->payload[MSG_PAYLOAD_MAX - 1] = '\0'\<close>\<close>
  "seal m = m\<lparr>m_payload := (m_payload m)[MSG_PAYLOAD_MAX - 1 := NUL]\<rparr>"

definition recv_fail :: "io_result \<Rightarrow> nat \<Rightarrow> code" where
  "recv_fail res counter = (if res = Fail EINTR then IPC_INTR else IPC_ERROR)"

definition recv_nb_fail :: "io_result \<Rightarrow> nat \<Rightarrow> code" where
  "recv_nb_fail res counter =
     (if res = Fail EINTR then IPC_INTR
      else if (res = Count 0 \<or> res = Fail EAGAIN) \<and> counter = 0 then IPC_EMPTY else IPC_ERROR)"

fun recv_loop :: "(io_result \<Rightarrow> nat \<Rightarrow> code) \<Rightarrow> io_result list \<Rightarrow> string \<Rightarrow> string
    \<Rightarrow> ((code + msg_t) \<times> string) option" where
  "recv_loop fails answers acc bytes =
     (if length acc \<ge> sizeof_msg then Some (Inr (seal (decode acc)), bytes)
      else case answers of
          [] \<Rightarrow> None
        | Count k # rest \<Rightarrow>
            (let j = min k (min (sizeof_msg - length acc) (length bytes)) in
             if j > 0 then recv_loop fails rest (acc @ take j bytes) (drop j bytes)
             else Some (Inl (fails (Count 0) (length acc)), bytes))
        | Fail e # rest \<Rightarrow> Some (Inl (fails (Fail e) (length acc)), bytes))"

declare recv_loop.simps [simp del]

definition ipc_recv :: "io_result list \<Rightarrow> string \<Rightarrow> ((code + msg_t) \<times> string) option" where
  "ipc_recv answers bytes = recv_loop recv_fail answers [] bytes"

definition ipc_recv_nb :: "io_result list \<Rightarrow> string \<Rightarrow> ((code + msg_t) \<times> string) option" where
  "ipc_recv_nb answers bytes = recv_loop recv_nb_fail answers [] bytes"

text \<open>
  \<open>poll i\<close> is what the \<open>i\<close>-th call of \<open>ipc_recv_nb\<close> returns; the result comes with the number
  of polls made.
\<close>

function recv_until :: "(nat \<Rightarrow> code + msg_t) \<Rightarrow> nat \<Rightarrow> nat \<Rightarrow> nat \<Rightarrow> (code + msg_t) \<times> nat" where
  "recv_until poll i elapsed_ms max_ms =
     (if elapsed_ms < max_ms
      then (case poll i of
              Inr m \<Rightarrow> (Inr m, i + 1)
            | Inl res \<Rightarrow>
                if res = IPC_EMPTY then recv_until poll (i + 1) (elapsed_ms + POLL_NAP_MS) max_ms
                else if res = IPC_INTR then (Inl IPC_INTR, i + 1)
                else (Inl IPC_ERROR, i + 1))
      else (Inl IPC_TIMEOUT, i))"
  by pat_completeness auto
termination
  by (relation "measure (\<lambda>(poll, i, e, m). m - e)") auto

declare recv_until.simps [simp del]

definition ipc_recv_timeout :: "(nat \<Rightarrow> code + msg_t) \<Rightarrow> nat \<Rightarrow> (code + msg_t) \<times> nat" where
  "ipc_recv_timeout poll seconds = recv_until poll 0 0 (seconds * 1000)"

subsection \<open>Signals\<close>

datatype signal = SIGINT | SIGTERM | SIGUSR1 | SIGSTOP | SIGCONT | SIGKILL | SIGCHLD

record flags =
  g_should_stop :: bool
  g_abort_mining :: bool

definition handle_stop :: "flags \<Rightarrow> flags" where
  "handle_stop f = f\<lparr>g_should_stop := True\<rparr>"

definition handle_usr1 :: "flags \<Rightarrow> flags" where
  "handle_usr1 f = f\<lparr>g_abort_mining := True\<rparr>"

text \<open>The handlers a role installs; a signal without one keeps its default action.\<close>

definition ipc_install_handlers :: "role \<Rightarrow> signal \<Rightarrow> (flags \<Rightarrow> flags) option" where
  "ipc_install_handlers r =
     (let h = [SIGINT \<mapsto> handle_stop, SIGTERM \<mapsto> handle_stop]
      in if r = ROLE_MINER then h(SIGUSR1 \<mapsto> handle_usr1) else h)"

definition ipc_signal_pids :: "int list \<Rightarrow> signal \<Rightarrow> code \<times> (int \<times> signal) list" where
  \<comment> \<open>the calls of \<open>kill\<close>, in order; their results are not looked at\<close>
  "ipc_signal_pids pids sig = (OK, map (\<lambda>p. (p, sig)) pids)"

subsection \<open>The FIFO paths\<close>

definition path_of :: "role \<times> int \<Rightarrow> string" where
  "path_of t = (case fst t of ROLE_PARENT \<Rightarrow> ''fifo/parent''
     | ROLE_NODE \<Rightarrow> ''fifo/node-'' @ dec_int (snd t)
     | ROLE_MINER \<Rightarrow> ''fifo/miner-'' @ dec_int (snd t) | ROLE_CLIENT \<Rightarrow> [])"

lemma dec_int_of_nat [simp]: "dec_int (int n) = dec n"
  by (simp add: dec_int_def)

lemma fifo_path_small:
  assumes "r \<noteq> ROLE_CLIENT" "i < 2 ^ 31"
  shows "ipc_fifo_path 256 r (int i) = Inr (path_of (r, int i))"
proof -
  have "length (dec i) \<le> 10" using assms(2) by (intro length_dec) simp_all
  then show ?thesis
    using assms(1) by (cases r) (simp_all add: ipc_fifo_path_def path_of_def snprintf_fits_def Let_def)
qed

lemma set_targets:
  "set (fifo_targets n m) = (\<lambda>i. (ROLE_NODE, int i)) ` {..<n} \<union> (\<lambda>i. (ROLE_MINER, int i)) ` {..<m}
     \<union> {(ROLE_PARENT, 0)}"
  by (auto simp: fifo_targets_def)

lemma length_targets [simp]: "length (fifo_targets n m) = n + m + 1"
  by (simp add: fifo_targets_def)

lemma target_path:
  assumes "t \<in> set (fifo_targets n m)" "n < 2 ^ 31" "m < 2 ^ 31"
  shows "ipc_fifo_path 256 (fst t) (snd t) = Inr (path_of t)"
  using assms fifo_path_small [of _ "_"] fifo_path_small [of ROLE_PARENT 0]
  by (auto simp: set_targets)

lemma distinct_paths: "distinct (map path_of (fifo_targets n m))"
proof -
  have "distinct (fifo_targets n m)"
    by (auto simp: fifo_targets_def distinct_map inj_on_def)
  moreover have "inj_on path_of (set (fifo_targets n m))"
    unfolding set_targets by (auto simp: inj_on_def path_of_def)
  ultimately show ?thesis by (simp add: distinct_map)
qed

lemma create_each_OK:
  "create_each k ts fds ex = (OK, fds', ex') \<Longrightarrow>
    \<forall>t \<in> set ts. ipc_fifo_path 256 (fst t) (snd t) = Inr (path_of t) \<Longrightarrow>
    map Some fds' = map Some fds @ map (\<lambda>t. open_fd k {O_RDWR} (path_of t)) ts
    \<and> set ex' = set ex \<union> path_of ` set ts"
proof (induction ts arbitrary: fds ex)
  case Nil
  then show ?case by simp
next
  case (Cons t ts)
  then show ?case
    by (auto simp: create_one_def split: option.splits if_splits sum.splits)
qed

lemma create_each_fail:
  "create_each k ts fds ex = (r, fds', ex') \<Longrightarrow>
    \<forall>t \<in> set ts. ipc_fifo_path 256 (fst t) (snd t) = Inr (path_of t) \<Longrightarrow>
    (r = OK \<longleftrightarrow> (\<forall>t \<in> set ts. mkfifo_ok k (path_of t) \<and> open_fd k {O_RDWR} (path_of t) \<noteq> None))
    \<and> (r = OK \<or> r = IPC_ERROR) \<and> set ex \<subseteq> set ex' \<and> set ex' \<subseteq> set ex \<union> path_of ` set ts"
proof (induction ts arbitrary: fds ex)
  case Nil
  then show ?case by simp
next
  case (Cons t ts)
  have path: "ipc_fifo_path 256 (fst t) (snd t) = Inr (path_of t)" using Cons.prems(2) by simp
  consider "\<not> mkfifo_ok k (path_of t)" | "mkfifo_ok k (path_of t)" "open_fd k {O_RDWR} (path_of t) = None"
    | fd where "mkfifo_ok k (path_of t)" "open_fd k {O_RDWR} (path_of t) = Some fd" by auto
  then show ?case
  proof cases
    case 3
    then have "create_each k ts (fds @ [fd]) (List.insert (path_of t) ex) = (r, fds', ex')"
      using Cons.prems(1) path by (simp add: create_one_def)
    from Cons.IH [OF this] Cons.prems(2) 3 show ?thesis by auto
  qed (use Cons.prems(1) path in \<open>auto simp: create_one_def\<close>)
qed

lemma unlink_fold:
  "\<forall>t \<in> set ts. ipc_fifo_path 256 (fst t) (snd t) = Inr (path_of t) \<Longrightarrow>
    set (fold unlink_one ts ex) = set ex - path_of ` set ts"
  by (induction ts arbitrary: ex) (auto simp: unlink_one_def)

lemma grow_from_choice:
  "grow_from accepts sz = Some c \<Longrightarrow> accepts c \<and> 65536 \<le> c \<and> c \<le> sz"
proof (induction accepts sz rule: grow_from.induct)
  case (1 accepts sz)
  consider "sz < 65536" | "\<not> sz < 65536" "accepts sz" | "\<not> sz < 65536" "\<not> accepts sz" by blast
  then show ?case
  proof cases
    case 3
    then have "grow_from accepts (sz div 2) = Some c" using 1(2) by (simp add: grow_from.simps [of _ sz])
    with 1(1) [OF 3] show ?thesis by (meson div_le_dividend order_trans)
  qed (use 1(2) in \<open>simp_all add: grow_from.simps [of _ sz]\<close>)
qed

subsection \<open>Receiving a whole message\<close>

lemma recv_loop_done: "length acc \<ge> 4088 \<Longrightarrow> recv_loop f answers acc bytes = Some (Inr (seal (decode acc)), bytes)"
  by (simp add: recv_loop.simps [of f answers])

text \<open>However the kernel splits the bytes among the calls of \<open>read\<close>.\<close>

lemma recv_loop_counts:
  assumes "\<forall>k \<in> set ks. 0 < k" "4088 \<le> length acc + sum_list ks" "length acc \<le> 4088"
    "4088 \<le> length acc + length bytes"
  shows "recv_loop f (map Count ks) acc bytes
    = Some (Inr (seal (decode (take 4088 (acc @ bytes)))), drop (4088 - length acc) bytes)"
  using assms
proof (induction ks arbitrary: acc bytes)
  case Nil
  then have "length acc = 4088" by simp
  then show ?case by (simp add: recv_loop_done)
next
  case (Cons k ks)
  show ?case
  proof (cases "length acc = 4088")
    case True
    then show ?thesis by (simp add: recv_loop_done)
  next
    case False
    define j where "j = min k (min (4088 - length acc) (length bytes))"
    have j: "0 < j" "j \<le> k" "j \<le> 4088 - length acc" "j \<le> length bytes"
      using Cons.prems False by (auto simp: j_def)
    have short: "length acc < 4088" using Cons.prems(3) False by simp
    have step: "recv_loop f (map Count (k # ks)) acc bytes
        = recv_loop f (map Count ks) (acc @ take j bytes) (drop j bytes)"
      using short j(1) by (simp add: recv_loop.simps [of f "_ # _"] Let_def j_def [symmetric])
    have enough: "4088 \<le> length (acc @ take j bytes) + sum_list ks"
    proof (cases "j = k")
      case True
      then show ?thesis using Cons.prems(2) j(4) by simp
    next
      case False
      then have "j = 4088 - length acc" using Cons.prems(4) by (auto simp: j_def)
      then show ?thesis using j(4) short by simp
    qed
    have "recv_loop f (map Count ks) (acc @ take j bytes) (drop j bytes)
      = Some (Inr (seal (decode (take 4088 ((acc @ take j bytes) @ drop j bytes)))),
          drop (4088 - length (acc @ take j bytes)) (drop j bytes))"
      using Cons.prems(1,3,4) j short by (intro Cons.IH enough) auto
    then show ?thesis unfolding step using j short by simp
  qed
qed

subsection \<open>Waiting with a time limit\<close>

definition settled :: "code + msg_t \<Rightarrow> code + msg_t" where
  "settled res = (case res of Inr m \<Rightarrow> Inr m
     | Inl r \<Rightarrow> Inl (if r = IPC_INTR then IPC_INTR else IPC_ERROR))"

lemma recv_until_timeout:
  "i \<le> 20 * s \<Longrightarrow> \<forall>j. i \<le> j \<and> j < 20 * s \<longrightarrow> poll j = Inl IPC_EMPTY \<Longrightarrow>
    recv_until poll i (50 * i) (s * 1000) = (Inl IPC_TIMEOUT, 20 * s)"
proof (induction "20 * s - i" arbitrary: i)
  case 0
  then show ?case by (simp add: recv_until.simps [of _ i])
next
  case (Suc n)
  then have "recv_until poll (i + 1) (50 * (i + 1)) (s * 1000) = (Inl IPC_TIMEOUT, 20 * s)"
    by (intro Suc.hyps(1)) auto
  moreover have "i < 20 * s" "poll i = Inl IPC_EMPTY" using Suc.hyps(2) Suc.prems by auto
  ultimately show ?case by (simp add: recv_until.simps [of _ i] add.commute)
qed

lemma recv_until_first:
  "i \<le> j \<Longrightarrow> j < 20 * s \<Longrightarrow> \<forall>k. i \<le> k \<and> k < j \<longrightarrow> poll k = Inl IPC_EMPTY \<Longrightarrow>
    poll j \<noteq> Inl IPC_EMPTY \<Longrightarrow> recv_until poll i (50 * i) (s * 1000) = (settled (poll j), j + 1)"
proof (induction "j - i" arbitrary: i)
  case 0
  then show ?case
    by (cases "poll j") (simp_all add: recv_until.simps [of _ i] settled_def)
next
  case (Suc n)
  then have "recv_until poll (i + 1) (50 * (i + 1)) (s * 1000) = (settled (poll j), j + 1)"
    by (intro Suc.hyps(1)) auto
  moreover have "i < 20 * s" "poll i = Inl IPC_EMPTY" using Suc.hyps(2) Suc.prems by auto
  ultimately show ?case by (simp add: recv_until.simps [of _ i] add.commute)
qed

subsection \<open>The interface of a channel\<close>

text \<open>What a sender and a receiver rely on; the receiver never waits.\<close>

fun sends :: "('s \<Rightarrow> msg_t \<Rightarrow> code \<times> 's) \<Rightarrow> msg_t list \<Rightarrow> 's \<Rightarrow> code list \<times> 's" where
  "sends snd_msg [] s = ([], s)"
| "sends snd_msg (m # ms) s =
     (let (r, s') = snd_msg s m; (rs, s'') = sends snd_msg ms s' in (r # rs, s''))"

fun drain :: "('s \<Rightarrow> (code + msg_t) \<times> 's) \<Rightarrow> nat \<Rightarrow> 's \<Rightarrow> msg_t list \<times> 's" where
  \<comment> \<open>\<open>while (recv(...) == OK)\<close>, at most \<open>n\<close> times\<close>
  "drain rcv 0 s = ([], s)"
| "drain rcv (Suc n) s =
     (case rcv s of (Inl _, s') \<Rightarrow> ([], s')
      | (Inr m, s') \<Rightarrow> (let (ms, s'') = drain rcv n s' in (m # ms, s'')))"

locale channel =
  fixes send :: "'s \<Rightarrow> msg_t \<Rightarrow> code \<times> 's"
    and recv :: "'s \<Rightarrow> (code + msg_t) \<times> 's"
    and contents :: "'s \<Rightarrow> msg_t list"
    and inv :: "'s \<Rightarrow> bool"
  assumes send_law: "inv s \<Longrightarrow> wf_msg m \<Longrightarrow> send s m = (r, s') \<Longrightarrow>
      inv s' \<and> (r = OK \<and> contents s' = contents s @ [seal m] \<or> r = IPC_ERROR \<and> s' = s)"
    and recv_empty: "inv s \<Longrightarrow> contents s = [] \<Longrightarrow> recv s = (Inl IPC_EMPTY, s)"
    and recv_first: "inv s \<Longrightarrow> contents s = m # ms \<Longrightarrow>
      \<exists>s'. recv s = (Inr m, s') \<and> inv s' \<and> contents s' = ms"
begin

text \<open>A full channel drops the message and keeps the ones it has.\<close>

lemma sends_contents:
  "inv s \<Longrightarrow> \<forall>m \<in> set ms. wf_msg m \<Longrightarrow> sends send ms s = (rs, s') \<Longrightarrow>
    inv s' \<and> length rs = length ms
    \<and> contents s' = contents s @ map seal (map snd (filter (\<lambda>(r, m). r = OK) (zip rs ms)))"
proof (induction ms arbitrary: s rs)
  case Nil
  then show ?case by simp
next
  case (Cons m ms)
  obtain r s1 where one: "send s m = (r, s1)" by fastforce
  obtain rs' s2 where rest: "sends send ms s1 = (rs', s2)" by fastforce
  have "wf_msg m" "\<forall>m \<in> set ms. wf_msg m" using Cons.prems(2) by simp_all
  note law = send_law [OF Cons.prems(1) this(1) one]
  have "rs = r # rs'" "s' = s2" using Cons.prems(3) one rest by simp_all
  with Cons.IH [of s1 rs'] Cons.prems(2) rest law show ?case by auto
qed

lemma drain_contents:
  "inv s \<Longrightarrow> length (contents s) < n \<Longrightarrow>
    \<exists>s'. drain recv n s = (contents s, s') \<and> inv s' \<and> contents s' = []"
proof (induction n arbitrary: s)
  case 0
  then show ?case by simp
next
  case (Suc n)
  show ?case
  proof (cases "contents s")
    case Nil
    then show ?thesis using recv_empty [OF Suc.prems(1)] Suc.prems(1) by simp
  next
    case (Cons m ms)
    then obtain s1 where s1: "recv s = (Inr m, s1)" "inv s1" "contents s1 = ms"
      using recv_first [OF Suc.prems(1)] by blast
    moreover have "length (contents s1) < n" using Suc.prems(2) Cons s1(3) by simp
    ultimately show ?thesis using Suc.IH [OF s1(2)] Cons by auto
  qed
qed

end

subsection \<open>The FIFO is a channel\<close>

definition fifo_recv_nb :: "pipe \<Rightarrow> (code + msg_t) \<times> pipe" where
  \<comment> \<open>a non-blocking \<open>read\<close> hands over what there is, and answers \<open>EAGAIN\<close> when there is nothing\<close>
  "fifo_recv_nb p =
     (let res = (if p_bytes p = [] then Fail EAGAIN else Count (length (p_bytes p))) in
      case ipc_recv_nb [res] (p_bytes p) of
        Some (r, bytes) \<Rightarrow> (r, p\<lparr>p_bytes := bytes\<rparr>)
      | None \<Rightarrow> (Inl IPC_ERROR, p))"

function messages :: "string \<Rightarrow> msg_t list" where
  "messages bytes =
     (if length bytes < 4088 then [] else seal (decode (take 4088 bytes)) # messages (drop 4088 bytes))"
  by pat_completeness auto
termination
  by (relation "measure length") auto

declare messages.simps [simp del]

definition pipe_inv :: "pipe \<Rightarrow> bool" where
  "pipe_inv p \<longleftrightarrow> length (p_bytes p) mod 4088 = 0"

lemma messages_Nil [simp]: "messages [] = []"
  by (simp add: messages.simps [of "[]"])

lemma messages_append:
  "length bytes mod 4088 = 0 \<Longrightarrow> length s = 4088 \<Longrightarrow>
    messages (bytes @ s) = messages bytes @ [seal (decode s)]"
proof (induction bytes rule: messages.induct)
  case (1 bytes)
  show ?case
  proof (cases "length bytes < 4088")
    case True
    with 1(2) have "bytes = []" by simp
    with 1(3) show ?thesis by (simp add: messages.simps [of s])
  next
    case False
    then have "(length bytes - 4088) mod 4088 = 0" using 1(2) le_mod_geq [of 4088 "length bytes"] by simp
    with 1 False show ?thesis
      by (simp add: messages.simps [of bytes] messages.simps [of "bytes @ s"])
  qed
qed

interpretation fifo: channel fifo_send fifo_recv_nb "\<lambda>p. messages (p_bytes p)" pipe_inv
proof (unfold_locales, goal_cases)
  case (1 p m r p')
  then show ?case
    by (auto simp: fifo_send_def pipe_write_def ipc_send_def pipe_inv_def messages_append
        split: if_splits)
next
  case (2 p)
  then have "length (p_bytes p) < 4088"
    by (auto simp: messages.simps [of "p_bytes p"] split: if_splits)
  with 2 have "p_bytes p = []" by (simp add: pipe_inv_def)
  then show ?case
    by (simp add: fifo_recv_nb_def ipc_recv_nb_def recv_loop.simps [of _ "[_]"] recv_nb_fail_def)
next
  case (3 p m ms)
  then have len: "4088 \<le> length (p_bytes p)" and m: "m = seal (decode (take 4088 (p_bytes p)))"
    and ms: "ms = messages (drop 4088 (p_bytes p))"
    by (auto simp: messages.simps [of "p_bytes p"] split: if_splits)
  then have nonempty: "p_bytes p \<noteq> []" by auto
  moreover have "ipc_recv_nb [Count (length (p_bytes p))] (p_bytes p)
      = Some (Inr m, drop 4088 (p_bytes p))"
    using recv_loop_counts [of "[length (p_bytes p)]" "[]" "p_bytes p" recv_nb_fail] len m nonempty
    by (simp add: ipc_recv_nb_def)
  ultimately have "fifo_recv_nb p = (Inr m, p\<lparr>p_bytes := drop 4088 (p_bytes p)\<rparr>)"
    by (simp add: fifo_recv_nb_def)
  moreover have "(length (p_bytes p) - 4088) mod 4088 = 0"
    using 3(1) len le_mod_geq [of 4088 "length (p_bytes p)"] by (simp add: pipe_inv_def)
  ultimately show ?case using ms by (simp add: pipe_inv_def)
qed

subsection \<open>Properties\<close>

definition hello :: msg_t where
  "hello = zero_msg\<lparr>m_type := type_code MSG_CHAIN_REQUEST, m_role := 1, m_payload := fill ''ALL''\<rparr>"

lemma wf_hello [simp]: "wf_msg hello"
  by (simp add: hello_def wf_msg_def)

text \<open>C19: a message written to a FIFO is read back whole, with its payload terminated, by the blocking
  and by the non-blocking receive, however the kernel splits its 4088 bytes among the calls of
  \<open>read\<close>, and what was written behind it stays in the FIFO.\<close>

theorem recv_whole_message:
  assumes "wf_msg m" "\<forall>k \<in> set ks. 0 < k" "sizeof_msg \<le> sum_list ks"
  shows "ipc_recv (map Count ks) (encode m @ rest) = Some (Inr (seal m), rest)
    \<and> ipc_recv_nb (map Count ks) (encode m @ rest) = Some (Inr (seal m), rest)"
  using recv_loop_counts [of ks "[]" "encode m @ rest"] assms
  by (simp add: ipc_recv_def ipc_recv_nb_def)

theorem recv_whole_message_witness:
  "ipc_recv (map Count [1000, 1, 3087]) (encode hello @ ''x'') = Some (Inr (seal hello), ''x'')"
  using recv_whole_message [of hello "[1000, 1, 3087]" "''x''"] by simp

text \<open>C22: messages come out of a FIFO in the order they went in. Sending any list of messages to an
  empty FIFO and then reading until it is empty gives exactly the messages whose send returned
  \<open>OK\<close>; a send that finds no room drops its message alone.\<close>

theorem fifo_order:
  assumes "\<forall>m \<in> set ms. wf_msg m" "p_bytes p = []" "sends fifo_send ms p = (rs, p')"
    "length ms < n"
  shows "fst (drain fifo_recv_nb n p') = map seal (map snd (filter (\<lambda>(r, m). r = OK) (zip rs ms)))"
proof -
  have inv: "pipe_inv p" using assms(2) by (simp add: pipe_inv_def)
  note sent = fifo.sends_contents [OF inv assms(1,3)]
  let ?got = "filter (\<lambda>(r, m). r = OK) (zip rs ms)"
  have "length ?got \<le> length (zip rs ms)" by (rule length_filter_le)
  then have "length (messages (p_bytes p')) < n"
    using sent assms(2,4) by simp
  with fifo.drain_contents [of p' n] sent assms(2) show ?thesis by auto
qed

theorem fifo_order_witness:
  "fst (drain fifo_recv_nb 3 (snd (sends fifo_send [hello, hello] \<lparr>p_bytes = [], p_cap = 5000\<rparr>)))
    = [seal hello]"
proof -
  have s: "sends fifo_send [hello, hello] \<lparr>p_bytes = [], p_cap = 5000\<rparr>
      = ([OK, IPC_ERROR], \<lparr>p_bytes = encode hello, p_cap = 5000\<rparr>)"
    by (simp add: fifo_send_def pipe_write_def ipc_send_def)
  show ?thesis using fifo_order [OF _ _ s, of 3] s by simp
qed

text \<open>C23: \<open>ipc_recv_timeout\<close> always returns, after at most 20 polls per second: with
  \<open>IPC_TIMEOUT\<close> exactly when every poll found the inbox empty, otherwise with the outcome of the
  first poll that did not.\<close>

theorem recv_timeout_bounded:
  "(if \<forall>j < 20 * s. poll j = Inl IPC_EMPTY then ipc_recv_timeout poll s = (Inl IPC_TIMEOUT, 20 * s)
    else (let j = (LEAST j. poll j \<noteq> Inl IPC_EMPTY) in
          j < 20 * s \<and> ipc_recv_timeout poll s = (settled (poll j), j + 1)))"
proof (cases "\<forall>j < 20 * s. poll j = Inl IPC_EMPTY")
  case True
  then show ?thesis using recv_until_timeout [of 0 s poll] by (simp add: ipc_recv_timeout_def)
next
  case False
  define j where "j = (LEAST j. poll j \<noteq> Inl IPC_EMPTY)"
  from False obtain i where i: "i < 20 * s" "poll i \<noteq> Inl IPC_EMPTY" by blast
  have "poll j \<noteq> Inl IPC_EMPTY" unfolding j_def by (rule LeastI [of _ i]) (rule i(2))
  moreover have "j \<le> i" unfolding j_def by (rule Least_le) (rule i(2))
  moreover have "\<forall>k < j. poll k = Inl IPC_EMPTY" unfolding j_def using not_less_Least by blast
  ultimately have "j < 20 * s \<and> ipc_recv_timeout poll s = (settled (poll j), j + 1)"
    using i(1) recv_until_first [of 0 j s poll] by (simp add: ipc_recv_timeout_def)
  then show ?thesis unfolding if_not_P [OF False] Let_def j_def [symmetric] .
qed

theorem recv_timeout_bounded_witness:
  "ipc_recv_timeout (\<lambda>j. Inl IPC_EMPTY) 2 = (Inl IPC_TIMEOUT, 40)"
  using recv_timeout_bounded [of 2 "\<lambda>j. Inl IPC_EMPTY"] by simp

text \<open>Creating the FIFOs succeeds exactly when every system call does; it then gives one
  descriptor per node, per miner and for the parent, in this order, each with a FIFO of its own,
  and removing them later removes exactly these files.\<close>

theorem create_and_unlink:
  assumes "n < 2 ^ 31" "m < 2 ^ 31" "ipc_create_all k n m ex = (r, fds, ex')"
  shows "(r = OK \<longleftrightarrow> dir_ok k \<and> (\<forall>t \<in> set (fifo_targets n m).
        mkfifo_ok k (path_of t) \<and> open_fd k {O_RDWR} (path_of t) \<noteq> None))
    \<and> (r = OK \<longrightarrow> map Some fds = map (\<lambda>t. open_fd k {O_RDWR} (path_of t)) (fifo_targets n m)
        \<and> length fds = n + m + 1 \<and> distinct (map path_of (fifo_targets n m))
        \<and> path_of ` set (fifo_targets n m) \<subseteq> set ex')
    \<and> set (snd (ipc_unlink_all n m ex')) = set ex' - path_of ` set (fifo_targets n m)"
proof -
  have paths: "\<forall>t \<in> set (fifo_targets n m). ipc_fifo_path 256 (fst t) (snd t) = Inr (path_of t)"
    using target_path assms(1,2) by blast
  have un: "set (snd (ipc_unlink_all n m ex')) = set ex' - path_of ` set (fifo_targets n m)"
    using unlink_fold [OF paths] by (simp add: ipc_unlink_all_def)
  show ?thesis
  proof (cases "dir_ok k")
    case False
    then show ?thesis using assms(3) un by (auto simp: ipc_create_all_def)
  next
    case True
    then have each: "create_each k (fifo_targets n m) [] ex = (r, fds, ex')"
      using assms(3) by (simp add: ipc_create_all_def)
    have "r = OK \<Longrightarrow> map Some fds = map (\<lambda>t. open_fd k {O_RDWR} (path_of t)) (fifo_targets n m)
        \<and> set ex' = set ex \<union> path_of ` set (fifo_targets n m)"
      using create_each_OK [of k _ "[]" ex fds ex'] each paths by simp
    moreover from this have "r = OK \<Longrightarrow> length fds = n + m + 1" by (metis length_map length_targets)
    ultimately show ?thesis using create_each_fail [OF each paths] True un distinct_paths by auto
  qed
qed

theorem create_and_unlink_witness:
  "\<exists>fds ex'. ipc_create_all \<lparr>dir_ok = True, mkfifo_ok = (\<lambda>p. True), open_fd = (\<lambda>fl p. Some 7)\<rparr> 3 2 []
      = (OK, fds, ex') \<and> length fds = 6 \<and> set (snd (ipc_unlink_all 3 2 ex')) = set ex' - path_of ` set (fifo_targets 3 2)"
proof -
  let ?k = "\<lparr>dir_ok = True, mkfifo_ok = (\<lambda>p. True), open_fd = (\<lambda>fl p. Some 7)\<rparr>"
  obtain r fds ex' where c: "ipc_create_all ?k 3 2 [] = (r, fds, ex')" by (metis prod_cases3)
  note F = create_and_unlink [OF _ _ c]
  have "r = OK" using F by simp
  then show ?thesis using F c by auto
qed

end
