(* ===== verification/Logging.thy ===== *)
theory Logging
  imports Ipc
begin

section \<open>The log files (logging.c)\<close>

text \<open>
  Opening the log of a process, the line a call of \<open>log_msg\<close> writes, and closing. The time
  stamp is the text \<open>strftime\<close> gives, at most 49 bytes.
\<close>

datatype log_level = LOG_INFO | LOG_WARNING | LOG_ERROR

record logger =
  log_fd :: "nat option"
  log_role :: string
  log_pid :: int

definition log_closed :: logger where
  "log_closed = \<lparr>log_fd = None, log_role = [], log_pid = 0\<rparr>"

text \<open>\<open>dir_there\<close>: the directory exists after \<open>mkdir\<close>; \<open>opened\<close>: what \<open>open\<close> answers for a path.\<close>

definition log_init :: "bool \<Rightarrow> (string \<Rightarrow> nat option) \<Rightarrow> int \<Rightarrow> string \<Rightarrow> logger \<Rightarrow> code \<times> logger" where
  "log_init dir_there opened pid r L =
     (if \<not> dir_there then (FILE_ERROR, L) else
      let L1 = L\<lparr>log_role := snprintf_out 20 r, log_pid := pid\<rparr>;
          filepath = snprintf_out 256 (''logs/'' @ r @ ''-'' @ dec_int pid @ ''.log'')
      in case opened filepath of
           None \<Rightarrow> (FILE_ERROR, L1\<lparr>log_fd := None\<rparr>)
         | Some fd \<Rightarrow> (OK, L1\<lparr>log_fd := Some fd\<rparr>))"

fun level_name :: "log_level \<Rightarrow> string" where
  "level_name LOG_INFO = ''INFO''"
| "level_name LOG_WARNING = ''WARNING''"
| "level_name LOG_ERROR = ''ERROR''"

definition log_msg :: "logger \<Rightarrow> string \<Rightarrow> log_level \<Rightarrow> string \<Rightarrow> string option" where
  \<comment> \<open>the bytes of the one \<open>write\<close>, \<open>None\<close> before \<open>log_init\<close>\<close>
  "log_msg L timestamp level msg =
     (if log_fd L = None then None
      else Some (snprintf_out 1024 (''['' @ timestamp @ ''] ['' @ log_role L @ '' '' @ dec_int (log_pid L)
        @ ''] '' @ level_name level @ '': '' @ msg @ [LF])))"

definition log_close :: "logger \<Rightarrow> logger" where
  "log_close L = (if log_fd L \<noteq> None then L\<lparr>log_fd := None\<rparr> else L)"

subsection \<open>Facts\<close>

lemma log_init_OK:
  "fst (log_init d opened pid r L) = OK \<longleftrightarrow>
     d \<and> opened (snprintf_out 256 (''logs/'' @ r @ ''-'' @ dec_int pid @ ''.log'')) \<noteq> None"
  by (auto simp: log_init_def Let_def split: option.splits)

lemma length_dec_int: "- (2 ^ 31) \<le> i \<Longrightarrow> i < 2 ^ 31 \<Longrightarrow> length (dec_int i) \<le> 11"
  using length_dec [of "nat i" 10] length_dec [of "nat (- i)" 10]
  by (auto simp: dec_int_def nat_less_iff)

text \<open>
  A line is one \<open>write\<close> of less than 1024 bytes; a message of up to 900 bytes is never cut and
  ends the line, a longer one loses its end and with it the line feed.
\<close>

lemma log_msg_whole:
  assumes "log_fd L = Some fd" "length (log_role L) \<le> 19" "- (2 ^ 31) \<le> log_pid L" "log_pid L < 2 ^ 31"
    "length timestamp \<le> 49" "length msg \<le> 900"
  shows "log_msg L timestamp level msg = Some (''['' @ timestamp @ ''] ['' @ log_role L @ '' ''
    @ dec_int (log_pid L) @ ''] '' @ level_name level @ '': '' @ msg @ [LF])"
proof -
  have "length (dec_int (log_pid L)) \<le> 11" using length_dec_int assms(3,4) by blast
  moreover have "length (level_name level) \<le> 7" by (cases level) simp_all
  ultimately show ?thesis using assms by (simp add: log_msg_def snprintf_out_def)
qed

lemma log_msg_bounded: "log_msg L timestamp level msg = Some l \<Longrightarrow> length l < 1024"
  by (auto simp: log_msg_def snprintf_out_def split: if_splits)

end
