(* ===== verification/Node.thy ===== *)
theory Node
  imports Csv Logging Transaction
begin

section \<open>The node process (node.c)\<close>

text \<open>
  A node keeps a chain, a ring of the hashes it has seen, and a second chain while it recovers.
  Each handler is a function from the state and a received message to the new state and the
  list of what it does to the outside: messages sent and signals. What the outside answers during
  one handler (memory, file system, clock, which sends succeed) is the record \<open>outside\<close>.
\<close>

subsection \<open>Data\<close>

record node_cfg =
  g_idx :: int
  g_num_nodes :: int
  g_num_miners :: int
  g_miner_pids :: "int list"
  g_bootstrap_csv :: string

definition g_snapshot_path :: "node_cfg \<Rightarrow> string" where
  "g_snapshot_path C = snprintf_out MAX_PATH_LEN (''chain-node-'' @ dec_int (g_idx C) @ ''.csv'')"

record node =
  g_chain :: chain_t
  g_seen :: "string list"
  g_seen_pos :: nat
  g_seen_count :: nat
  g_recovery :: chain_t
  g_recovering :: bool
  g_recovery_started :: int
  g_last_request :: int
  n_files :: files

datatype dest = To_node nat | To_miner nat | To_parent

text \<open>\<open>Wild_fd n\<close> is the read of \<open>g_fd_node[n]\<close> for an \<open>n\<close> outside the array.\<close>

datatype effect = Send dest msg_t | Kill int signal | Wild_fd nat

record outside =
  o_env :: env
  o_io :: io
  o_now :: int
  o_sent :: "dest \<Rightarrow> bool"

abbreviation (input) SEEN_MAX :: nat where "SEEN_MAX \<equiv> 64"

subsection \<open>Arguments\<close>

definition node_parse_args :: "string list \<Rightarrow> code + node_cfg" where
  "node_parse_args argv =
     (let argc = length argv in
      if argc < 5 then Inl ARGS_ERROR else
      let idx = atoi (argv ! 1); num_nodes = atoi (argv ! 2); num_miners = atoi (argv ! 3) in
      if num_miners \<noteq> int argc - 5 \<or> idx < 0 \<or> idx \<ge> num_nodes \<or> num_nodes < 1
         \<or> num_nodes > int MAX_NODES \<or> num_miners < 1 \<or> num_miners > int MAX_MINERS
      then Inl ARGS_ERROR else
      let pids = map (\<lambda>i. atoi (argv ! (i + 5))) [0..<nat num_miners] in
      if list_ex (\<lambda>p. p \<le> 0) pids then Inl ARGS_ERROR
      else Inr \<lparr>g_idx = idx, g_num_nodes = num_nodes, g_num_miners = num_miners,
                g_miner_pids = pids, g_bootstrap_csv = take (MAX_PATH_LEN - 1) (argv ! 4)\<rparr>)"

subsection \<open>The ring of seen hashes\<close>

definition seen_contains :: "node \<Rightarrow> string \<Rightarrow> bool" where
  "seen_contains s hash = list_ex (\<lambda>i. strcmp hash (g_seen s ! i) = 0) [0..<g_seen_count s]"

definition seen_add :: "node \<Rightarrow> string \<Rightarrow> node" where
  "seen_add s hash =
     (let s' = s\<lparr>g_seen := (g_seen s)[g_seen_pos s := snprintf_out (HASH_HEX_LEN + 1) hash],
                 g_seen_pos := (g_seen_pos s + 1) mod SEEN_MAX\<rparr>
      in if g_seen_count s < SEEN_MAX then s'\<lparr>g_seen_count := g_seen_count s + 1\<rparr> else s')"

subsection \<open>Whom to ask and whom to answer\<close>

text \<open>\<open>(int)m->sender_idx\<close>\<close>

abbreviation int_idx :: "msg_t \<Rightarrow> int" where "int_idx m \<equiv> sint (m_idx m)"

definition recovery_peer :: "node_cfg \<Rightarrow> msg_t \<Rightarrow> int" where
  "recovery_peer C m =
     (if m_role m = role_code ROLE_NODE \<and> int_idx m < g_num_nodes C \<and> int_idx m \<noteq> g_idx C
      then int_idx m
      else if g_num_nodes C < 2 then - 1
      else if g_idx C = 0 then 1 else 0)"

definition reply_to :: "node_cfg \<Rightarrow> msg_t \<Rightarrow> msg_t \<Rightarrow> effect list" where
  "reply_to C req rep0 =
     (let rep = rep0\<lparr>m_role := role_code ROLE_NODE, m_idx := of_int (g_idx C)\<rparr> in
      if m_role req = role_code ROLE_PARENT then [Send To_parent rep]
      else if m_role req = role_code ROLE_NODE then
        (if int_idx req = g_idx C \<or> int_idx req \<ge> g_num_nodes C then []
         else if unat (m_idx req) < MAX_NODES then [Send (To_node (unat (m_idx req))) rep]
         else [Wild_fd (unat (m_idx req))])
      else [])"

subsection \<open>handle\_block\<close>

definition gossip :: "node_cfg \<Rightarrow> msg_t \<Rightarrow> effect list" where
  \<comment> \<open>to the other nodes under our name, to the miners as it came, then the signals\<close>
  "gossip C m =
     (let fwd = m\<lparr>m_role := role_code ROLE_NODE, m_idx := of_int (g_idx C)\<rparr>
      in map (\<lambda>i. Send (To_node i) fwd) (filter (\<lambda>i. int i \<noteq> g_idx C) [0..<nat (g_num_nodes C)])
         @ map (\<lambda>j. Send (To_miner j) m) [0..<nat (g_num_miners C)]
         @ map (\<lambda>(p, sig). Kill p sig)
             (snd (ipc_signal_pids (take (nat (g_num_miners C)) (g_miner_pids C)) SIGUSR1)))"

definition request_chain :: "node_cfg \<Rightarrow> outside \<Rightarrow> node \<Rightarrow> msg_t \<Rightarrow> node \<times> effect list" where
  \<comment> \<open>the case \<open>APPEND_AHEAD\<close>\<close>
  "request_chain C e s m =
     (let now = o_now e in
      if g_recovering s \<or> now - g_last_request s < int REPLY_TIMEOUT_S then (s, [])
      else let peer = recovery_peer C m in
      if peer < 0 then (s, [])
      else let req = zero_msg\<lparr>m_type := type_code MSG_CHAIN_REQUEST, m_role := role_code ROLE_NODE,
                 m_idx := of_int (g_idx C), m_len := 3, m_payload := fill ''ALL''\<rparr>;
               to = To_node (nat peer)
      in if \<not> o_sent e to then (s, [Send to req])
         else (s\<lparr>g_last_request := now\<rparr>, [Send to req]))"

definition handle_block :: "node_cfg \<Rightarrow> outside \<Rightarrow> node \<Rightarrow> msg_t \<Rightarrow> node \<times> effect list" where
  "handle_block C e s m =
     (case block_from_csv_row (payload m) of Inl _ \<Rightarrow> (s, []) | Inr b \<Rightarrow>
      case block_hash (mem (o_env e)) b of Inl _ \<Rightarrow> (s, []) | Inr h \<Rightarrow>
      if seen_contains s h then (s, [])
      else (let (res, chain) = chain_append (o_env e) (g_chain s) b; s1 = s\<lparr>g_chain := chain\<rparr> in
        if res = APPEND_OK \<or> res = APPEND_REPLACED then
          (let (r, fs) = csv_save (o_io e) (n_files s1) (g_snapshot_path C) (g_chain s1);
               s2 = s1\<lparr>n_files := fs\<rparr>
           in if r \<noteq> OK then (s2, []) else (seen_add s2 h, gossip C m))
        else if res = APPEND_DUP then (seen_add s1 h, [])
        else if res = APPEND_AHEAD then request_chain C e s1 m
        else (s1, [])))"

subsection \<open>handle\_chain\_request\<close>

definition error_reply :: "string \<Rightarrow> msg_t" where
  "error_reply t = zero_msg\<lparr>m_type := type_code MSG_REPLY, m_last := 1,
     m_len := of_nat (length (cstr (fill t))), m_payload := fill t\<rparr>"

definition piece :: "u32 \<Rightarrow> bool \<Rightarrow> string \<Rightarrow> msg_t" where
  "piece seq is_last cur = zero_msg\<lparr>m_type := type_code MSG_REPLY, m_seq := seq,
     m_last := (if is_last then 1 else 0), m_len := of_nat (length cur), m_payload := fill cur\<rparr>"

text \<open>
  The loop over the blocks: \<open>cur\<close> is the text of the piece being filled, and \<open>row_buf\<close> the row
  buffer, which keeps its contents when a row cannot be written.
\<close>

fun fragments :: "block_t list \<Rightarrow> u32 \<Rightarrow> string \<Rightarrow> string \<Rightarrow> msg_t list" where
  "fragments [] seq cur row_buf = [piece seq True cur]"
| "fragments (b # bs) seq cur row_buf =
     (let row = snd (block_to_csv_row b row_buf MAX_CSV_ROW_LEN);
          put = (\<lambda>c. c @ snprintf_out (MSG_PAYLOAD_MAX - length c) (row @ [LF]))
      in if length cur + length row + 1 \<ge> MSG_PAYLOAD_MAX - 1
         then piece seq False cur # fragments bs (seq + 1) (put []) row
         else fragments bs seq (put cur) row)"

definition start_index :: "allocator \<Rightarrow> chain_t \<Rightarrow> string \<Rightarrow> string + nat" where
  \<comment> \<open>the text of the error reply, or the first block to send\<close>
  "start_index M c req =
     (if starts_with ''INDEX '' req then
        (let arg = drop 6 req; (parsed, used) = strtoull10 arg in
         if used = 0 \<or> drop used arg \<noteq> [] \<or> take 1 arg = ''-''
         then Inl (''ERR:ARGS_ERROR: '' @ [CHR 0x27] @ arg @ [CHR 0x27] @ '' is not a valid index'')
         else Inr (unat parsed))
      else if starts_with ''HASH '' req then
        (case chain_find_hash M c (drop 5 req) of
           None \<Rightarrow> Inl ''ERR:BLOCK_NOT_FOUND: no block with that hash''
         | Some b \<Rightarrow> Inr (unat (b_index b)))
      else Inr 0)"

definition no_block_text :: "nat \<Rightarrow> nat \<Rightarrow> string" where
  "no_block_text start len =
     (if len = 0 then ''ERR:BLOCK_NOT_FOUND: the chain is empty''
      else ''ERR:BLOCK_NOT_FOUND: no block at index '' @ dec start @ '', the chain has '' @ dec len
        @ '' blocks (0 to '' @ dec (len - 1) @ '')'')"

definition handle_chain_request :: "node_cfg \<Rightarrow> outside \<Rightarrow> node \<Rightarrow> msg_t \<Rightarrow> node \<times> effect list" where
  "handle_chain_request C e s m =
     (case start_index (mem (o_env e)) (g_chain s) (payload m) of
        Inl t \<Rightarrow> (s, reply_to C m (error_reply t))
      | Inr start_idx \<Rightarrow>
          if start_idx \<ge> c_len (g_chain s)
          then (s, reply_to C m (error_reply (no_block_text start_idx (c_len (g_chain s)))))
          else (s, concat (map (reply_to C m)
                 (fragments (map (\<lambda>i. c_v (g_chain s) ! i) [start_idx..<c_len (g_chain s)]) 0 [] []))))"

subsection \<open>handle\_block\_request\<close>

definition handle_block_request :: "node_cfg \<Rightarrow> outside \<Rightarrow> node \<Rightarrow> msg_t \<Rightarrow> node \<times> effect list" where
  "handle_block_request C e s m =
     (let req = payload m;
          b = (if starts_with ''INDEX '' req
               then chain_find_index (g_chain s) (fst (strtoull10 (drop 6 req)))
               else if starts_with ''HASH '' req
               then chain_find_hash (mem (o_env e)) (g_chain s) (drop 5 req) else None);
          t = (case b of None \<Rightarrow> ''ERR:BLOCK_NOT_FOUND: no block with that index or hash''
               | Some b \<Rightarrow> snd (block_to_csv_row b [] MSG_PAYLOAD_MAX))
      in (s, reply_to C m (piece 0 True t)))"

subsection \<open>handle\_reply\<close>

text \<open>The loop over the rows of a payload; what cannot be parsed or appended is left out.\<close>

function take_rows :: "env \<Rightarrow> string \<Rightarrow> chain_t \<Rightarrow> chain_t" where
  "take_rows E current c =
     (if current = [] then c else
      let next_newline = strchr current LF;
          len = (case next_newline of Some i \<Rightarrow> i | None \<Rightarrow> length current);
          c' = (if len > 0 \<and> len < MAX_CSV_ROW_LEN then
                  (case block_from_csv_row (take len current) of
                     Inl _ \<Rightarrow> c | Inr b \<Rightarrow> snd (chain_append E c b))
                else c)
      in case next_newline of
           Some i \<Rightarrow> take_rows E (drop (i + 1) current) c'
         | None \<Rightarrow> c')"
  by pat_completeness auto
termination
  by (relation "measure (\<lambda>(E, current, c). length current)") auto

declare take_rows.simps [simp del]

definition begin_reply :: "outside \<Rightarrow> node \<Rightarrow> msg_t \<Rightarrow> node option" where
  \<comment> \<open>the state in which the rows are taken, \<open>None\<close> for an orphan fragment\<close>
  "begin_reply e s m =
     (let now = o_now e;
          s1 = (if g_recovering s \<and> m_seq m = 0
                  \<and> now - g_recovery_started s > int REPLY_TIMEOUT_S
                then s\<lparr>g_recovery := chain_free (g_recovery s), g_recovering := False\<rparr> else s)
      in if \<not> g_recovering s1 then
           (if m_seq m = 0
            then Some (s1\<lparr>g_recovery := chain_init, g_recovering := True, g_recovery_started := now\<rparr>)
            else None)
         else Some s1)"

definition handle_reply :: "node_cfg \<Rightarrow> outside \<Rightarrow> node \<Rightarrow> msg_t \<Rightarrow> node" where
  "handle_reply C e s m =
     (case begin_reply e s m of
        None \<Rightarrow>
          (if g_recovering s \<and> m_seq m = 0 \<and> o_now e - g_recovery_started s > int REPLY_TIMEOUT_S
           then s\<lparr>g_recovery := chain_free (g_recovery s), g_recovering := False\<rparr> else s)
      | Some s1 \<Rightarrow>
          let s2 = s1\<lparr>g_recovery := take_rows (o_env e) (payload m) (g_recovery s1)\<rparr> in
          if m_last m \<noteq> 1 then s2
          else if c_len (g_recovery s2) > c_len (g_chain s2) then
            (let s3 = s2\<lparr>g_chain := g_recovery s2\<rparr>;
                 (r, fs) = csv_save (o_io e) (n_files s3) (g_snapshot_path C) (g_chain s3)
             in s3\<lparr>n_files := fs, g_recovering := False\<rparr>)
          else s2\<lparr>g_recovery := chain_free (g_recovery s2), g_recovering := False\<rparr>)"

subsection \<open>The main loop\<close>

definition node_step :: "node_cfg \<Rightarrow> outside \<Rightarrow> node \<Rightarrow> msg_t \<Rightarrow> node \<times> effect list" where
  \<comment> \<open>the \<open>switch\<close> on the type of a received message\<close>
  "node_step C e s m =
     (if m_type m = type_code MSG_BLOCK then handle_block C e s m
      else if m_type m = type_code MSG_CHAIN_REQUEST then handle_chain_request C e s m
      else if m_type m = type_code MSG_BLOCK_REQUEST then handle_block_request C e s m
      else if m_type m = type_code MSG_REPLY then (handle_reply C e s m, [])
      else (s, []))"

text \<open>
  The answers of the system during the start-up, and the start-up itself: the first step that
  fails gives the exit code. \<open>empty_node\<close> is the zeroed static data.
\<close>

record boot =
  b_log_dir :: bool
  b_log_fd :: "string \<Rightarrow> nat option"
  b_pid :: int
  b_regcomp :: bool
  b_mem :: allocator
  b_io :: io
  b_files :: files
  b_kernel :: kernel

definition boot_env :: "boot \<Rightarrow> env" where
  "boot_env B = \<lparr>mem = b_mem B, re_ok = snd (transaction_init False (b_regcomp B))\<rparr>"

definition empty_node :: "files \<Rightarrow> node" where
  "empty_node fs = \<lparr>g_chain = chain_init, g_seen = replicate SEEN_MAX [], g_seen_pos = 0,
     g_seen_count = 0, g_recovery = chain_init, g_recovering = False, g_recovery_started = 0,
     g_last_request = 0, n_files = fs\<rparr>"

definition node_start :: "boot \<Rightarrow> string list \<Rightarrow> code + (node_cfg \<times> node)" where
  "node_start B argv =
     (case node_parse_args argv of Inl r \<Rightarrow> Inl r | Inr C \<Rightarrow>
      let log = fst (log_init (b_log_dir B) (b_log_fd B) (b_pid B) ''node'' log_closed) in
      if log \<noteq> OK then Inl log else
      let reg = fst (transaction_init False (b_regcomp B)) in
      if reg \<noteq> OK then Inl reg else
      let (r, chain) = csv_load (boot_env B) (b_io B) (b_files B) (g_bootstrap_csv C) chain_init in
      if r \<noteq> OK then Inl r
      else if ipc_open_inbox (b_kernel B) ROLE_NODE (g_idx C) False = Inl IPC_ERROR then Inl IPC_ERROR
      else if list_ex (\<lambda>i. i \<noteq> g_idx C \<and> ipc_open_sender (b_kernel B) ROLE_NODE i = Inl IPC_ERROR)
                [0..g_num_nodes C - 1] then Inl IPC_ERROR
      else if list_ex (\<lambda>j. ipc_open_sender (b_kernel B) ROLE_MINER j = Inl IPC_ERROR)
                [0..g_num_miners C - 1] then Inl IPC_ERROR
      else if ipc_open_sender (b_kernel B) ROLE_PARENT 0 = Inl IPC_ERROR then Inl IPC_ERROR
      else Inr (C, (empty_node (b_files B))\<lparr>g_chain := chain\<rparr>))"

text \<open>
  The loop: each round finds \<open>g_should_stop\<close> set or not, and what \<open>ipc_recv\<close> returned. The
  rounds of a run are a list; the result lists the effects round by round.
\<close>

fun node_loop :: "node_cfg \<Rightarrow> (bool \<times> outside \<times> (code + msg_t)) list \<Rightarrow> node
    \<Rightarrow> node \<times> (outside \<times> effect list) list" where
  "node_loop C [] s = (s, [])"
| "node_loop C ((stop, e, r) # rounds) s =
     (if stop then (s\<lparr>n_files := snd (csv_save (o_io e) (n_files s) (g_snapshot_path C) (g_chain s))\<rparr>, [])
      else case r of
          Inl _ \<Rightarrow> node_loop C rounds s
        | Inr m \<Rightarrow>
            (let (s', fx) = node_step C e s m; (s'', rest) = node_loop C rounds s'
             in (s'', (e, fx) # rest)))"

subsection \<open>A window over the last values\<close>

text \<open>A store that remembers the last \<open>cap\<close> values added to it and no others.\<close>

lemma drop_window:
  "drop (Suc (length (drop (length a - n) a)) - n) (drop (length a - n) a @ [x])
    = drop (length (a @ [x]) - n) (a @ [x])"
proof (cases "length a < n")
  case False
  then have "length (drop (length a - n) a) = n" by simp
  moreover have "drop 1 (drop (length a - n) a @ [x]) = drop (Suc (length a) - n) (a @ [x])"
    using False by (cases "n = 0") (simp_all add: Suc_diff_le)
  ultimately show ?thesis by simp
qed simp

locale window =
  fixes add :: "'s \<Rightarrow> 'a \<Rightarrow> 's"
    and contains :: "'s \<Rightarrow> 'a \<Rightarrow> bool"
    and view :: "'s \<Rightarrow> 'a list"
    and inv :: "'s \<Rightarrow> bool"
    and ok :: "'a \<Rightarrow> bool"
    and cap :: nat
  assumes inv_add: "inv s \<Longrightarrow> ok x \<Longrightarrow> inv (add s x)"
    and view_add: "inv s \<Longrightarrow> ok x \<Longrightarrow> view (add s x) = drop (Suc (length (view s)) - cap) (view s @ [x])"
    and contains_view: "inv s \<Longrightarrow> contains s x \<longleftrightarrow> x \<in> set (view s)"
    and bounded: "inv s \<Longrightarrow> length (view s) \<le> cap"
begin

lemma inv_fold: "inv s \<Longrightarrow> \<forall>x \<in> set xs. ok x \<Longrightarrow> inv (fold (\<lambda>x s. add s x) xs s)"
  by (induction xs arbitrary: s) (simp_all add: inv_add)

lemma view_fold:
  "inv s \<Longrightarrow> \<forall>x \<in> set xs. ok x \<Longrightarrow>
    view (fold (\<lambda>x s. add s x) xs s) = drop (length (view s @ xs) - cap) (view s @ xs)"
proof (induction xs rule: rev_induct)
  case Nil
  then show ?case using bounded [of s] by simp
next
  case (snoc x xs)
  let ?t = "fold (\<lambda>x s. add s x) xs s"
  have v: "view ?t = drop (length (view s @ xs) - cap) (view s @ xs)" using snoc by simp
  have "view (add ?t x) = drop (Suc (length (view ?t)) - cap) (view ?t @ [x])"
    using view_add [of ?t x] inv_fold [of s xs] snoc.prems by simp
  also have "\<dots> = drop (length ((view s @ xs) @ [x]) - cap) ((view s @ xs) @ [x])"
    unfolding v by (rule drop_window)
  finally show ?case by simp
qed

text \<open>A value is still there as long as fewer than \<open>cap\<close> others were added after it.\<close>

lemma remembers:
  assumes "inv s" "ok x" "\<forall>y \<in> set ys. ok y" "length ys < cap"
  shows "contains (fold (\<lambda>x s. add s x) (x # ys) s) x"
proof -
  let ?l = "view s @ x # ys"
  have "x \<in> set (drop (length ?l - cap) ?l)"
    using assms(4) by (auto simp: drop_append drop_Cons')
  then show ?thesis
    using assms contains_view [of "fold (\<lambda>x s. add s x) (x # ys) s"] inv_fold [of s "x # ys"]
      view_fold [of s "x # ys"] by simp
qed

end

subsection \<open>The seen ring is such a window\<close>

definition seen_inv :: "node \<Rightarrow> bool" where
  "seen_inv s \<longleftrightarrow> length (g_seen s) = 64 \<and> g_seen_pos s < 64 \<and> g_seen_count s \<le> 64
     \<and> (g_seen_count s < 64 \<longrightarrow> g_seen_pos s = g_seen_count s)"

definition recent :: "node \<Rightarrow> string list" where
  "recent s = (if g_seen_count s < 64 then take (g_seen_count s) (g_seen s)
     else drop (g_seen_pos s) (g_seen s) @ take (g_seen_pos s) (g_seen s))"

lemma seen_add_sel [simp]:
  "g_chain (seen_add s h) = g_chain s" "g_recovery (seen_add s h) = g_recovery s"
  "g_recovering (seen_add s h) = g_recovering s" "n_files (seen_add s h) = n_files s"
  "g_recovery_started (seen_add s h) = g_recovery_started s"
  "g_last_request (seen_add s h) = g_last_request s"
  by (simp_all add: seen_add_def Let_def)

lemma seen_inv_add: "seen_inv s \<Longrightarrow> seen_inv (seen_add s h)"
  by (auto simp: seen_inv_def seen_add_def Let_def)

lemma recent_add:
  assumes "seen_inv s" "length h \<le> 64"
  shows "recent (seen_add s h) = drop (Suc (length (recent s)) - 64) (recent s @ [h])"
proof -
  have h: "snprintf_out 65 h = h" using assms(2) by (simp add: snprintf_out_def)
  let ?p = "g_seen_pos s" and ?v = "g_seen s"
  have I: "length ?v = 64" "?p < 64" "g_seen_count s \<le> 64" "g_seen_count s < 64 \<Longrightarrow> ?p = g_seen_count s"
    using assms(1) by (auto simp: seen_inv_def)
  show ?thesis
  proof (cases "g_seen_count s < 64")
    case True
    have t: "take (Suc ?p) (?v[?p := h]) = take ?p ?v @ [h]"
      using I(1,2) by (simp add: take_Suc_conv_app_nth)
    have f: "?p = 63 \<Longrightarrow> take 64 (?v[63 := h]) = ?v[63 := h]" using I(1) by simp
    show ?thesis
      using True I h t f by (cases "?p = 63") (simp_all add: recent_def seen_add_def Let_def)
  next
    case False
    have "?v = take ?p ?v @ ?v ! ?p # drop (Suc ?p) ?v" using I(1,2) by (simp add: id_take_nth_drop)
    have u: "drop (Suc ?p) (?v[?p := h]) @ take (Suc ?p) (?v[?p := h])
        = drop (Suc ?p) ?v @ take ?p ?v @ [h]"
      using I(1,2) by (simp add: take_Suc_conv_app_nth)
    have tl: "drop (Suc 0) (drop ?p ?v) = drop (Suc ?p) ?v" by simp
    have wrap: "?p = 63 \<Longrightarrow> ?v[63 := h] = take 63 ?v @ [h]"
      using I(1) by (simp add: upd_conv_take_nth_drop)
    have d: "drop (Suc 0) (drop ?p ?v @ take ?p ?v @ [h]) = drop (Suc ?p) ?v @ take ?p ?v @ [h]"
      using I(1,2) by (simp add: drop_append)
    show ?thesis
      using False I h u d wrap
      by (cases "?p = 63") (simp_all add: recent_def seen_add_def Let_def)
  qed
qed

lemma seen_contains_recent: "seen_inv s \<Longrightarrow> seen_contains s h \<longleftrightarrow> h \<in> set (recent s)"
proof -
  assume I: "seen_inv s"
  have "seen_contains s h \<longleftrightarrow> h \<in> set (take (g_seen_count s) (g_seen s))"
    using I by (auto simp: seen_contains_def list_ex_iff in_set_conv_nth seen_inv_def)
  moreover have "set (take 64 (g_seen s)) = set (drop (g_seen_pos s) (g_seen s) @ take (g_seen_pos s) (g_seen s))"
    using I by (metis Un_commute append_take_drop_id le_refl seen_inv_def set_append take_all)
  ultimately show ?thesis using I by (auto simp: recent_def seen_inv_def not_less)
qed

interpretation seen: window seen_add seen_contains recent seen_inv "\<lambda>h. length h \<le> 64" 64
proof (unfold_locales, goal_cases)
  case (4 s)
  then show ?case by (auto simp: recent_def seen_inv_def)
qed (simp_all add: seen_inv_add recent_add seen_contains_recent)

subsection \<open>The invariant of a node\<close>

definition node_inv :: "node \<Rightarrow> bool" where
  "node_inv s \<longleftrightarrow> chain_inv (g_chain s) \<and> (g_recovering s \<longrightarrow> chain_inv (g_recovery s)) \<and> seen_inv s"

lemma node_inv_upd:
  "node_inv s \<Longrightarrow> chain_inv c \<Longrightarrow> node_inv (s\<lparr>g_chain := c\<rparr>)"
  "node_inv s \<Longrightarrow> node_inv (s\<lparr>n_files := fs\<rparr>)"
  "node_inv s \<Longrightarrow> node_inv (s\<lparr>g_last_request := t\<rparr>)"
  "node_inv s \<Longrightarrow> node_inv (seen_add s h)"
  using seen_inv_add [of s h] by (auto simp: node_inv_def seen_inv_def)

lemma chain_free_inv [simp]: "chain_inv (chain_free c)"
  by (simp add: chain_free_def)

lemma payload_block_ok: "block_from_csv_row (payload m) = Inr b \<Longrightarrow> block_ok b"
  using block_from_csv_row_ok cstr_no_nul by blast

lemma take_rows_inv: "chain_inv c \<Longrightarrow> NUL \<notin> set t \<Longrightarrow> chain_inv (take_rows E t c)"
proof (induction t arbitrary: c rule: measure_induct_rule [where f = length])
  case (less t)
  define len where "len = (case strchr t LF of Some i \<Rightarrow> i | None \<Rightarrow> length t)"
  define c' where "c' = (if len > 0 \<and> len < MAX_CSV_ROW_LEN then
      (case block_from_csv_row (take len t) of Inl _ \<Rightarrow> c | Inr b \<Rightarrow> snd (chain_append E c b)) else c)"
  have "NUL \<notin> set (take len t)" using less.prems(2) by (meson in_set_takeD)
  then have c': "chain_inv c'"
    using less.prems(1) block_from_csv_row_ok led.inv_append
    unfolding c'_def by (auto split: sum.split)
  have eq: "take_rows E t c = (if t = [] then c else
      case strchr t LF of Some i \<Rightarrow> take_rows E (drop (i + 1) t) c' | None \<Rightarrow> c')"
    unfolding c'_def len_def by (subst take_rows.simps) (simp add: Let_def cong: option.case_cong)
  show ?case
  proof (cases "t = [] \<or> strchr t LF = None")
    case True
    then show ?thesis using c' less.prems(1) by (auto simp: eq)
  next
    case False
    then obtain i where i: "strchr t LF = Some i" "t \<noteq> []" by auto
    have "NUL \<notin> set (drop (i + 1) t)" using less.prems(2) by (meson in_set_dropD)
    moreover have "length (drop (i + 1) t) < length t" using i(2) by simp
    ultimately show ?thesis using less.IH c' i by (simp add: eq)
  qed
qed

lemma request_chain_state:
  "fst (request_chain C e s m) = s \<or> fst (request_chain C e s m) = s\<lparr>g_last_request := o_now e\<rparr>"
  by (auto simp: request_chain_def Let_def)

lemma handle_block_inv:
  assumes "node_inv s"
  shows "node_inv (fst (handle_block C e s m))"
proof (cases "block_from_csv_row (payload m)")
  case (Inl r)
  then show ?thesis using assms by (simp add: handle_block_def)
next
  case (Inr b)
  obtain res chain where app: "chain_append (o_env e) (g_chain s) b = (res, chain)" by fastforce
  have "chain_inv chain"
    using led.inv_append [of "g_chain s" b "o_env e"] payload_block_ok [OF Inr] assms app
    by (simp add: node_inv_def)
  then have s1: "node_inv (s\<lparr>g_chain := chain\<rparr>)" using node_inv_upd(1) assms by blast
  obtain r fs where sv: "csv_save (o_io e) (n_files s) (g_snapshot_path C) chain = (r, fs)" by fastforce
  show ?thesis
    using assms s1 node_inv_upd(2-4) [OF s1] node_inv_upd(4) [OF node_inv_upd(2) [OF s1, of fs]]
      request_chain_state [of C e "s\<lparr>g_chain := chain\<rparr>" m]
    by (cases "block_hash (mem (o_env e)) b") (auto simp: handle_block_def Inr app sv Let_def)
qed

lemma begin_reply_inv: "node_inv s \<Longrightarrow> begin_reply e s m = Some s1 \<Longrightarrow> node_inv s1 \<and> g_recovering s1"
  by (auto simp: begin_reply_def Let_def node_inv_def seen_inv_def split: if_splits)

lemma handle_reply_inv:
  assumes "node_inv s"
  shows "node_inv (handle_reply C e s m)"
proof (cases "begin_reply e s m")
  case None
  then show ?thesis using assms by (auto simp: handle_reply_def node_inv_def seen_inv_def)
next
  case (Some s1)
  from begin_reply_inv [OF assms Some] have I: "node_inv s1" "g_recovering s1" by simp_all
  then have "chain_inv (take_rows (o_env e) (payload m) (g_recovery s1))"
    by (intro take_rows_inv) (simp_all add: node_inv_def)
  then show ?thesis
    using I Some by (auto simp: handle_reply_def Let_def node_inv_def seen_inv_def split: prod.split)
qed

lemma node_step_inv: "node_inv s \<Longrightarrow> node_inv (fst (node_step C e s m))"
  using handle_block_inv [of s C e m] handle_reply_inv [of s C e m]
  by (simp add: node_step_def handle_chain_request_def handle_block_request_def Let_def split: sum.split)

lemma node_loop_inv: "node_inv s \<Longrightarrow> node_inv (fst (node_loop C rounds s))"
proof (induction C rounds s rule: node_loop.induct)
  case (2 C stop e r rounds s)
  then show ?case
    using node_step_inv [of s C e] node_inv_upd(2)
    by (cases r) (auto split: prod.splits, metis fst_conv)
qed simp

lemma empty_node_inv: "chain_inv c \<Longrightarrow> node_inv ((empty_node fs)\<lparr>g_chain := c\<rparr>)"
  by (simp add: node_inv_def empty_node_def seen_inv_def)

lemma node_start_inv: "node_start B argv = Inr (C, s) \<Longrightarrow> node_inv s"
proof -
  assume st: "node_start B argv = Inr (C, s)"
  have "chain_inv (snd (csv_load E d fs path chain_init))" for E d fs path
    by (auto simp: csv_load_def load_rows_inv split: option.splits)
  then have "chain_inv c" if "csv_load E d fs path chain_init = (r, c)" for E d fs path r c
    using that by (metis snd_conv)
  with st show "node_inv s"
    by (auto simp: node_start_def Let_def intro!: empty_node_inv split: sum.splits if_splits prod.splits)
qed

subsection \<open>What handling a block does\<close>

text \<open>A block that is accepted and saved, one that is only requested for, one without effect.\<close>

lemma handle_block_cases:
  assumes inv: "node_inv s"
  obtains (gossiped) b c fs where "block_from_csv_row (payload m) = Inr b"
      "block_hash (mem (o_env e)) b = Inr (digest_of b)" "\<not> seen_contains s (digest_of b)"
      "fst (chain_append (o_env e) (g_chain s) b) \<in> {APPEND_OK, APPEND_REPLACED}"
      "c = snd (chain_append (o_env e) (g_chain s) b)"
      "csv_save (o_io e) (n_files s) (g_snapshot_path C) c = (OK, fs)"
      "handle_block C e s m = (seen_add (s\<lparr>g_chain := c, n_files := fs\<rparr>) (digest_of b), gossip C m)"
  | (unsaved) b c fs where "block_from_csv_row (payload m) = Inr b"
      "fst (chain_append (o_env e) (g_chain s) b) \<in> {APPEND_OK, APPEND_REPLACED}"
      "c = snd (chain_append (o_env e) (g_chain s) b)"
      "fst (csv_save (o_io e) (n_files s) (g_snapshot_path C) c) \<noteq> OK"
      "fs = snd (csv_save (o_io e) (n_files s) (g_snapshot_path C) c)"
      "handle_block C e s m = (s\<lparr>g_chain := c, n_files := fs\<rparr>, [])"
  | (ahead) b where "block_from_csv_row (payload m) = Inr b"
      "chain_append (o_env e) (g_chain s) b = (APPEND_AHEAD, g_chain s)"
      "handle_block C e s m = request_chain C e s m"
  | (known) h where "handle_block C e s m = (seen_add s h, [])"
  | (quiet) "handle_block C e s m = (s, [])"
proof (cases "block_from_csv_row (payload m)")
  case (Inl r)
  then show thesis using quiet by (simp add: handle_block_def)
next
  case (Inr b)
  have ok: "block_ok b" using payload_block_ok [OF Inr] .
  have cinv: "chain_inv (g_chain s)" using inv by (simp add: node_inv_def)
  show thesis
  proof (cases "block_hash (mem (o_env e)) b")
    case (Inl r)
    then show thesis using quiet \<open>block_from_csv_row (payload m) = Inr b\<close> by (simp add: handle_block_def)
  next
    case h: (Inr h)
    then have hb: "h = digest_of b" using block_hash_Inr [OF ok] by blast
    note h = h [unfolded hb]
    obtain res c where app: "chain_append (o_env e) (g_chain s) b = (res, c)" by fastforce
    obtain r fs where sv: "csv_save (o_io e) (n_files s) (g_snapshot_path C) c = (r, fs)" by fastforce
    have same: "res \<noteq> APPEND_OK \<Longrightarrow> res \<noteq> APPEND_REPLACED \<Longrightarrow> c = g_chain s"
      using led.effect [OF cinv ok, of "o_env e"] app by (cases res) simp_all
    have s1: "s\<lparr>g_chain := g_chain s\<rparr> = s" by simp
    note eq = handle_block_def Inr h app sv Let_def
    consider "seen_contains s (digest_of b)" | "\<not> seen_contains s (digest_of b)" "res \<in> {APPEND_OK, APPEND_REPLACED}" "r = OK"
      | "\<not> seen_contains s (digest_of b)" "res \<in> {APPEND_OK, APPEND_REPLACED}" "r \<noteq> OK"
      | "\<not> seen_contains s (digest_of b)" "res = APPEND_DUP" | "\<not> seen_contains s (digest_of b)" "res = APPEND_AHEAD"
      | "\<not> seen_contains s (digest_of b)" "res \<in> {APPEND_STALE, APPEND_LOST, APPEND_INVALID}"
      by (cases res) auto
    then show thesis
    proof cases
      case 1
      then have "handle_block C e s m = (s, [])" by (simp add: eq)
      then show thesis by (rule quiet)
    next
      case 2
      then have hb2: "handle_block C e s m = (seen_add (s\<lparr>g_chain := c, n_files := fs\<rparr>) (digest_of b), gossip C m)"
        by (simp add: eq)
      show thesis
      proof (rule gossiped [OF Inr h _ _ _ _ hb2])
        show "c = snd (chain_append (o_env e) (g_chain s) b)" by (simp only: app snd_conv)
        show "fst (chain_append (o_env e) (g_chain s) b) \<in> {APPEND_OK, APPEND_REPLACED}"
          using 2(2) by (simp only: app fst_conv)
        show "csv_save (o_io e) (n_files s) (g_snapshot_path C) c = (OK, fs)" using sv 2(3) by simp
      qed (rule 2(1))
    next
      case 3
      then have hb3: "handle_block C e s m = (s\<lparr>g_chain := c, n_files := fs\<rparr>, [])" by (simp add: eq)
      show thesis
      proof (rule unsaved [OF Inr _ _ _ _ hb3])
        show "c = snd (chain_append (o_env e) (g_chain s) b)" by (simp only: app snd_conv)
        show "fst (chain_append (o_env e) (g_chain s) b) \<in> {APPEND_OK, APPEND_REPLACED}"
          using 3(2) by (simp only: app fst_conv)
      qed (use sv 3(3) in simp_all)
    next
      case 4
      then have "handle_block C e s m = (seen_add s (digest_of b), [])" using same by (simp add: eq)
      then show thesis by (rule known)
    next
      case 5
      then have hb5: "handle_block C e s m = request_chain C e s m" using same by (simp add: eq)
      show thesis by (rule ahead [OF Inr _ hb5]) (use 5 same app in simp)
    next
      case 6
      then have "res \<noteq> APPEND_OK" "res \<noteq> APPEND_REPLACED" "res \<noteq> APPEND_DUP" "res \<noteq> APPEND_AHEAD" by auto
      then have "handle_block C e s m = (s, [])" using same 6(1) by (simp add: eq)
      then show thesis by (rule quiet)
    qed
  qed
qed

lemma request_chain_effects:
  assumes "snd (request_chain C e s m) \<noteq> []"
  shows "\<not> g_recovering s \<and> o_now e - g_last_request s \<ge> 2 \<and> 0 \<le> recovery_peer C m"
    and "\<exists>req. snd (request_chain C e s m) = [Send (To_node (nat (recovery_peer C m))) req]
      \<and> m_type req = type_code MSG_CHAIN_REQUEST \<and> payload req = ''ALL''
      \<and> m_role req = role_code ROLE_NODE \<and> m_idx req = of_int (g_idx C)"
    and "g_last_request (fst (request_chain C e s m))
      = (if o_sent e (To_node (nat (recovery_peer C m))) then o_now e else g_last_request s)"
  using assms by (auto simp: request_chain_def Let_def split: if_splits)

lemma recovery_peer_range:
  assumes "0 \<le> g_idx C" "g_idx C < g_num_nodes C" "0 \<le> recovery_peer C m"
  shows "recovery_peer C m < g_num_nodes C" "recovery_peer C m \<noteq> g_idx C"
  using assms by (auto simp: recovery_peer_def split: if_splits)

text \<open>A block the chain already holds is never passed on, saved again or asked about.\<close>

lemma append_known:
  assumes "chain_inv c" "b \<in> set (c_v c)"
  shows "snd (chain_append E c b) = c"
    and "fst (chain_append E c b) \<in> {APPEND_DUP, APPEND_STALE, APPEND_LOST, APPEND_INVALID}"
proof -
  note I = chain_invD [OF assms(1)]
  obtain i where i: "i < length (c_v c)" "c_v c ! i = b" using assms(2) by (auto simp: in_set_conv_nth)
  have ok: "block_ok b" using linkedD(3) [OF I(2) i(1)] i(2) by simp
  have "b_index b = of_nat i" using linkedD(1) [OF I(2) i(1)] i(2) by simp
  then have ui: "unat (b_index b) = i" using i(1) I(3) by (simp add: unat_of_nat take_bit_nat_eq_self)
  have ne: "c_v c \<noteq> []" using i(1) by auto
  have tip: "last (c_v c) = b" if "Suc i = length (c_v c)"
  proof -
    from that have "length (c_v c) - 1 = i" by simp
    then show ?thesis by (simp only: last_conv_nth [OF ne] i(2))
  qed
  show "fst (chain_append E c b) \<in> {APPEND_DUP, APPEND_STALE, APPEND_LOST, APPEND_INVALID}"
  proof (cases "Suc i = length (c_v c)")
    case True
    then show ?thesis using i(1) ne
      by (cases "block_hash (mem E) b") (simp_all add: chain_append_eq [OF assms(1)] ui tip)
  next
    case False
    then show ?thesis using i(1) ne
      by (cases "block_hash (mem E) b"; cases "block_hash (mem E) (last (c_v c))")
        (simp_all add: chain_append_eq [OF assms(1)] ui)
  qed
  then show "snd (chain_append E c b) = c"
    using led.effect [OF assms(1) ok, of E] by (cases "fst (chain_append E c b)") auto
qed

lemma handle_block_known:
  assumes "node_inv s" "block_from_csv_row (payload m) = Inr b" "b \<in> set (c_v (g_chain s))"
  shows "snd (handle_block C e s m) = []" "g_chain (fst (handle_block C e s m)) = g_chain s"
proof -
  have cinv: "chain_inv (g_chain s)" using assms(1) by (simp add: node_inv_def)
  obtain res c where app: "chain_append (o_env e) (g_chain s) b = (res, c)" by fastforce
  have "c = g_chain s" "res \<in> {APPEND_DUP, APPEND_STALE, APPEND_LOST, APPEND_INVALID}"
    using append_known [OF cinv assms(3), of "o_env e"] app by auto
  then show "snd (handle_block C e s m) = []" "g_chain (fst (handle_block C e s m)) = g_chain s"
    by (auto simp: handle_block_def assms(2) app Let_def split: sum.split)
qed

subsection \<open>Requests over a run\<close>

text \<open>The times of the chain requests that were sent with success.\<close>

definition is_request :: "outside \<Rightarrow> effect \<Rightarrow> bool" where
  "is_request e x = (case x of Send d r \<Rightarrow> m_type r = type_code MSG_CHAIN_REQUEST \<and> o_sent e d | _ \<Rightarrow> False)"

definition request_times :: "(outside \<times> effect list) list \<Rightarrow> int list" where
  "request_times tr = concat (map (\<lambda>(e, fx). map (\<lambda>x. o_now e) (filter (is_request e) fx)) tr)"

lemma reply_not_request: "m_type rep \<noteq> 3 \<Longrightarrow> \<not> list_ex (is_request e) (reply_to C m rep)"
  by (auto simp: reply_to_def Let_def is_request_def)

lemma fragments_type: "p \<in> set (fragments bs seq cur row) \<Longrightarrow> m_type p = 4"
  by (induction bs seq cur row rule: fragments.induct) (auto simp: piece_def Let_def split: if_splits)

lemma step_requests:
  assumes "node_inv s"
  shows "filter (is_request e) (snd (node_step C e s m)) = [] \<and>
      g_last_request (fst (node_step C e s m)) = g_last_request s
    \<or> (\<exists>x. filter (is_request e) (snd (node_step C e s m)) = [x]) \<and>
      g_last_request (fst (node_step C e s m)) = o_now e \<and> g_last_request s + 2 \<le> o_now e"
proof (cases "m_type m = 1")
  case True
  then have st: "node_step C e s m = handle_block C e s m" by (simp add: node_step_def)
  have gos: "filter (is_request e) (gossip C m) = []"
    using True by (auto simp: gossip_def Let_def is_request_def filter_empty_conv)
  show ?thesis unfolding st
  proof (cases rule: handle_block_cases [OF assms, of m e C])
    case (3 b)
    show "filter (is_request e) (snd (handle_block C e s m)) = [] \<and>
        g_last_request (fst (handle_block C e s m)) = g_last_request s
      \<or> (\<exists>x. filter (is_request e) (snd (handle_block C e s m)) = [x]) \<and>
        g_last_request (fst (handle_block C e s m)) = o_now e \<and> g_last_request s + 2 \<le> o_now e"
      unfolding 3(3) by (auto simp: request_chain_def Let_def is_request_def)
  qed (simp_all add: gos)
next
  case False
  have none: "filter (is_request e) fx = [] \<longleftrightarrow> \<not> list_ex (is_request e) fx" for fx
    by (simp add: filter_empty_conv list_ex_iff)
  have "g_last_request (handle_reply C e s m) = g_last_request s"
    by (auto simp: handle_reply_def begin_reply_def Let_def split: option.splits prod.splits)
  moreover have "\<not> list_ex (is_request e) (snd (handle_chain_request C e s m))"
  proof (cases "start_index (mem (o_env e)) (g_chain s) (payload m)")
    case (Inl t)
    then show ?thesis using reply_not_request [of _ e C m]
      by (simp add: handle_chain_request_def error_reply_def)
  next
    case (Inr i)
    have "\<not> list_ex (is_request e) (reply_to C m p)" if "p \<in> set (fragments bs 0 [] [])" for p bs
      using reply_not_request [of p e C m] fragments_type [OF that] by simp
    then have "\<not> list_ex (is_request e) (concat (map (reply_to C m) (fragments bs 0 [] [])))" for bs
      by (auto simp: list_ex_iff)
    then show ?thesis using Inr reply_not_request [of _ e C m]
      by (simp add: handle_chain_request_def error_reply_def)
  qed
  moreover have "\<not> list_ex (is_request e) (snd (handle_block_request C e s m))"
    using reply_not_request [of _ e C m]
    by (simp add: handle_block_request_def Let_def piece_def)
  moreover have "fst (handle_chain_request C e s m) = s" "fst (handle_block_request C e s m) = s"
    by (auto simp: handle_chain_request_def handle_block_request_def Let_def split: sum.split)
  ultimately show ?thesis using False by (simp add: node_step_def none)
qed

lemma loop_requests:
  "node_inv s \<Longrightarrow> sorted_wrt (\<lambda>t u. t + 2 \<le> u) (g_last_request s # request_times (snd (node_loop C rounds s)))"
proof (induction C rounds s rule: node_loop.induct)
  case (1 C s)
  then show ?case by (simp add: request_times_def)
next
  case (2 C stop e r rounds s)
  show ?case
  proof (cases "stop \<or> (\<exists>x. r = Inl x)")
    case True
    then show ?thesis using 2 by (auto simp: request_times_def)
  next
    case False
    then obtain m where m: "r = Inr m" "\<not> stop" by (cases r) auto
    obtain s' fx where st: "node_step C e s m = (s', fx)" by fastforce
    have inv: "node_inv s'" using node_step_inv [OF 2(3), of C e m] st by simp
    have IH: "sorted_wrt (\<lambda>t u. t + 2 \<le> u) (g_last_request s' # request_times (snd (node_loop C rounds s')))"
      using 2(2) [OF m(2,1) st [symmetric]] inv by simp
    have "request_times (snd (node_loop C ((stop, e, r) # rounds) s))
        = map (\<lambda>x. o_now e) (filter (is_request e) fx) @ request_times (snd (node_loop C rounds s'))"
      using m st by (simp add: request_times_def split: prod.split)
    then show ?thesis
      using IH step_requests [OF 2(3), of e C m] st by fastforce
  qed
qed

subsection \<open>The bounds the arguments give\<close>

lemma node_parse_args_bounds:
  assumes "node_parse_args argv = Inr C"
  shows "0 \<le> g_idx C" "g_idx C < g_num_nodes C" "1 \<le> g_num_nodes C" "g_num_nodes C \<le> 16"
    "1 \<le> g_num_miners C" "g_num_miners C \<le> 16" "int (length (g_miner_pids C)) = g_num_miners C"
    "\<forall>p \<in> set (g_miner_pids C). 0 < p" "length (g_bootstrap_csv C) \<le> 255"
  using assms by (auto simp: node_parse_args_def Let_def list_ex_iff not_le split: if_splits)

lemma wrap31:
  fixes n :: nat
  assumes "n < 2 ^ 32"
  shows "(int n + 2 ^ 31) mod 2 ^ 32 - 2 ^ 31 = (if n < 2 ^ 31 then int n else int n - 2 ^ 32)"
proof (cases "n < 2 ^ 31")
  case False
  then obtain k where k: "n = 2 ^ 31 + k" using le_Suc_ex [of "2 ^ 31" n] by auto
  then have "int n + 2 ^ 31 = int k + 2 ^ 32" by simp
  moreover have "int k mod 2 ^ 32 = int k" using assms k by simp
  ultimately have "(int n + 2 ^ 31) mod 2 ^ 32 = int k" by (simp only: mod_add_self2)
  then show ?thesis using k by simp
qed simp

lemma int_idx_unat: "int_idx m = (if unat (m_idx m) < 2 ^ 31 then int (unat (m_idx m)) else int (unat (m_idx m)) - 2 ^ 32)"
proof -
  have "unat (m_idx m) < 2 ^ 32" by (rule order_less_le_trans [OF unsigned_less]) simp
  moreover have "int_idx m = (int (unat (m_idx m)) + 2 ^ 31) mod 2 ^ 32 - 2 ^ 31"
    using int_word_sint [of "uint (m_idx m)", where ?'a = 32] by simp
  ultimately show ?thesis by (simp only: wrap31)
qed

subsection \<open>What gossip sends\<close>

lemma gossip_eq:
  assumes "node_parse_args argv = Inr C"
  shows "gossip C m =
    map (\<lambda>i. Send (To_node i) (m\<lparr>m_role := role_code ROLE_NODE, m_idx := of_int (g_idx C)\<rparr>))
        (filter (\<lambda>i. int i \<noteq> g_idx C) [0..<nat (g_num_nodes C)])
    @ map (\<lambda>j. Send (To_miner j) m) [0..<nat (g_num_miners C)]
    @ map (\<lambda>p. Kill p SIGUSR1) (g_miner_pids C)"
proof -
  have "take (nat (g_num_miners C)) (g_miner_pids C) = g_miner_pids C"
    using node_parse_args_bounds(7) [OF assms] by simp
  then show ?thesis by (simp add: gossip_def ipc_signal_pids_def Let_def comp_def)
qed

lemma handle_block_gossips:
  assumes "block_from_csv_row (payload m) = Inr b" "block_hash (mem (o_env e)) b = Inr h"
    "\<not> seen_contains s h" "fst (chain_append (o_env e) (g_chain s) b) \<in> {APPEND_OK, APPEND_REPLACED}"
    "fst (csv_save (o_io e) (n_files s) (g_snapshot_path C)
       (snd (chain_append (o_env e) (g_chain s) b))) = OK"
  shows "snd (handle_block C e s m) = gossip C m"
  using assms by (auto simp: handle_block_def Let_def split: prod.splits)

subsection \<open>Blocks a chain is past\<close>














subsection \<open>Samples for the witnesses\<close>

definition cfg0 :: node_cfg where
  "cfg0 = \<lparr>g_idx = 0, g_num_nodes = 3, g_num_miners = 1, g_miner_pids = [42], g_bootstrap_csv = ''b.csv''\<rparr>"

definition argv0 :: "string list" where
  "argv0 = [''node'', dec 0, dec 3, dec 1, ''b.csv'', dec 42]"

lemma parse_argv0: "node_parse_args argv0 = Inr cfg0"
  by (simp add: node_parse_args_def argv0_def cfg0_def atoi_dec Let_def)

definition boot0 :: boot where
  "boot0 = \<lparr>b_log_dir = True, b_log_fd = (\<lambda>p. Some 3), b_pid = 7, b_regcomp = True, b_mem = plenty,
     b_io = disk0, b_files = (\<lambda>q. Some (file_text [genesis1])),
     b_kernel = \<lparr>dir_ok = True, mkfifo_ok = (\<lambda>p. True), open_fd = (\<lambda>fl p. Some 4)\<rparr>\<rparr>"

definition out0 :: outside where
  "out0 = \<lparr>o_env = env0, o_io = disk0, o_now = 100, o_sent = (\<lambda>d. True)\<rparr>"

definition node0 :: node where
  "node0 = (empty_node (\<lambda>q. None))\<lparr>g_chain := chain1\<rparr>"

definition block_msg :: "block_t \<Rightarrow> msg_t" where
  "block_msg b = zero_msg\<lparr>m_type := type_code MSG_BLOCK, m_role := role_code ROLE_MINER,
     m_payload := fill (csv_row b)\<rparr>"

lemma node0_inv [simp]: "node_inv node0"
  by (simp add: node0_def empty_node_inv)

lemma node0_chain [simp]: "g_chain node0 = chain1"
  by (simp add: node0_def)

lemma payload_block_msg [simp]: "block_ok b \<Longrightarrow> payload (block_msg b) = csv_row b"
  using csv_row_bounds(2) [of b] by (simp add: block_msg_def)

lemma genesis_file:
  "csv_load env0 disk0 (\<lambda>q. Some (file_text [genesis1])) q chain_init
     = (OK, snd (csv_load env0 disk0 (\<lambda>q. Some (file_text [genesis1])) q chain_init))"
proof -
  have "linked ([] @ [genesis1])" using chain1_inv by (simp add: chain_inv_def)
  then show ?thesis
    using load_rows_text [of chain_init "[]" "[genesis1]"] genesis1_row
      csv_load_file_text [of disk0 "\<lambda>q. Some (file_text [genesis1])" q "[genesis1]" env0 chain_init]
    by (simp add: prod_eq_iff del: rows_text_simps)
qed

lemma open_sender_ok:
  assumes "r \<noteq> ROLE_CLIENT" "i < 2 ^ 31" "\<forall>fl. open_fd k fl (path_of (r, int i)) = Some fd"
  shows "ipc_open_sender k r (int i) = Inr fd" "ipc_open_inbox k r (int i) nb = Inr fd"
  using fifo_path_small [OF assms(1,2)] assms(3) by (simp_all add: ipc_open_sender_def ipc_open_inbox_def)

lemma boot0_starts: "\<exists>s. node_start boot0 argv0 = Inr (cfg0, s)"
proof -
  obtain c where c: "csv_load env0 disk0 (\<lambda>q. Some (file_text [genesis1])) (g_bootstrap_csv cfg0) chain_init = (OK, c)"
    using genesis_file by blast
  have "boot_env boot0 = env0" by (simp add: boot_env_def boot0_def transaction_init_def)
  moreover have "fst (log_init (b_log_dir boot0) (b_log_fd boot0) (b_pid boot0) ''node'' log_closed) = OK"
    by (simp add: log_init_OK boot0_def)
  moreover have "ipc_open_sender (b_kernel boot0) ROLE_NODE i \<noteq> Inl IPC_ERROR
      \<and> ipc_open_sender (b_kernel boot0) ROLE_MINER i \<noteq> Inl IPC_ERROR" if "0 \<le> i" "i < 2 ^ 31" for i
    using open_sender_ok(1) [of ROLE_NODE "nat i" "b_kernel boot0" 4] open_sender_ok(1) [of ROLE_MINER "nat i" "b_kernel boot0" 4] that
    by (simp add: boot0_def nat_less_iff)
  moreover have "ipc_open_inbox (b_kernel boot0) ROLE_NODE 0 False \<noteq> Inl IPC_ERROR"
      "ipc_open_sender (b_kernel boot0) ROLE_PARENT 0 \<noteq> Inl IPC_ERROR"
    using open_sender_ok [of ROLE_NODE 0 "b_kernel boot0" 4] open_sender_ok [of ROLE_PARENT 0 "b_kernel boot0" 4]
    by (simp_all add: boot0_def)
  moreover have "g_idx cfg0 = 0" "g_num_nodes cfg0 = 3" "g_num_miners cfg0 = 1" by (simp_all add: cfg0_def)
  moreover have "fst (transaction_init False (b_regcomp boot0)) = OK" by (simp add: boot0_def transaction_init_def)
  moreover have "b_io boot0 = disk0" "b_files boot0 = (\<lambda>q. Some (file_text [genesis1]))" by (simp_all add: boot0_def)
  ultimately show ?thesis
    using c by (simp add: node_start_def parse_argv0 Let_def list_ex_iff)
qed

subsection \<open>Properties\<close>

text \<open>C9: from the start-up on, whatever messages arrive, whatever the allocator, the clock and the
  file system answer and whenever the stop signal comes, the state of a node stays well formed:
  its chain and the chain being recovered are linked chains of valid blocks, and the ring of seen
  hashes is in bounds.\<close>

theorem node_stays_well_formed:
  assumes "node_start B argv = Inr (C, s)"
  shows "node_inv (fst (node_loop C rounds s))"
  using node_loop_inv [OF node_start_inv [OF assms]] .

theorem node_stays_well_formed_witness:
  "\<exists>s. node_start boot0 argv0 = Inr (cfg0, s)
    \<and> node_inv (fst (node_loop cfg0 [(False, out0, Inr (block_msg blockA)), (True, out0, Inl IPC_INTR)] s))"
  using boot0_starts node_stays_well_formed by blast

text \<open>The message with \<open>blockA\<close> is accepted and saved by the sample node.\<close>

lemma blockA_accepted:
  "block_hash (mem (o_env out0)) blockA = Inr (digest_of blockA) \<and> \<not> seen_contains node0 (digest_of blockA)
    \<and> fst (chain_append (o_env out0) (g_chain node0) blockA) \<in> {APPEND_OK, APPEND_REPLACED}
    \<and> fst (csv_save (o_io out0) (n_files node0) (g_snapshot_path cfg0)
        (snd (chain_append (o_env out0) (g_chain node0) blockA))) = OK"
proof -
  have app: "map_prod id c_v (chain_append env0 chain1 blockA) = (APPEND_OK, [genesis1, blockA])"
    using led0.refines [of chain1 blockA] spec_first [of "[genesis1]" blockA] by simp
  obtain r c where rc: "chain_append env0 chain1 blockA = (r, c)" by fastforce
  have c: "chain_inv c" using led.inv_append [of chain1 blockA env0] rc by simp
  have "g_snapshot_path cfg0 = ''chain-node-0.csv''"
    by (simp add: g_snapshot_path_def cfg0_def dec_int_def dec.simps snprintf_out_def hex_digit_def)
  then have "fst (csv_save disk0 (\<lambda>q. None) (g_snapshot_path cfg0) c) = OK"
    using csv_save_fine [OF c, of "g_snapshot_path cfg0" disk0] by simp
  moreover have "\<not> seen_contains node0 h" for h by (simp add: seen_contains_def node0_def empty_node_def)
  moreover have "n_files node0 = (\<lambda>q. None)" by (simp add: node0_def empty_node_def)
  ultimately show ?thesis using app rc by (simp add: out0_def)
qed

text \<open>C7: a node passes something on only after saving it. If the received block parses, is not in the
  ring of seen hashes, is accepted by the chain and the save succeeds, then the block was not in
  the chain before, is valid and is the new tip; the snapshot holds the whole new chain, which is
  longer than the old one, or as long with a smaller hash at the tip; and then, in this order, the
  message goes once to every other node, signed as this node, once to every miner, unchanged,
  and every miner gets \<open>SIGUSR1\<close>. In every other case nothing is sent and nobody is signalled,
  except for one chain request to another node.\<close>

theorem gossip_only_after_save:
  assumes "node_parse_args argv = Inr C" "node_inv s" "handle_block C e s m = (s', fx)"
  shows "if \<exists>b. block_from_csv_row (payload m) = Inr b \<and> block_hash (mem (o_env e)) b = Inr (digest_of b)
        \<and> \<not> seen_contains s (digest_of b)
        \<and> fst (chain_append (o_env e) (g_chain s) b) \<in> {APPEND_OK, APPEND_REPLACED}
        \<and> fst (csv_save (o_io e) (n_files s) (g_snapshot_path C)
                (snd (chain_append (o_env e) (g_chain s) b))) = OK
    then \<exists>b. block_from_csv_row (payload m) = Inr b \<and> b \<notin> set (c_v (g_chain s)) \<and> valid_block b
      \<and> last (c_v (g_chain s')) = b \<and> extends (c_v (g_chain s')) (c_v (g_chain s))
      \<and> (length (c_v (g_chain s')) = Suc (length (c_v (g_chain s)))
         \<or> length (c_v (g_chain s')) = length (c_v (g_chain s))
           \<and> digest_of b < digest_of (last (c_v (g_chain s))))
      \<and> n_files s' (g_snapshot_path C) = Some (file_text (c_v (g_chain s')))
      \<and> seen_contains s' (digest_of b)
      \<and> fx = map (\<lambda>i. Send (To_node i) (m\<lparr>m_role := role_code ROLE_NODE, m_idx := of_int (g_idx C)\<rparr>))
               (filter (\<lambda>i. int i \<noteq> g_idx C) [0..<nat (g_num_nodes C)])
           @ map (\<lambda>j. Send (To_miner j) m) [0..<nat (g_num_miners C)]
           @ map (\<lambda>p. Kill p SIGUSR1) (g_miner_pids C)
    else fx = [] \<or> (\<exists>i req. fx = [Send (To_node i) req] \<and> int i < g_num_nodes C \<and> int i \<noteq> g_idx C
      \<and> m_type req = type_code MSG_CHAIN_REQUEST \<and> g_chain s' = g_chain s \<and> n_files s' = n_files s)"
    (is "if ?gossip then ?full else ?quiet")
proof -
  note B = node_parse_args_bounds [OF assms(1)]
  have cinv: "chain_inv (g_chain s)" and seen: "seen_inv s" using assms(2) by (simp_all add: node_inv_def)
  have "gossip C m \<noteq> []" using B(5) by (simp add: gossip_def Let_def)
  then have quiet: "\<not> ?gossip" if "fx = []"
    using handle_block_gossips [where m = m and e = e and s = s and C = C] assms(3) that by auto
  show ?thesis
  proof (cases rule: handle_block_cases [OF assms(2), of m e C])
    case (1 b c fs)
    have ok: "block_ok b" using payload_block_ok [OF 1(1)] .
    have new: "b \<notin> set (c_v (g_chain s))" using append_known(2) [OF cinv, of b "o_env e"] 1(4) by auto
    have c: "chain_inv c" using led.inv_append [OF cinv ok, of "o_env e"] 1(5) by simp
    have saved: "fs (g_snapshot_path C) = Some (file_text (c_v c))" using csv_save_OK [OF c 1(6)] by simp
    have fwd: "c_v c = c_v (g_chain s) @ [b] \<or> c_v (g_chain s) \<noteq> [] \<and> c_v c = butlast (c_v (g_chain s)) @ [b]
        \<and> digest_of b < digest_of (last (c_v (g_chain s)))"
      using led.effect [OF cinv ok, of "o_env e"] 1(4,5) by auto
    then have l: "last (c_v c) = b" by auto
    have len: "length (c_v c) = Suc (length (c_v (g_chain s)))
        \<or> length (c_v c) = length (c_v (g_chain s)) \<and> digest_of b < digest_of (last (c_v (g_chain s)))"
      using fwd by (cases "c_v (g_chain s)" rule: rev_cases) auto
    have s': "s' = seen_add (s\<lparr>g_chain := c, n_files := fs\<rparr>) (digest_of b)" "fx = gossip C m"
      using 1(7) assms(3) by simp_all
    have "c_v c \<noteq> []" using fwd by auto
    then have "valid_block b" using tip_index(3) [OF c] l by simp
    moreover have "extends (c_v c) (c_v (g_chain s))" using led.extends_append [OF cinv ok, of "o_env e"] 1(5) by simp
    moreover have "seen_contains (seen_add (s\<lparr>g_chain := c, n_files := fs\<rparr>) (digest_of b)) (digest_of b)"
      using seen.remembers [of "s\<lparr>g_chain := c, n_files := fs\<rparr>" "digest_of b" "[]"] seen
      by (simp add: seen_inv_def digest_of_def)
    ultimately have "?full"
      using 1(1) new saved l len unfolding s' gossip_eq [OF assms(1)] by (intro exI [of _ b]) simp
    moreover have "?gossip" using 1(1-6) by (intro exI [of _ b]) simp
    ultimately show ?thesis by simp
  next
    case (3 b)
    have fx: "fx = snd (request_chain C e s m)" "s' = fst (request_chain C e s m)"
      using 3(3) assms(3) by (metis snd_conv, metis fst_conv)
    have "\<not> ?gossip" using 3(1,2) by auto
    moreover have "?quiet"
    proof (cases "fx = []")
      case False
      note R = request_chain_effects(1,2) [OF False [unfolded fx(1)]]
      have "int (nat (recovery_peer C m)) = recovery_peer C m" using R(1) by simp
      moreover have "g_chain s' = g_chain s" "n_files s' = n_files s"
        using request_chain_state [of C e s m] fx(2) by auto
      ultimately show ?thesis
        using R recovery_peer_range [OF B(1,2), of m] fx(1) by metis
    qed simp
    ultimately show ?thesis by (simp only: if_False)
  qed (use quiet assms(3) in simp_all)
qed

theorem gossip_only_after_save_witness:
  "\<exists>s'. handle_block cfg0 out0 node0 (block_msg blockA) = (s',
      [Send (To_node 1) (block_msg blockA\<lparr>m_role := role_code ROLE_NODE, m_idx := 0\<rparr>),
       Send (To_node 2) (block_msg blockA\<lparr>m_role := role_code ROLE_NODE, m_idx := 0\<rparr>),
       Send (To_miner 0) (block_msg blockA), Kill 42 SIGUSR1])
    \<and> last (c_v (g_chain s')) = blockA \<and> seen_contains s' (digest_of blockA)"
proof -
  let ?s = "fst (handle_block cfg0 out0 node0 (block_msg blockA))"
  obtain fx where st: "handle_block cfg0 out0 node0 (block_msg blockA) = (?s, fx)" by (metis prod.collapse)
  have row: "block_from_csv_row (payload (block_msg blockA)) = Inr blockA"
    by (simp add: block_from_csv_row_of_row)
  have idx: "filter ((<) 0) [0..<nat (g_num_nodes cfg0)] = [Suc 0, 2]"
      "[0..<nat (g_num_miners cfg0)] = [0]" "g_idx cfg0 = 0" "g_miner_pids cfg0 = [42]"
    by (simp_all add: cfg0_def upt_rec)
  have "\<exists>b. block_from_csv_row (payload (block_msg blockA)) = Inr b
      \<and> block_hash (mem (o_env out0)) b = Inr (digest_of b) \<and> \<not> seen_contains node0 (digest_of b)
      \<and> fst (chain_append (o_env out0) (g_chain node0) b) \<in> {APPEND_OK, APPEND_REPLACED}
      \<and> fst (csv_save (o_io out0) (n_files node0) (g_snapshot_path cfg0)
              (snd (chain_append (o_env out0) (g_chain node0) b))) = OK"
    using row blockA_accepted by blast
  note full = gossip_only_after_save [OF parse_argv0 node0_inv st, unfolded if_P [OF this], unfolded row]
  then have "last (c_v (g_chain ?s)) = blockA" "seen_contains ?s (digest_of blockA)" by auto
  moreover from full have "fx = [Send (To_node 1) (block_msg blockA\<lparr>m_role := role_code ROLE_NODE, m_idx := 0\<rparr>),
       Send (To_node 2) (block_msg blockA\<lparr>m_role := role_code ROLE_NODE, m_idx := 0\<rparr>),
       Send (To_miner 0) (block_msg blockA), Kill 42 SIGUSR1]"
    by (auto simp: idx)
  ultimately show ?thesis using st by blast
qed

text \<open>Gossip ends. A block the chain of a node already holds, however often and in whatever
  message it comes back, is neither passed on nor asked about and changes nothing of the chain,
  also after it has left the ring of seen hashes.\<close>

theorem known_block_is_not_forwarded:
  assumes "node_inv s" "block_from_csv_row (payload m) = Inr b" "b \<in> set (c_v (g_chain s))"
  shows "snd (handle_block C e s m) = [] \<and> g_chain (fst (handle_block C e s m)) = g_chain s"
  using handle_block_known [OF assms] by blast

theorem known_block_is_not_forwarded_witness:
  "snd (handle_block cfg0 out0 node0 (block_msg genesis1)) = []
    \<and> g_chain (fst (handle_block cfg0 out0 node0 (block_msg genesis1))) = g_chain node0"
  by (rule known_block_is_not_forwarded [of _ _ genesis1]) (simp_all add: block_from_csv_row_of_row)

text \<open>C25: over any run of a node, the chain requests it sends are at least \<open>REPLY_TIMEOUT_S\<close>
  seconds apart, however many blocks from the future arrive.\<close>

theorem requests_are_spaced:
  assumes "node_inv s"
  shows "sorted_wrt (\<lambda>t u. t + int REPLY_TIMEOUT_S \<le> u)
    (g_last_request s # request_times (snd (node_loop C rounds s)))"
  using loop_requests [OF assms] by simp

theorem requests_are_spaced_witness:
  "sorted_wrt (\<lambda>t u. t + 2 \<le> u) (0 # request_times
    (snd (node_loop cfg0 [(False, out0, Inr (block_msg blockA))] node0)))"
  using requests_are_spaced [OF node0_inv, of cfg0 "[(False, out0, Inr (block_msg blockA))]"]
  by (simp add: node0_def empty_node_def)

text \<open>C38: the guard of \<open>reply_to\<close> compares the sender index as a signed number, so exactly the
  requests that claim to come from a node with an index of \<open>2 ^ 31\<close> or more pass it and read
  \<open>g_fd_node\<close> out of bounds; with any smaller index the descriptor of another node is used.\<close>

theorem reply_descriptor:
  assumes "node_parse_args argv = Inr C"
  shows "(Wild_fd n \<in> set (reply_to C m rep) \<longleftrightarrow>
      m_role m = role_code ROLE_NODE \<and> n = unat (m_idx m) \<and> 2 ^ 31 \<le> n)
    \<and> (Send (To_node k) r \<in> set (reply_to C m rep) \<longrightarrow> int k < g_num_nodes C \<and> int k \<noteq> g_idx C)"
proof -
  note B = node_parse_args_bounds [OF assms]
  have "unat (m_idx m) < 2 ^ 32" by (rule order_less_le_trans [OF unsigned_less]) simp
  then obtain u where u: "unat (m_idx m) = u" "u < 2 ^ 32"
    "int_idx m = (if u < 2 ^ 31 then int u else int u - 2 ^ 32)"
    using int_idx_unat [of m] by blast
  then consider "u < 2 ^ 31" "int_idx m = int u" | "2 ^ 31 \<le> u" "int_idx m < 0"
    by (cases "u < 2 ^ 31") auto
  then show ?thesis
    using B(1,2,4) u(1) by cases (auto simp: reply_to_def Let_def)
qed

theorem reply_descriptor_witness:
  "Wild_fd (2 ^ 31) \<in> set (reply_to cfg0 (zero_msg\<lparr>m_role := role_code ROLE_NODE, m_idx := 2 ^ 31\<rparr>) zero_msg)"
  using reply_descriptor [OF parse_argv0, of "2 ^ 31" "zero_msg\<lparr>m_role := role_code ROLE_NODE, m_idx := 2 ^ 31\<rparr>" zero_msg]
  by simp

text \<open>A request for a block by number is answered with one terminated reply: the row of the
  block at that position, or \<open>BLOCK_NOT_FOUND\<close>. The number is what \<open>strtoull\<close> makes of the text,
  so a text that is no number at all is answered with the genesis block, while the same text in a
  chain request is refused with \<open>ARGS_ERROR\<close>.\<close>

theorem block_request_by_index:
  assumes "node_inv s" "payload m = ''INDEX '' @ arg"
  shows "snd (handle_block_request C e s m) = reply_to C m (piece 0 True
      (if unat (fst (strtoull10 arg)) < length (c_v (g_chain s))
       then csv_row (c_v (g_chain s) ! unat (fst (strtoull10 arg)))
       else ''ERR:BLOCK_NOT_FOUND: no block with that index or hash''))
    \<and> (scan_number arg = None \<longrightarrow> fst (strtoull10 arg) = 0
       \<and> snd (handle_chain_request C e s m) = reply_to C m (error_reply
            (''ERR:ARGS_ERROR: '' @ [CHR 0x27] @ arg @ [CHR 0x27] @ '' is not a valid index'')))"
proof -
  have cinv: "chain_inv (g_chain s)" using assms(1) by (simp add: node_inv_def)
  let ?i = "unat (fst (strtoull10 arg))"
  have pre: "starts_with ''INDEX '' (payload m)" "drop 6 (payload m) = arg"
    using assms(2) by (simp_all add: starts_with_def)
  have "snd (block_to_csv_row (c_v (g_chain s) ! ?i) [] MSG_PAYLOAD_MAX) = csv_row (c_v (g_chain s) ! ?i)"
    if "?i < length (c_v (g_chain s))"
    using block_to_csv_row_ok [OF linkedD(3) [OF chain_invD(2) [OF cinv] that], of 4064] by simp
  then have "snd (handle_block_request C e s m) = reply_to C m (piece 0 True
      (if ?i < length (c_v (g_chain s)) then csv_row (c_v (g_chain s) ! ?i)
       else ''ERR:BLOCK_NOT_FOUND: no block with that index or hash''))"
    using pre by (simp add: handle_block_request_def chain_find_index_eq [OF cinv] Let_def)
  moreover have "scan_number arg = None \<Longrightarrow> strtoull10 arg = (0, 0)" by (simp add: strtoull10_def)
  ultimately show ?thesis
    using pre by (auto simp: handle_chain_request_def start_index_def)
qed

theorem block_request_by_index_witness:
  "snd (handle_block_request cfg0 out0 node0 (zero_msg\<lparr>m_payload := fill ''INDEX abc''\<rparr>))
    = [Send To_parent (piece 0 True (csv_row genesis1)\<lparr>m_role := role_code ROLE_NODE, m_idx := 0\<rparr>)]"
proof -
  let ?m = "zero_msg\<lparr>m_payload := fill ''INDEX abc''\<rparr>"
  have "fst (strtoull10 ''abc'') = 0" by code_simp
  moreover have "payload ?m = ''INDEX '' @ ''abc''" by simp
  moreover have "m_role ?m = 0" "g_idx cfg0 = 0" by (simp_all add: zero_msg_def cfg0_def)
  ultimately show ?thesis
    using block_request_by_index [OF node0_inv, of ?m "''abc''" cfg0 out0] by (simp add: reply_to_def)
qed




end
