(* ===== verification/Sync.thy ===== *)
theory Sync
  imports Node
begin

section \<open>Sending a chain and recovering from one (node.c)\<close>

text \<open>
  The two ends of a recovery: \<open>handle_chain_request\<close> cuts a chain into fragments that fit a
  message, \<open>handle_reply\<close> puts them together again and adopts the result if it is strictly longer.
  \<open>batches\<close> says which blocks share a fragment; \<open>pieces\<close> numbers the fragments.
\<close>

subsection \<open>Fragments\<close>

fun batches :: "block_t list \<Rightarrow> block_t list \<Rightarrow> block_t list list" where
  "batches acc [] = [acc]"
| "batches acc (b # bs) =
     (if length (rows_text acc) + length (csv_row b) + 1 \<ge> 4063 then acc # batches [b] bs
      else batches (acc @ [b]) bs)"

fun pieces :: "u32 \<Rightarrow> string list \<Rightarrow> msg_t list" where
  "pieces seq [] = []"
| "pieces seq [t] = [piece seq True t]"
| "pieces seq (t # ts) = piece seq False t # pieces (seq + 1) ts"

lemma batches_nonempty [simp]: "batches acc bs \<noteq> []"
  by (induction acc bs rule: batches.induct) simp_all

lemma concat_batches [simp]: "concat (batches acc bs) = acc @ bs"
  by (induction acc bs rule: batches.induct) simp_all

lemma length_batches: "length (batches acc bs) \<le> Suc (length bs)"
  by (induction acc bs rule: batches.induct) (auto intro: le_SucI)

lemma rows_text_append [simp]: "rows_text (as @ bs) = rows_text as @ rows_text bs"
  by (simp add: rows_text_def)

lemma batches_fit:
  assumes "\<forall>b \<in> set (acc @ bs). block_ok b" "length (rows_text acc) < 4063"
  shows "\<forall>g \<in> set (batches acc bs). length (rows_text g) < 4063"
  using assms
proof (induction acc bs rule: batches.induct)
  case (2 acc b bs)
  have "block_ok b" using 2(3) by simp
  then have "length (csv_row b) \<le> 2243" by (rule csv_row_bounds(2))
  with 2 show ?case by auto
qed simp

lemma pieces_Cons: "ts \<noteq> [] \<Longrightarrow> pieces seq (t # ts) = piece seq False t # pieces (seq + 1) ts"
  by (cases ts) simp_all

lemma fragments_batches:
  assumes "\<forall>b \<in> set bs. block_ok b" "length (rows_text acc) < 4063"
  shows "fragments bs seq (rows_text acc) row = pieces seq (map rows_text (batches acc bs))"
  using assms
proof (induction acc bs arbitrary: seq row rule: batches.induct)
  case (1 acc)
  then show ?case by simp
next
  case (2 acc b bs)
  have ok: "block_ok b" using 2(3) by simp
  have row: "snd (block_to_csv_row b row MAX_CSV_ROW_LEN) = csv_row b"
    using block_to_csv_row_ok [OF ok, of MAX_CSV_ROW_LEN] by simp
  have len: "length (csv_row b) \<le> 2243" using csv_row_bounds(2) [OF ok] .
  show ?case
  proof (cases "length (rows_text acc) + length (csv_row b) + 1 \<ge> 4063")
    case True
    have "fragments bs (seq + 1) (rows_text [b]) (csv_row b) = pieces (seq + 1) (map rows_text (batches [b] bs))"
      using 2(1) [OF True] 2(3) len by simp
    moreover have "snprintf_out 4064 (csv_row b @ [LF]) = csv_row b @ [LF]"
      using len by (simp add: snprintf_out_def)
    ultimately show ?thesis using True row by (simp add: Let_def pieces_Cons)
  next
    case False
    then have "snprintf_out (4064 - length (rows_text acc)) (csv_row b @ [LF]) = csv_row b @ [LF]"
      by (simp add: snprintf_out_def)
    moreover have "fragments bs seq (rows_text (acc @ [b])) (csv_row b)
        = pieces seq (map rows_text (batches (acc @ [b]) bs))"
      using False 2(2) [OF False] 2(3) by simp
    ultimately show ?thesis using False row by (simp add: Let_def)
  qed
qed

lemma rows_text_no_nul: "\<forall>b \<in> set bs. block_ok b \<Longrightarrow> NUL \<notin> set (rows_text bs)"
  by (induction bs) auto

lemma payload_piece [simp]:
  "NUL \<notin> set t \<Longrightarrow> length t < 4064 \<Longrightarrow> payload (piece seq l t) = t"
  by (simp add: piece_def)

lemma fill_last: "fill t ! 4063 = NUL"
  by (simp add: fill_def snprintf_out_def nth_append)

lemma seal_id: "wf_msg m \<Longrightarrow> m_payload m ! 4063 = NUL \<Longrightarrow> seal m = m"
  by (simp add: seal_def wf_msg_def list_update_same_conv)

lemma seal_piece [simp]: "seal (piece seq l t\<lparr>m_role := r, m_idx := i\<rparr>) = piece seq l t\<lparr>m_role := r, m_idx := i\<rparr>"
  by (rule seal_id) (simp_all add: piece_def wf_msg_def fill_last)

subsection \<open>What a node that asked receives\<close>

definition sent :: "effect list \<Rightarrow> msg_t list" where
  \<comment> \<open>the messages of the sends, as the receiver reads them from its FIFO\<close>
  "sent fx = concat (map (\<lambda>x. case x of Send d r \<Rightarrow> [seal r] | _ \<Rightarrow> []) fx)"

fun replies :: "node_cfg \<Rightarrow> (nat \<Rightarrow> outside) \<Rightarrow> nat \<Rightarrow> msg_t list \<Rightarrow> node \<Rightarrow> node" where
  "replies C es k [] s = s"
| "replies C es k (m # ms) s = replies C es (Suc k) ms (handle_reply C (es k) s m)"

lemma sent_Nil [simp]: "sent [] = []"
  by (simp add: sent_def)

lemma sent_pieces:
  assumes "reply_to C req = (\<lambda>rep. [Send (To_node i) (rep\<lparr>m_role := role_code ROLE_NODE, m_idx := of_int (g_idx C)\<rparr>)])"
  shows "sent (concat (map (reply_to C req) (pieces seq ts)))
    = map (\<lambda>p. p\<lparr>m_role := role_code ROLE_NODE, m_idx := of_int (g_idx C)\<rparr>) (pieces seq ts)"
  by (induction seq ts rule: pieces.induct) (simp_all add: sent_def assms)

lemma take_rows_text:
  assumes "chain_inv c" "c_v c = as" "linked (as @ bs)" "length (as @ bs) < 2 ^ 49" "\<forall>b \<in> set bs. one_line b"
  shows "c_v (take_rows env0 (rows_text bs) c) = as @ bs"
  using assms
proof (induction bs arbitrary: c as)
  case Nil
  then show ?case by (simp add: take_rows.simps [of _ "[]"])
next
  case (Cons b bs)
  have l: "linked (as @ [b])" using linked_prefix [of "as @ [b]" bs] Cons.prems(3) by simp
  then have ok: "block_ok b" by (simp add: linked_snoc valid_block_def)
  have clean: "LF \<notin> set (csv_row b)" using Cons.prems(5) by (simp add: one_line_def)
  obtain c' where c': "chain_append env0 c b = (APPEND_OK, c')" "c_v c' = as @ [b]" "chain_inv c'"
    using append_linked [OF Cons.prems(1,2) l] Cons.prems(4) by auto
  have "0 < length (csv_row b)" "length (csv_row b) < 2244"
    using csv_row_bounds [OF ok] by auto
  then have "take_rows env0 (rows_text (b # bs)) c = take_rows env0 (rows_text bs) c'"
    using clean c'(1) block_from_csv_row_of_row [OF ok]
    by (simp add: take_rows.simps [of _ "csv_row b @ _"])
  with Cons.IH [OF c'(3,2)] Cons.prems show ?case by simp
qed

subsection \<open>One reply\<close>

lemma handle_reply_step:
  assumes "begin_reply e s m = Some s1"
  defines "r \<equiv> take_rows (o_env e) (payload m) (g_recovery s1)"
  shows "m_last m \<noteq> 1 \<Longrightarrow> handle_reply C e s m = s1\<lparr>g_recovery := r\<rparr>"
    and "m_last m = 1 \<Longrightarrow> g_chain (handle_reply C e s m) = (if c_len r > c_len (g_chain s1) then r else g_chain s1)
      \<and> \<not> g_recovering (handle_reply C e s m)"
  using assms by (auto simp: handle_reply_def Let_def split: prod.split)

lemma begin_reply_next: "g_recovering s \<Longrightarrow> m_seq m \<noteq> 0 \<Longrightarrow> begin_reply e s m = Some s"
  by (simp add: begin_reply_def Let_def)

lemma begin_reply_first:
  "m_seq m = 0 \<Longrightarrow> \<not> g_recovering s \<or> o_now e - g_recovery_started s > 2 \<Longrightarrow>
    \<exists>s1. begin_reply e s m = Some s1 \<and> g_recovering s1 \<and> g_recovery s1 = chain_init \<and> g_chain s1 = g_chain s"
  by (auto simp: begin_reply_def Let_def)

text \<open>The last fragments of a recovery under way.\<close>

abbreviation signed_by :: "node_cfg \<Rightarrow> msg_t \<Rightarrow> msg_t" where
  "signed_by C p \<equiv> p\<lparr>m_role := role_code ROLE_NODE, m_idx := of_int (g_idx C)\<rparr>"

lemma piece_sel [simp]:
  "m_seq (piece seq l t) = seq" "m_last (piece seq l t) = (if l then 1 else 0)"
  by (simp_all add: piece_def)

lemma replies_pieces:
  fixes C :: node_cfg
  assumes "gs \<noteq> []" "unat seq + length gs \<le> 2 ^ 32"
    "\<And>l t. begin_reply (es k) s (signed_by D (piece seq l t)) = Some s1"
    "g_recovering s1" "chain_inv (g_recovery s1)" "c_v (g_recovery s1) = as" "g_chain s1 = g_chain s"
    "chain_inv (g_chain s)" "linked (as @ concat gs)" "length (as @ concat gs) < 2 ^ 49"
    "\<forall>b \<in> set (concat gs). one_line b" "\<forall>g \<in> set gs. length (rows_text g) < 4063"
    "\<forall>k. o_env (es k) = env0"
  defines "t \<equiv> replies C es k (map (signed_by D) (pieces seq (map rows_text gs))) s"
  shows "c_v (g_chain t) = (if length (as @ concat gs) > length (c_v (g_chain s)) then as @ concat gs
      else c_v (g_chain s)) \<and> \<not> g_recovering t"
  using assms(1-13) unfolding t_def
proof (induction gs arbitrary: seq s s1 as k)
  case Nil
  then show ?case by simp
next
  case (Cons g gs)
  let ?r = "take_rows env0 (rows_text g) (g_recovery s1)"
  have lg: "linked (as @ g)" using linked_prefix [of "as @ g" "concat gs"] Cons.prems(9) by simp
  have ok: "\<forall>b \<in> set g. block_ok b"
    using linkedD(3) [OF lg] by (metis Un_iff in_set_conv_nth set_append)
  have nul: "NUL \<notin> set (rows_text g)" using rows_text_no_nul [OF ok] .
  have cv: "c_v ?r = as @ g"
    using take_rows_text [OF Cons.prems(5,6) lg] Cons.prems(10,11) by simp
  have rinv: "chain_inv ?r" by (rule take_rows_inv [OF Cons.prems(5) nul])
  have lens: "c_len ?r = length (as @ g)" "c_len (g_chain s) = length (c_v (g_chain s))"
    using chain_invD(1) [OF rinv] chain_invD(1) [OF Cons.prems(8)] cv by simp_all
  have env: "o_env (es k) = env0" using Cons.prems(13) by simp
  have pay: "payload (signed_by D (piece seq l (rows_text g))) = rows_text g" for l
    using nul Cons.prems(12) by (simp add: piece_def)
  note step = handle_reply_step [OF Cons.prems(3), where ?t1 = "rows_text g", unfolded pay env]
  show ?case
  proof (cases "gs = []")
    case True
    then show ?thesis using step(2) [of True C] lens cv Cons.prems(7) by auto
  next
    case False
    let ?s = "s1\<lparr>g_recovery := ?r\<rparr>"
    have st: "handle_reply C (es k) s (signed_by D (piece seq False (rows_text g))) = ?s"
      using step(1) [of False C] by simp
    have us: "unat (seq + 1) = unat seq + 1"
      using Cons.prems(2) False unat_add_lem [of seq 1] by (cases gs) auto
    then have "seq + 1 \<noteq> 0" by auto
    then have next_begin: "begin_reply (es (Suc k)) ?s (signed_by D (piece (seq + 1) l t)) = Some ?s" for l t
      using Cons.prems(4) by (intro begin_reply_next) simp_all
    have "c_v (g_chain (replies C es (Suc k) (map (signed_by D) (pieces (seq + 1) (map rows_text gs))) ?s))
        = (if length ((as @ g) @ concat gs) > length (c_v (g_chain ?s))
           then (as @ g) @ concat gs else c_v (g_chain ?s))
      \<and> \<not> g_recovering (replies C es (Suc k) (map (signed_by D) (pieces (seq + 1) (map rows_text gs))) ?s)"
      using Cons.prems False us rinv cv next_begin by (intro Cons.IH [of _ _ _ ?s]) auto
    then show ?thesis using st False Cons.prems(7) by (simp add: pieces_Cons)
  qed
qed

text \<open>The whole recovery, from the first fragment.\<close>

lemma replies_all:
  fixes C D :: node_cfg
  assumes "gs \<noteq> []" "length gs \<le> 2 ^ 32" "\<not> g_recovering s" "chain_inv (g_chain s)"
    "linked (concat gs)" "length (concat gs) < 2 ^ 49" "\<forall>b \<in> set (concat gs). one_line b"
    "\<forall>g \<in> set gs. length (rows_text g) < 4063" "\<forall>k. o_env (es k) = env0"
  defines "t \<equiv> replies C es 0 (map (signed_by D) (pieces 0 (map rows_text gs))) s"
  shows "c_v (g_chain t) = (if length (concat gs) > length (c_v (g_chain s)) then concat gs
      else c_v (g_chain s)) \<and> \<not> g_recovering t"
proof -
  let ?s1 = "s\<lparr>g_recovery := chain_init, g_recovering := True, g_recovery_started := o_now (es 0)\<rparr>"
  have "begin_reply (es 0) s (signed_by D (piece 0 l t)) = Some ?s1" for l t
    using assms(3) by (simp add: begin_reply_def Let_def)
  then show ?thesis
    using assms(1-9) replies_pieces [of gs 0 es 0 s D ?s1 "[]" C] unfolding t_def by simp
qed

text \<open>The answer to a request for a chain.\<close>

lemma chain_request_pieces:
  assumes "node_inv d" "start_index (mem (o_env e)) (g_chain d) (payload m) = Inr i" "i < c_len (g_chain d)"
  shows "handle_chain_request D e d m = (d, concat (map (reply_to D m)
    (pieces 0 (map rows_text (batches [] (drop i (c_v (g_chain d))))))))"
proof -
  let ?bs = "drop i (c_v (g_chain d))"
  have inv: "chain_inv (g_chain d)" using assms(1) by (simp add: node_inv_def)
  then have len: "c_len (g_chain d) = length (c_v (g_chain d))" by (rule chain_invD(1))
  have "\<forall>b \<in> set (c_v (g_chain d)). block_ok b"
    using linkedD(3) [OF chain_invD(2) [OF inv]] by (metis in_set_conv_nth)
  then have "\<forall>b \<in> set ([] @ ?bs). block_ok b" by (auto dest: in_set_dropD)
  then have "\<forall>b \<in> set ?bs. block_ok b" by simp
  from fragments_batches [OF this, of "[]" 0 "[]"]
  have "fragments ?bs 0 [] [] = pieces 0 (map rows_text (batches [] ?bs))" by (simp add: rows_text_def)
  moreover have "map (\<lambda>i. c_v (g_chain d) ! i) [i..<c_len (g_chain d)] = ?bs"
    unfolding len by (rule nth_equalityI) (use assms(3) len in auto)
  ultimately show ?thesis using assms(2,3) by (simp add: handle_chain_request_def)
qed

lemma pieces_nth:
  "k < length ts \<Longrightarrow> pieces seq ts ! k = piece (seq + of_nat k) (Suc k = length ts) (ts ! k)"
proof (induction seq ts arbitrary: k rule: pieces.induct)
  case (3 seq t u ts)
  then show ?case by (cases k) (simp_all add: add_ac)
qed simp_all

lemma length_pieces [simp]: "length (pieces seq ts) = length ts"
  by (induction seq ts rule: pieces.induct) simp_all

subsection \<open>Properties\<close>

text \<open>C24: the answer to a request for blocks that exist is a numbered series of fragments, each short
  enough for a terminated payload, only the last one marked as the last, whose payloads together
  are the rows of exactly the blocks from the requested one to the tip, in order.\<close>

theorem chain_reply_fragments:
  assumes "node_inv d" "start_index (mem (o_env e)) (g_chain d) (payload m) = Inr i" "i < c_len (g_chain d)"
  shows "\<exists>ps. handle_chain_request D e d m = (d, concat (map (reply_to D m) ps))
    \<and> concat (map payload ps) = rows_text (drop i (c_v (g_chain d)))
    \<and> ps \<noteq> [] \<and> length ps \<le> Suc (c_len (g_chain d) - i)
    \<and> (\<forall>k < length ps. m_type (ps ! k) = type_code MSG_REPLY \<and> m_seq (ps ! k) = of_nat k
        \<and> (m_last (ps ! k) = 1 \<longleftrightarrow> Suc k = length ps)
        \<and> length (payload (ps ! k)) < 4063 \<and> m_len (ps ! k) = of_nat (length (payload (ps ! k))))"
proof -
  let ?bs = "drop i (c_v (g_chain d))" and ?gs = "batches [] (drop i (c_v (g_chain d)))"
  let ?ps = "pieces 0 (map rows_text ?gs)"
  have inv: "chain_inv (g_chain d)" using assms(1) by (simp add: node_inv_def)
  have "\<forall>b \<in> set (c_v (g_chain d)). block_ok b"
    using linkedD(3) [OF chain_invD(2) [OF inv]] by (metis in_set_conv_nth)
  then have ok: "\<forall>b \<in> set ([] @ ?bs). block_ok b" by (auto dest: in_set_dropD)
  then have fit: "\<forall>g \<in> set ?gs. length (rows_text g) < 4063"
    by (rule batches_fit) (simp add: rows_text_def)
  have "set (concat ?gs) = set ?bs" by simp
  then have nul: "\<forall>g \<in> set ?gs. NUL \<notin> set (rows_text g)"
    using ok rows_text_no_nul by (metis UN_I append_Nil set_concat)
  have pay: "payload (?ps ! k) = rows_text (?gs ! k)" if "k < length ?gs" for k
  proof -
    have "NUL \<notin> set (rows_text (?gs ! k))" "length (rows_text (?gs ! k)) < 4063"
      using bspec [OF nul nth_mem [OF that]] bspec [OF fit nth_mem [OF that]] by simp_all
    then show ?thesis using that by (simp add: pieces_nth)
  qed
  then have "map payload ?ps = map rows_text ?gs" by (intro nth_equalityI) simp_all
  moreover have "concat (map rows_text gs) = rows_text (concat gs)" for gs
    by (induction gs) (simp_all add: rows_text_def)
  ultimately have "concat (map payload ?ps) = rows_text ?bs" by simp
  moreover have "\<forall>k < length ?ps. m_type (?ps ! k) = type_code MSG_REPLY \<and> m_seq (?ps ! k) = of_nat k
        \<and> (m_last (?ps ! k) = 1 \<longleftrightarrow> Suc k = length ?ps)
        \<and> length (payload (?ps ! k)) < 4063 \<and> m_len (?ps ! k) = of_nat (length (payload (?ps ! k)))"
    using fit pay by (auto simp: pieces_nth) (simp_all add: piece_def)
  moreover have "?ps \<noteq> []" by (metis batches_nonempty length_0_conv length_map length_pieces)
  moreover have "length ?ps \<le> Suc (c_len (g_chain d) - i)"
    using length_batches [of "[]" ?bs] chain_invD(1) [OF inv] by simp
  ultimately show ?thesis using chain_request_pieces [OF assms] by (intro exI [of _ ?ps]) simp
qed

theorem chain_reply_fragments_witness:
  "\<exists>ps. handle_chain_request cfg0 out0 node0 hello = (node0, concat (map (reply_to cfg0 hello) ps))
    \<and> concat (map payload ps) = csv_row genesis1 @ [LF]"
  using chain_reply_fragments [OF node0_inv, of out0 hello 0 cfg0] chain_invD(1) [OF chain1_inv(1)]
  by (auto simp: start_index_def starts_with_def hello_def)

text \<open>C10: whatever a reply contains and whoever sent it, it leaves a node well formed and never takes
  a block from it: the chain is the one it had, or a chain of valid linked blocks that is strictly
  longer, and then the recovery is over.\<close>

theorem reply_adopts_only_longer:
  assumes "node_inv s" "g_chain (handle_reply C e s m) \<noteq> g_chain s"
  shows "node_inv (handle_reply C e s m) \<and> \<not> g_recovering (handle_reply C e s m) \<and> m_last m = 1
    \<and> length (c_v (g_chain s)) < length (c_v (g_chain (handle_reply C e s m)))
    \<and> linked (c_v (g_chain (handle_reply C e s m)))"
proof -
  have inv: "node_inv (handle_reply C e s m)" by (rule handle_reply_inv [OF assms(1)])
  have len: "c_len (g_chain s') = length (c_v (g_chain s'))" "linked (c_v (g_chain s'))" if "node_inv s'" for s'
    using that chain_invD(1,2) [of "g_chain s'"] by (simp_all add: node_inv_def)
  show ?thesis
  proof (cases "begin_reply e s m")
    case None
    then show ?thesis using assms(2) by (simp add: handle_reply_def split: if_splits)
  next
    case (Some s1)
    then have same: "g_chain s1 = g_chain s" by (auto simp: begin_reply_def Let_def split: if_splits)
    note step = handle_reply_step [OF Some, of C]
    have last: "m_last m = 1" using step(1) same assms(2) by fastforce
    let ?r = "take_rows (o_env e) (payload m) (g_recovery s1)"
    have "g_chain (handle_reply C e s m) = ?r" "c_len (g_chain s) < c_len ?r"
      using step(2) [OF last] same assms(2) by (auto split: if_splits)
    then show ?thesis using inv last step(2) [OF last] len [OF inv] len [OF assms(1)] by simp
  qed
qed

lemma two_blocks: "linked [genesis1, blockA]" "\<forall>b \<in> set [genesis1, blockA]. one_line b"
proof -
  have "competes [genesis1] blockA" by simp
  moreover have "linked [genesis1]" using chain_invD(2) [OF chain1_inv(1)] by simp
  ultimately show "linked [genesis1, blockA]"
    using linked_snoc [of "[genesis1]" blockA] by (simp add: competes_def) (simp add: blockA_def)
  show "\<forall>b \<in> set [genesis1, blockA]. one_line b"
    using valid_one_line [OF samples_valid(1)] by simp (simp add: blockA_def)
qed

lemma two_rows: "length (csv_row genesis1) + length (csv_row blockA) < 4000"
  unfolding length_csv_row [OF samples_ok(1)] length_csv_row [OF samples_ok(2)]
  by (simp add: genesis1_def blockA_def tx1_def)

theorem reply_adopts_only_longer_witness:
  "\<exists>c. g_chain (handle_reply cfg0 out0 node0 (signed_by cfg0 (piece 0 True (rows_text [genesis1, blockA])))) = c
    \<and> linked (c_v c) \<and> length (c_v (g_chain node0)) < length (c_v c)"
proof -
  let ?m = "signed_by cfg0 (piece 0 True (rows_text [genesis1, blockA]))"
  have "c_v (g_chain (handle_reply cfg0 out0 node0 ?m)) = [genesis1, blockA]"
    using replies_all [of "[[genesis1, blockA]]" node0 "\<lambda>k. out0" cfg0 cfg0] two_blocks two_rows
    by (simp add: rows_text_def node0_def empty_node_def out0_def)
  moreover from this have "g_chain (handle_reply cfg0 out0 node0 ?m) \<noteq> g_chain node0" by auto
  ultimately show ?thesis
    using reply_adopts_only_longer [OF node0_inv, of cfg0 out0 ?m] by simp
qed

text \<open>What a node asks when a block from the future arrives.\<close>

lemma handle_block_asks:
  assumes "node_inv s" "m_type m = type_code MSG_BLOCK" "handle_block C e s m = (s', fx)"
    "Send (To_node p) q \<in> set fx" "m_type q = type_code MSG_CHAIN_REQUEST"
  shows "request_chain C e s m = (s', [Send (To_node p) q])" "0 \<le> recovery_peer C m"
    "p = nat (recovery_peer C m)"
    "payload q = ''ALL''" "m_role q = role_code ROLE_NODE" "m_idx q = of_int (g_idx C)" "\<not> g_recovering s"
    "seal q = q"
proof -
  have no_gossip: "Send (To_node p) q \<notin> set (gossip C m)"
    using assms(2,5) by (auto simp: gossip_def Let_def)
  have req: "request_chain C e s m = (s', fx)"
  proof (cases rule: handle_block_cases [OF assms(1), of m e C])
    case (3 b)
    then show ?thesis using assms(3) by simp
  qed (use assms(3,4) no_gossip in auto)
  then have ne: "snd (request_chain C e s m) \<noteq> []" using assms(4) by auto
  from request_chain_effects(1,2) [OF ne] req assms(4)
  show "request_chain C e s m = (s', [Send (To_node p) q])" "0 \<le> recovery_peer C m"
    "p = nat (recovery_peer C m)"
    "payload q = ''ALL''" "m_role q = role_code ROLE_NODE" "m_idx q = of_int (g_idx C)" "\<not> g_recovering s"
    by auto
  show "seal q = q"
    using req assms(4)
    by (auto simp: request_chain_def Let_def split: if_splits intro!: seal_id)
      (simp_all add: wf_msg_def fill_last)
qed

text \<open>C8: recovery works from end to end. When a block from the future makes node \<open>C\<close> ask node
  \<open>D\<close> for its chain, the answer of \<open>D\<close> goes to \<open>C\<close> alone, and after \<open>C\<close> has read all of it \<open>C\<close>
  holds exactly the chain of \<open>D\<close> if that is strictly longer than its own, and its own chain
  otherwise, and has left the recovery.\<close>

theorem recovery_end_to_end:
  fixes C D :: node_cfg
  assumes "node_parse_args argv = Inr C" "node_parse_args argv' = Inr D" "g_num_nodes C = g_num_nodes D"
    and "node_inv s" "m_type m = type_code MSG_BLOCK" "handle_block C e s m = (s', fx)"
      "Send (To_node p) q \<in> set fx" "m_type q = type_code MSG_CHAIN_REQUEST" "int p = g_idx D"
    and "node_inv d" "handle_chain_request D e' d (seal q) = (d', answer)"
      "c_v (g_chain d) \<noteq> []" "length (c_v (g_chain d)) < 2 ^ 32" "\<forall>b \<in> set (c_v (g_chain d)). one_line b"
      "\<forall>k. o_env (es k) = env0"
  defines "t \<equiv> replies C es 0 (sent answer) s'"
  shows "(\<forall>x \<in> set answer. \<exists>r. x = Send (To_node (nat (g_idx C))) r) \<and> sent answer \<noteq> []
    \<and> c_v (g_chain t) = (if length (c_v (g_chain d)) > length (c_v (g_chain s)) then c_v (g_chain d)
        else c_v (g_chain s))
    \<and> \<not> g_recovering t"
proof -
  note C = node_parse_args_bounds [OF assms(1)] and D = node_parse_args_bounds [OF assms(2)]
  note q = handle_block_asks [OF assms(4-8)]
  have s': "g_chain s' = g_chain s" "\<not> g_recovering s'"
    using q(1,7) request_chain_state [of C e s m] by auto
  have inv: "chain_inv (g_chain s)" "chain_inv (g_chain d)" using assms(4,10) by (simp_all add: node_inv_def)
  let ?gs = "batches [] (c_v (g_chain d))"
  have pay: "payload (seal q) = ''ALL''" "m_role (seal q) = role_code ROLE_NODE"
    "m_idx (seal q) = of_int (g_idx C)" using q(4-6,8) by simp_all
  have idx: "unat (m_idx (seal q)) = nat (g_idx C)" "int_idx (seal q) = g_idx C"
  proof -
    obtain k where "g_idx C = int k" using C(1) nonneg_int_cases by blast
    then show "unat (m_idx (seal q)) = nat (g_idx C)" "int_idx (seal q) = g_idx C"
      unfolding pay(3) using C(2,4)
      by (simp_all add: unat_of_nat take_bit_nat_eq_self signed_of_nat signed_take_bit_int_eq_self)
  qed
  have "g_idx C \<noteq> g_idx D"
    using recovery_peer_range(2) [OF C(1,2) q(2)] q(2,3) assms(9) by simp
  then have to: "reply_to D (seal q) = (\<lambda>rep. [Send (To_node (nat (g_idx C))) (signed_by D rep)])"
    using pay idx C assms(3) by (auto simp: reply_to_def Let_def)
  have "start_index (mem (o_env e')) (g_chain d) (payload (seal q)) = Inr 0"
    by (simp add: pay start_index_def starts_with_def)
  moreover have "0 < c_len (g_chain d)" using assms(12) chain_invD(1) [OF inv(2)] by simp
  ultimately have ans: "answer = concat (map (reply_to D (seal q)) (pieces 0 (map rows_text ?gs)))"
    using chain_request_pieces [OF assms(10), of e' "seal q" 0 D] assms(11) by simp
  then have sent: "sent answer = map (signed_by D) (pieces 0 (map rows_text ?gs))"
    by (simp only: sent_pieces [OF to])
  have ok: "\<forall>b \<in> set ([] @ c_v (g_chain d)). block_ok b"
    using linkedD(3) [OF chain_invD(2) [OF inv(2)]] by (simp, metis in_set_conv_nth)
  have "length ?gs \<le> 2 ^ 32" using length_batches [of "[]" "c_v (g_chain d)"] assms(13) by linarith
  then have "c_v (g_chain t) = (if length (c_v (g_chain d)) > length (c_v (g_chain s')) then c_v (g_chain d)
        else c_v (g_chain s')) \<and> \<not> g_recovering t"
    unfolding t_def sent
    using replies_all [of ?gs s' es C D] s' inv chain_invD(2) [OF inv(2)] assms(13-15)
      batches_fit [OF ok] by (simp add: rows_text_def)
  moreover have "\<forall>x \<in> set answer. \<exists>r. x = Send (To_node (nat (g_idx C))) r" by (auto simp: ans to)
  moreover have "sent answer \<noteq> []"
    unfolding sent by (metis batches_nonempty length_0_conv length_map length_pieces)
  ultimately show ?thesis using s' by simp
qed

text \<open>Node 0 knows only the genesis block, node 1 one block more; a block at index 5 arrives.\<close>

definition cfg1 :: node_cfg where "cfg1 = cfg0\<lparr>g_idx := 1\<rparr>"

definition donor :: node where
  "donor = (empty_node (\<lambda>q. None))\<lparr>g_chain := snd (chain_append env0 chain1 blockA)\<rparr>"

definition far_block :: block_t where "far_block = block_with 5 7 9 (digest_of genesis1) [tx1]"

lemma cfg1_parsed: "node_parse_args [''node'', dec 1, dec 3, dec 1, ''b.csv'', dec 42] = Inr cfg1"
  by (simp add: node_parse_args_def cfg1_def cfg0_def atoi_dec Let_def)

lemma donor_inv [simp]: "node_inv donor" "c_v (g_chain donor) = [genesis1, blockA]"
proof -
  show "node_inv donor" unfolding donor_def by (rule empty_node_inv) (simp add: led.inv_append)
  have "map_prod id c_v (chain_append env0 chain1 blockA) = (APPEND_OK, [genesis1, blockA])"
    using led0.refines [of chain1 blockA] spec_first [of "[genesis1]" blockA] by simp
  then show "c_v (g_chain donor) = [genesis1, blockA]" by (auto simp: donor_def map_prod_def split: prod.splits)
qed

lemma far_block_asks:
  "\<exists>s' q. handle_block cfg0 out0 node0 (block_msg far_block) = (s', [Send (To_node 1) q])
    \<and> m_type q = type_code MSG_CHAIN_REQUEST"
proof -
  have valid: "valid_block far_block" by (simp add: far_block_def block_with_valid)
  then have ok: "block_ok far_block" by (simp add: valid_block_def)
  have i: "unat (b_index far_block) = 5" by (simp add: far_block_def)
  have "append_spec (c_v chain1) far_block = (APPEND_AHEAD, c_v chain1)"
    using valid i by (simp add: append_spec_def)
  then have "fst (chain_append env0 chain1 far_block) = APPEND_AHEAD"
    using led0.refines [of chain1 far_block] ok by (simp add: prod_eq_iff)
  moreover from this have "snd (chain_append env0 chain1 far_block) = chain1"
    using led.effect [of chain1 far_block env0] ok by simp
  ultimately have "chain_append env0 chain1 far_block = (APPEND_AHEAD, chain1)" by (simp add: prod_eq_iff)
  moreover have "\<not> seen_contains node0 h" for h by (simp add: seen_contains_def node0_def empty_node_def)
  ultimately have "handle_block cfg0 out0 node0 (block_msg far_block)
      = request_chain cfg0 out0 (node0\<lparr>g_chain := chain1\<rparr>) (block_msg far_block)"
    using ok block_hash_plenty [OF ok]
    by (simp add: handle_block_def block_from_csv_row_of_row Let_def out0_def)
  then show ?thesis
    by (simp add: request_chain_def Let_def node0_def empty_node_def out0_def recovery_peer_def
        block_msg_def cfg0_def)
qed

theorem recovery_end_to_end_witness:
  "\<exists>s' q answer. handle_block cfg0 out0 node0 (block_msg far_block) = (s', [Send (To_node 1) q])
    \<and> handle_chain_request cfg1 out0 donor (seal q) = (donor, answer)
    \<and> c_v (g_chain (replies cfg0 (\<lambda>k. out0) 0 (sent answer) s')) = [genesis1, blockA]"
proof -
  obtain s' q where q: "handle_block cfg0 out0 node0 (block_msg far_block) = (s', [Send (To_node 1) q])"
    "m_type q = type_code MSG_CHAIN_REQUEST" using far_block_asks by blast
  obtain d' answer where a: "handle_chain_request cfg1 out0 donor (seal q) = (d', answer)" by fastforce
  then have d': "d' = donor" by (auto simp: handle_chain_request_def split: sum.splits if_splits)
  have "m_type (block_msg far_block) = type_code MSG_BLOCK" by (simp add: block_msg_def)
  moreover have "g_num_nodes cfg0 = g_num_nodes cfg1" "int 1 = g_idx cfg1" by (simp_all add: cfg1_def)
  ultimately show ?thesis
    using recovery_end_to_end [OF parse_argv0 cfg1_parsed _ node0_inv _ q(1) _ q(2) _ donor_inv(1) a,
        of 1 "\<lambda>k. out0"] q(1) a d' two_blocks by (auto simp: out0_def)
qed

end
