(* ===== verification/Miner.thy ===== *)
theory Miner
  imports Sync "HOL-Library.Multiset"
begin

section \<open>The miner process (miner.c)\<close>

text \<open>
  A miner keeps a copy of the chain, a mempool of transactions, and the blocks it has mined and
  sent whose fate is not decided yet. \<open>mempool\<close> and \<open>pending\<close> are the cells in use of the two
  arrays of the source, so the counters are the lengths of the lists.
\<close>

subsection \<open>Data\<close>

abbreviation (input) MEMPOOL_SIZE :: nat where "MEMPOOL_SIZE \<equiv> 1024"
abbreviation (input) PENDING_MAX :: nat where "PENDING_MAX \<equiv> 8"

record pending_t =
  pd_index :: u64
  pd_hash :: string
  pd_txs :: "string list"

record miner =
  mchain :: chain_t
  mempool :: "string list"
  pending :: "pending_t list"

subsection \<open>The mempool\<close>

definition mempool_add :: "string list \<Rightarrow> string \<Rightarrow> string list" where
  "mempool_add pool txs =
     (if length txs \<ge> MAX_TX_LEN then pool
      else if length pool < MEMPOOL_SIZE then pool @ [txs] else pool)"

definition mempool_remove :: "string list \<Rightarrow> string \<Rightarrow> string list" where
  "mempool_remove pool tx =
     (case find (\<lambda>i. strcmp (pool ! i) tx = 0) [0..<length pool] of
        None \<Rightarrow> pool
      | Some i \<Rightarrow> take i pool @ drop (i + 1) pool)"

subsection \<open>Blocks waiting for a decision\<close>

definition pending_requeue :: "string list \<Rightarrow> pending_t \<Rightarrow> string list" where
  "pending_requeue pool p = foldl mempool_add pool (pd_txs p)"

definition pending_drop :: "pending_t list \<Rightarrow> nat \<Rightarrow> pending_t list" where
  "pending_drop ps i = take i ps @ drop (i + 1) ps"

definition pending_add :: "block_t \<Rightarrow> string \<Rightarrow> miner \<Rightarrow> miner" where
  "pending_add b hash s =
     (let s1 = (if length (pending s) = PENDING_MAX
                then s\<lparr>mempool := pending_requeue (mempool s) (pending s ! 0),
                       pending := pending_drop (pending s) 0\<rparr> else s);
          p = \<lparr>pd_index = b_index b, pd_hash = snprintf_out 65 hash,
               pd_txs = map (\<lambda>i. snprintf_out MAX_TX_LEN (b_txs b ! i)) [0..<b_tx_count b]\<rparr>
      in s1\<lparr>pending := pending s1 @ [p]\<rparr>)"

function settle_from :: "allocator \<Rightarrow> block_t \<Rightarrow> nat \<Rightarrow> miner \<Rightarrow> miner" where
  "settle_from M tip i s =
     (if i \<ge> length (pending s) then s else
      let p = pending s ! i in
      case chain_find_index (mchain s) (pd_index p) of
        None \<Rightarrow> settle_from M tip (i + 1) s
      | Some kept \<Rightarrow>
          (case block_hash M kept of
             Inl _ \<Rightarrow> settle_from M tip (i + 1) s
           | Inr kept_hash \<Rightarrow>
               if strcmp kept_hash (pd_hash p) = 0
               then (if b_index tip > pd_index p
                     then settle_from M tip i (s\<lparr>pending := pending_drop (pending s) i\<rparr>)
                     else settle_from M tip (i + 1) s)
               else settle_from M tip i (s\<lparr>mempool := pending_requeue (mempool s) p,
                      pending := pending_drop (pending s) i\<rparr>)))"
  by pat_completeness auto
termination
  by (relation "measure (\<lambda>(M, tip, i, s). length (pending s) - i)") (auto simp: pending_drop_def)

declare settle_from.simps [simp del]

definition pending_settle :: "allocator \<Rightarrow> miner \<Rightarrow> miner" where
  "pending_settle M s = (case chain_tip (mchain s) of None \<Rightarrow> s | Some tip \<Rightarrow> settle_from M tip 0 s)"

subsection \<open>Reading the inbox\<close>

definition take_message :: "env \<Rightarrow> msg_t \<Rightarrow> miner \<Rightarrow> bool \<times> miner" where
  \<comment> \<open>one message; whether the tip moved\<close>
  "take_message E msg s =
     (if m_type msg = type_code MSG_TX then
        (False, if transaction_is_valid (re_ok E) (payload msg) = OK
                then s\<lparr>mempool := mempool_add (mempool s) (payload msg)\<rparr> else s)
      else if m_type msg = type_code MSG_BLOCK then
        (case block_from_csv_row (payload msg) of Inl _ \<Rightarrow> (False, s) | Inr incoming \<Rightarrow>
         let old_tip = chain_tip (mchain s);
             (res, chain) = chain_append E (mchain s) incoming;
             s1 = s\<lparr>mchain := chain\<rparr>
         in if res = APPEND_OK \<or> res = APPEND_REPLACED then
              (case chain_tip chain of None \<Rightarrow> (False, s1) | Some new_tip \<Rightarrow>
                 if res = APPEND_REPLACED \<or> old_tip = None \<or> map_option b_index old_tip \<noteq> Some (b_index new_tip)
                 then (True, pending_settle (mem E) (s1\<lparr>mempool := foldl mempool_remove (mempool s1)
                         (map (\<lambda>i. b_txs new_tip ! i) [0..<b_tx_count new_tip])\<rparr>))
                 else (False, s1))
            else (False, s1))
      else (False, s))"

fun drain_inbox :: "(env \<times> msg_t) list \<Rightarrow> miner \<Rightarrow> bool \<times> miner" where
  \<comment> \<open>the messages \<open>ipc_recv_nb\<close> gives before it gives none, with the memory of that moment\<close>
  "drain_inbox [] s = (False, s)"
| "drain_inbox ((E, msg) # ms) s =
     (let (moved, s1) = take_message E msg s; (moved', s2) = drain_inbox ms s1
      in (moved \<or> moved', s2))"

subsection \<open>Mining\<close>

definition new_candidate :: "allocator \<Rightarrow> u64 \<Rightarrow> miner \<Rightarrow> block_t option" where
  "new_candidate M now s =
     (case chain_tip (mchain s) of None \<Rightarrow> None | Some tip \<Rightarrow>
      (case block_hash M tip of Inl _ \<Rightarrow> None | Inr h \<Rightarrow>
       let n = (if length (mempool s) > MAX_TX_PER_BLOCK then MAX_TX_PER_BLOCK else length (mempool s));
           txs = map (\<lambda>i. mempool s ! i) [0..<n]
       in case merkle_root M txs of Inl _ \<Rightarrow> None | Inr root \<Rightarrow>
          Some \<lparr>b_index = b_index tip + 1, b_timestamp = now, b_nonce = 0, b_prev_hash = h,
            b_merkle_root = root, b_txs = txs @ replicate (MAX_TX_PER_BLOCK - n) [], b_tx_count = n\<rparr>))"

text \<open>
  One turn of the inner loop: whether a signal was found after the sleep, what the inbox held,
  and the value of \<open>random()\<close>. The list of turns ends when the test of the loop finds a signal.
\<close>

record turn =
  t_signal :: bool
  t_inbox :: "(env \<times> msg_t) list"
  t_random :: nat

fun mine :: "int \<Rightarrow> turn list \<Rightarrow> block_t \<Rightarrow> miner \<Rightarrow> bool \<times> block_t \<times> miner" where
  "mine difficulty [] candidate s = (False, candidate, s)"
| "mine difficulty (t # ts) candidate s =
     (if t_signal t then (False, candidate, s) else
      let (moved, s1) = drain_inbox (t_inbox t) s in
      if moved then (False, candidate, s1)
      else if int (t_random t) mod difficulty = 0 then (True, candidate, s1)
      else mine difficulty ts (candidate\<lparr>b_nonce := b_nonce candidate + 1\<rparr>) s1)"

record miner_cfg =
  mc_idx :: int
  mc_num_nodes :: int
  mc_difficulty :: int
  mc_bootstrap_csv :: string

text \<open>What one turn of the main loop meets; the two flags are those after the inner loop.\<close>

record round =
  r_inbox :: "(env \<times> msg_t) list"
  r_mem :: allocator
  r_now :: u64
  r_turns :: "turn list"
  r_stop :: bool
  r_abort :: bool

definition block_out :: "miner_cfg \<Rightarrow> string \<Rightarrow> msg_t" where
  "block_out C row = zero_msg\<lparr>m_type := type_code MSG_BLOCK, m_role := role_code ROLE_MINER,
     m_idx := of_int (mc_idx C), m_len := of_nat (length row), m_payload := fill row\<rparr>"

definition book :: "block_t \<Rightarrow> string \<Rightarrow> miner \<Rightarrow> miner" where
  \<comment> \<open>a mined block has been sent: its transactions wait with it\<close>
  "book c b_hash s =
     (let s1 = pending_add c b_hash s
      in s1\<lparr>mempool := foldl mempool_remove (mempool s1) (map (\<lambda>i. b_txs c ! i) [0..<b_tx_count c])\<rparr>)"

definition miner_round :: "miner_cfg \<Rightarrow> round \<Rightarrow> miner \<Rightarrow> miner \<times> effect list" where
  "miner_round C R s =
     (let s1 = snd (drain_inbox (r_inbox R) s) in
      if mempool s1 = [] then (s1, []) else
      case new_candidate (r_mem R) (r_now R) s1 of None \<Rightarrow> (s1, []) | Some candidate \<Rightarrow>
      let (mined, c, s2) = mine (mc_difficulty C) (r_turns R) candidate s1 in
      if r_abort R then (s2, [])
      else if mined \<and> \<not> r_stop R then
        (case block_hash (r_mem R) c of Inl _ \<Rightarrow> (s2, []) | Inr b_hash \<Rightarrow>
         let (r, row) = block_to_csv_row c [] MSG_PAYLOAD_MAX in
         if r \<noteq> OK then (s2, [])
         else (book c b_hash s2,
                  map (\<lambda>i. Send (To_node i) (block_out C row)) [0..<nat (mc_num_nodes C)]))
      else (s2, []))"

subsection \<open>Start-up and the main loop\<close>

definition miner_parse_args :: "string list \<Rightarrow> code + miner_cfg" where
  "miner_parse_args argv =
     (if length argv \<noteq> 6 then Inl ARGS_ERROR else
      let idx = atoi (argv ! 1); num_nodes = atoi (argv ! 2); difficulty = atoi (argv ! 4) in
      if num_nodes < 1 \<or> num_nodes > int MAX_NODES \<or> difficulty < 1 then Inl ARGS_ERROR
      else Inr \<lparr>mc_idx = idx, mc_num_nodes = num_nodes, mc_difficulty = difficulty,
                mc_bootstrap_csv = argv ! 5\<rparr>)"

definition miner_start :: "boot \<Rightarrow> string list \<Rightarrow> code + (miner_cfg \<times> miner)" where
  "miner_start B argv =
     (case miner_parse_args argv of Inl r \<Rightarrow> Inl r | Inr C \<Rightarrow>
      if fst (log_init (b_log_dir B) (b_log_fd B) (b_pid B) ''miner'' log_closed) \<noteq> OK then Inl FILE_ERROR
      else if fst (transaction_init False (b_regcomp B)) \<noteq> OK then Inl SYS_ERROR
      else if ipc_open_inbox (b_kernel B) ROLE_MINER (mc_idx C) True = Inl IPC_ERROR then Inl IPC_ERROR
      else if \<not> alloc (b_mem B) (nat (mc_num_nodes C) * 4) then Inl SYS_ERROR
      else if list_ex (\<lambda>i. ipc_open_sender (b_kernel B) ROLE_NODE i = Inl IPC_ERROR)
                [0..mc_num_nodes C - 1] then Inl IPC_ERROR
      else let (r, chain) = csv_load (boot_env B) (b_io B) (b_files B) (mc_bootstrap_csv C) chain_init in
      if r \<noteq> OK then Inl FILE_ERROR
      else Inr (C, \<lparr>mchain = chain, mempool = [], pending = []\<rparr>))"

fun miner_loop :: "miner_cfg \<Rightarrow> (bool \<times> round) list \<Rightarrow> miner \<Rightarrow> miner \<times> effect list list" where
  "miner_loop C [] s = (s, [])"
| "miner_loop C ((stop, R) # rounds) s =
     (if stop then (s, [])
      else let (s', fx) = miner_round C R s; (s'', rest) = miner_loop C rounds s' in (s'', fx # rest))"

subsection \<open>The mempool as a list\<close>

lemma mempool_remove_eq [simp]: "mempool_remove pool tx = remove1 tx pool"
proof (cases "find (\<lambda>i. strcmp (pool ! i) tx = 0) [0..<length pool]")
  case None
  then have "tx \<notin> set pool" by (auto simp: find_None_iff in_set_conv_nth)
  then show ?thesis using None by (simp add: mempool_remove_def remove1_idem)
next
  case (Some i)
  then have i: "i < length pool" "pool ! i = tx" "\<forall>j < i. pool ! j \<noteq> tx"
    by (auto simp: find_Some_iff)
  then have "pool = take i pool @ tx # drop (i + 1) pool" by (metis Suc_eq_plus1 id_take_nth_drop)
  moreover have "tx \<notin> set (take i pool)" using i by (auto simp: in_set_conv_nth)
  ultimately have "remove1 tx pool = take i pool @ drop (i + 1) pool"
    by (metis remove1.simps(2) remove1_append)
  then show ?thesis using Some by (simp add: mempool_remove_def)
qed

definition valid_tx :: "string \<Rightarrow> bool" where
  "valid_tx t \<longleftrightarrow> tx_shape t \<and> length t < 128"

lemma mempool_add_list:
  "\<forall>t \<in> set ts. length t < 128 \<Longrightarrow> foldl mempool_add pool ts = pool @ take (1024 - length pool) ts"
proof (induction ts arbitrary: pool)
  case (Cons t ts)
  show ?case
  proof (cases "length pool < 1024")
    case True
    then have "1024 - length pool = Suc (1023 - length pool)" by simp
    then show ?thesis using Cons True by (simp add: mempool_add_def)
  qed (use Cons in \<open>simp add: mempool_add_def\<close>)
qed simp

lemma mset_mempool_remove: "mset (foldl mempool_remove pool ts) = mset pool - mset ts"
  by (induction ts arbitrary: pool) (simp_all add: diff_diff_add)

lemma set_mempool_remove: "set (foldl mempool_remove pool ts) \<subseteq> set pool"
  by (metis mset_mempool_remove diff_subset_eq_self set_mset_mono set_mset_mset)

lemma length_mempool_remove: "length (foldl mempool_remove pool ts) \<le> length pool"
  by (metis mset_mempool_remove diff_subset_eq_self size_mset size_mset_mono)

subsection \<open>What a settlement decides\<close>

text \<open>The fate of a block of ours, given the chain: not decided, final, or beaten.\<close>

datatype fate = Open | Won | Lost

definition fate_of :: "allocator \<Rightarrow> chain_t \<Rightarrow> block_t \<Rightarrow> pending_t \<Rightarrow> fate" where
  "fate_of M c tip p =
     (case chain_find_index c (pd_index p) of None \<Rightarrow> Open | Some kept \<Rightarrow>
      (case block_hash M kept of Inl _ \<Rightarrow> Open | Inr h \<Rightarrow>
       if h = pd_hash p then (if b_index tip > pd_index p then Won else Open) else Lost))"

lemma settle_from_step:
  assumes "i < length (pending s)"
  shows "settle_from M tip i s =
    (case fate_of M (mchain s) tip (pending s ! i) of
       Open \<Rightarrow> settle_from M tip (i + 1) s
     | Won \<Rightarrow> settle_from M tip i (s\<lparr>pending := pending_drop (pending s) i\<rparr>)
     | Lost \<Rightarrow> settle_from M tip i (s\<lparr>mempool := pending_requeue (mempool s) (pending s ! i),
                pending := pending_drop (pending s) i\<rparr>))"
  using assms
  by (subst settle_from.simps)
    (auto simp: fate_of_def Let_def cong: option.case_cong sum.case_cong split: option.split sum.split)

lemma settle_from_eq:
  "settle_from M tip i s =
     s\<lparr>mempool := foldl mempool_add (mempool s)
         (concat (map pd_txs (filter (\<lambda>p. fate_of M (mchain s) tip p = Lost) (drop i (pending s))))),
       pending := take i (pending s) @ filter (\<lambda>p. fate_of M (mchain s) tip p = Open) (drop i (pending s))\<rparr>"
proof (induction "length (pending s) - i" arbitrary: i s rule: less_induct)
  case less
  show ?case
  proof (cases "i < length (pending s)")
    case False
    then show ?thesis by (simp add: settle_from.simps [of _ _ i])
  next
    case True
    let ?p = "pending s ! i"
    have d: "drop i (pending s) = ?p # drop (i + 1) (pending s)" using True by (simp add: Cons_nth_drop_Suc)
    have t: "take (i + 1) (pending s) = take i (pending s) @ [?p]" using True by (simp add: take_Suc_conv_app_nth)
    have cut: "take i (pending_drop (pending s) i) = take i (pending s)"
      "drop i (pending_drop (pending s) i) = drop (i + 1) (pending s)"
      "length (pending_drop (pending s) i) - i < length (pending s) - i"
      using True by (auto simp: pending_drop_def)
    have n: "length (pending s) - (i + 1) < length (pending s) - i" using True by simp
    show ?thesis
      using less [of s "i + 1", OF n] less [of "s\<lparr>pending := pending_drop (pending s) i\<rparr>" i]
        less [of "s\<lparr>mempool := pending_requeue (mempool s) ?p, pending := pending_drop (pending s) i\<rparr>" i]
        cut d t
      by (cases "fate_of M (mchain s) tip ?p")
        (simp_all add: settle_from_step [OF True] pending_requeue_def)
  qed
qed

subsection \<open>The invariant\<close>

definition pending_ok :: "pending_t \<Rightarrow> bool" where
  "pending_ok p \<longleftrightarrow> hex64 (pd_hash p) \<and> length (pd_txs p) \<le> 16 \<and> (\<forall>t \<in> set (pd_txs p). valid_tx t)"

definition miner_inv :: "miner \<Rightarrow> bool" where
  "miner_inv s \<longleftrightarrow> chain_inv (mchain s)
     \<and> length (mempool s) \<le> 1024 \<and> (\<forall>t \<in> set (mempool s). valid_tx t)
     \<and> length (pending s) \<le> 8 \<and> (\<forall>p \<in> set (pending s). pending_ok p)"

text \<open>Whatever is added to the mempool, it stays bounded; adding and removing keeps it valid.\<close>

lemma pool_add_ok:
  assumes "length pool \<le> 1024" "\<forall>t \<in> set pool. valid_tx t" "\<forall>t \<in> set ts. valid_tx t"
  shows "length (foldl mempool_add pool ts) \<le> 1024" "\<forall>t \<in> set (foldl mempool_add pool ts). valid_tx t"
  using assms mempool_add_list [of ts pool] by (auto simp: valid_tx_def dest: in_set_takeD)

lemma pool_remove_ok:
  assumes "length pool \<le> 1024" "\<forall>t \<in> set pool. valid_tx t"
  shows "length (foldl mempool_remove pool ts) \<le> 1024" "\<forall>t \<in> set (foldl mempool_remove pool ts). valid_tx t"
  using assms length_mempool_remove [of pool ts] set_mempool_remove [of pool ts] by (blast intro: order_trans)+

lemma pending_settle_inv: "miner_inv s \<Longrightarrow> miner_inv (pending_settle M s)"
proof -
  assume inv: "miner_inv s"
  have "miner_inv (settle_from M tip 0 s)" for tip
  proof -
    define ts where "ts = concat (map pd_txs (filter (\<lambda>p. fate_of M (mchain s) tip p = Lost) (pending s)))"
    have "\<forall>t \<in> set ts. valid_tx t" using inv by (auto simp: ts_def miner_inv_def pending_ok_def)
    then have "length (foldl mempool_add (mempool s) ts) \<le> 1024"
        "\<forall>t \<in> set (foldl mempool_add (mempool s) ts). valid_tx t"
      using inv pool_add_ok [of "mempool s" ts] by (simp_all add: miner_inv_def)
    moreover have "length (filter (\<lambda>p. fate_of M (mchain s) tip p = Open) (pending s)) \<le> 8"
      using inv length_filter_le order_trans unfolding miner_inv_def by blast
    ultimately show ?thesis
      using inv by (simp add: miner_inv_def settle_from_eq ts_def)
  qed
  then show ?thesis using inv by (auto simp: pending_settle_def split: option.split)
qed

lemma pending_settle_chain [simp]: "mchain (pending_settle M s) = mchain s"
  by (simp add: pending_settle_def settle_from_eq split: option.split)

lemma take_message_chain:
  "mchain (snd (take_message E msg s)) = (if m_type msg = type_code MSG_BLOCK then
     case block_from_csv_row (payload msg) of Inl _ \<Rightarrow> mchain s | Inr b \<Rightarrow> snd (chain_append E (mchain s) b)
   else mchain s)"
  by (auto simp: take_message_def Let_def split: sum.split option.split prod.split)

lemma take_message_inv:
  assumes "miner_inv s"
  shows "miner_inv (snd (take_message E msg s))"
proof (cases "m_type msg = type_code MSG_BLOCK")
  case False
  then show ?thesis
    using assms by (auto simp: take_message_def miner_inv_def mempool_add_def valid_tx_def transaction_is_valid_iff)
next
  case True
  show ?thesis
  proof (cases "block_from_csv_row (payload msg)")
    case (Inl r)
    then show ?thesis using assms True by (simp add: take_message_def)
  next
    case (Inr b)
    obtain res c where app: "chain_append E (mchain s) b = (res, c)" by fastforce
    have "chain_inv c"
      using led.inv_append [of "mchain s" b E] payload_block_ok [OF Inr] assms app
      by (simp add: miner_inv_def)
    then have s1: "miner_inv (s\<lparr>mchain := c\<rparr>)"
      "miner_inv (s\<lparr>mchain := c, mempool := foldl mempool_remove (mempool s) ts\<rparr>)" for ts
      using assms pool_remove_ok [of "mempool s" ts] by (auto simp: miner_inv_def)
    show ?thesis
      using True s1 pending_settle_inv [OF s1(2)]
      by (auto simp: take_message_def Inr app Let_def split: option.split)
  qed
qed

lemma drain_inbox_inv: "miner_inv s \<Longrightarrow> miner_inv (snd (drain_inbox ms s))"
proof (induction ms s rule: drain_inbox.induct)
  case (2 E msg ms s)
  then show ?case using take_message_inv [of s E msg] by (auto split: prod.split)
qed simp

text \<open>When the tip did not move, nothing but the end of the mempool has changed.\<close>

lemma take_message_still:
  assumes "miner_inv s" "take_message E msg s = (False, s')"
  shows "mchain s' = mchain s \<and> pending s' = pending s \<and> (\<exists>more. mempool s' = mempool s @ more)"
proof (cases "m_type msg = type_code MSG_BLOCK")
  case False
  then show ?thesis
    using assms(2) by (auto simp: take_message_def mempool_add_def split: if_splits)
next
  case True
  show ?thesis
  proof (cases "block_from_csv_row (payload msg)")
    case (Inl r)
    then show ?thesis using assms(2) True by (simp add: take_message_def)
  next
    case (Inr b)
    have inv: "chain_inv (mchain s)" and ok: "block_ok b"
      using assms(1) payload_block_ok [OF Inr] by (simp_all add: miner_inv_def)
    obtain res c where app: "chain_append E (mchain s) b = (res, c)" by fastforce
    note eff = led.effect [OF inv ok, of E, unfolded app fst_conv snd_conv]
    have c: "chain_inv c" using led.inv_append [OF inv ok, of E] app by simp
    have moved: "fst (take_message E msg s)" if "res = APPEND_OK \<or> res = APPEND_REPLACED"
    proof (cases "res = APPEND_OK")
      case True
      then have cv: "c_v c = c_v (mchain s) @ [b]" using eff by simp
      have "b_index b = of_nat (length (c_v (mchain s)))"
        using chain_invD(2) [OF c] cv by (simp add: linked_snoc)
      then have "map_option b_index (chain_tip (mchain s)) \<noteq> Some (b_index b)"
        using tip_index(1) [OF inv] index_conv(3) [of "length (c_v (mchain s))" "b_index b"] chain_invD(3) [OF inv]
        by (auto simp: chain_tip_eq [OF inv] unat_of_nat take_bit_nat_eq_self)
      then show ?thesis
        using cv True \<open>m_type msg = type_code MSG_BLOCK\<close>
        by (simp add: take_message_def Inr app Let_def chain_tip_eq [OF c])
    next
      case False
      then have "res = APPEND_REPLACED" "c_v c \<noteq> []" using that eff by auto
      then show ?thesis
        using \<open>m_type msg = type_code MSG_BLOCK\<close>
        by (simp add: take_message_def Inr app Let_def chain_tip_eq [OF c])
    qed
    then have "res \<noteq> APPEND_OK" "res \<noteq> APPEND_REPLACED" using assms(2) by auto
    then have "c = mchain s" "s' = s\<lparr>mchain := c\<rparr>"
      using eff assms(2) True by (cases res; simp add: take_message_def Inr app)+
    then show ?thesis by simp
  qed
qed

lemma drain_inbox_still:
  "miner_inv s \<Longrightarrow> drain_inbox ms s = (False, s') \<Longrightarrow>
    mchain s' = mchain s \<and> pending s' = pending s \<and> (\<exists>more. mempool s' = mempool s @ more)"
proof (induction ms s rule: drain_inbox.induct)
  case (2 E msg ms s)
  obtain moved s1 where s1: "take_message E msg s = (moved, s1)" by fastforce
  then have "\<not> moved" "drain_inbox ms s1 = (False, s')" using 2(3) by (auto split: prod.splits)
  with s1 2(1) [of "(False, s1)" False s1] take_message_still [OF 2(2)] take_message_inv [OF 2(2), of E msg]
  show ?case by fastforce
qed simp

subsection \<open>What a round sends\<close>

lemma new_candidate_eq:
  assumes "miner_inv s" "new_candidate M now s = Some c"
  shows "c_v (mchain s) \<noteq> []" "c = block_with (of_nat (length (c_v (mchain s)))) now 0
    (digest_of (last (c_v (mchain s)))) (take 16 (mempool s))"
proof -
  have inv: "chain_inv (mchain s)" using assms(1) by (simp add: miner_inv_def)
  show ne: "c_v (mchain s) \<noteq> []"
    using assms(2) by (auto simp: new_candidate_def chain_tip_eq [OF inv] split: if_splits)
  let ?n = "if length (mempool s) > 16 then 16 else length (mempool s)"
  have txs: "map (\<lambda>i. mempool s ! i) [0..<?n] = take 16 (mempool s)" "?n = length (take 16 (mempool s))"
    by (auto intro: nth_equalityI)
  obtain h r where hr: "block_hash M (last (c_v (mchain s))) = Inr h" "merkle_root M (take 16 (mempool s)) = Inr r"
    "c = \<lparr>b_index = b_index (last (c_v (mchain s))) + 1, b_timestamp = now, b_nonce = 0, b_prev_hash = h,
      b_merkle_root = r, b_txs = take 16 (mempool s) @ replicate (16 - ?n) [], b_tx_count = ?n\<rparr>"
    using assms(2) ne unfolding new_candidate_def Let_def txs(1) chain_tip_eq [OF inv]
    by (auto split: sum.splits)
  have "of_nat (length (c_v (mchain s)) - 1) + 1 = (of_nat (length (c_v (mchain s))) :: u64)"
    using ne of_nat_Suc [of "length (c_v (mchain s)) - 1", where ?'a = u64] by (simp add: add.commute)
  then show "c = block_with (of_nat (length (c_v (mchain s)))) now 0
      (digest_of (last (c_v (mchain s)))) (take 16 (mempool s))"
    using hr merkle_root_Inr [OF hr(2)] block_hash_Inr [OF tip_index(2) [OF inv ne] hr(1)]
      tip_index(1) [OF inv ne] txs(2) by (simp add: block_with_def)
qed

lemma mine_inv: "miner_inv s \<Longrightarrow> miner_inv (snd (snd (mine d ts c s)))"
proof (induction d ts c s rule: mine.induct)
  case (2 d t ts c s)
  then show ?case using drain_inbox_inv [of s "t_inbox t"] by (auto split: prod.split)
qed simp

lemma mine_True:
  "miner_inv s \<Longrightarrow> mine d ts c s = (True, c', s') \<Longrightarrow>
    mchain s' = mchain s \<and> pending s' = pending s \<and> (\<exists>more. mempool s' = mempool s @ more)
    \<and> (\<exists>n. c' = c\<lparr>b_nonce := n\<rparr>)"
proof (induction d ts c s rule: mine.induct)
  case (2 d t ts c s)
  obtain moved s1 where s1: "drain_inbox (t_inbox t) s = (moved, s1)" by fastforce
  have st: "\<not> t_signal t" "\<not> moved" using 2(3) s1 by (auto split: if_splits)
  then have still: "mchain s1 = mchain s" "pending s1 = pending s" "\<exists>more. mempool s1 = mempool s @ more"
    using drain_inbox_still [OF 2(2)] s1 by auto
  have inv: "miner_inv s1" using drain_inbox_inv [OF 2(2), of "t_inbox t"] s1 by simp
  show ?case
  proof (cases "int (t_random t) mod d = 0")
    case True
    then have "c' = c\<lparr>b_nonce := b_nonce c\<rparr>" "s' = s1" using 2(3) s1 st by auto
    then show ?thesis using still by blast
  next
    case False
    then have "mine d ts (c\<lparr>b_nonce := b_nonce c + 1\<rparr>) s1 = (True, c', s')" using 2(3) s1 st by simp
    from 2(1) [OF st(1) s1 [symmetric] refl st(2) False inv this] still show ?thesis by auto
  qed
qed simp

lemma candidate_competes:
  assumes "chain_inv c" "c_v c \<noteq> []" "ts \<noteq> []" "length ts \<le> 16" "\<forall>t \<in> set ts. valid_tx t"
  shows "competes (c_v c) (block_with (of_nat (length (c_v c))) now n (digest_of (last (c_v c))) ts)"
  using assms chain_invD(3) [OF assms(1)]
  by (auto simp: competes_def valid_tx_def unat_of_nat take_bit_nat_eq_self intro!: block_with_valid)

text \<open>The messages a round may read; what every one of them preserves holds after it.\<close>

definition heard :: "round \<Rightarrow> (env \<times> msg_t) list" where
  "heard R = r_inbox R @ concat (map t_inbox (r_turns R))"

lemma drain_inbox_closed:
  assumes "\<And>E m s. (E, m) \<in> set ms \<Longrightarrow> miner_inv s \<Longrightarrow> Q s \<Longrightarrow> Q (snd (take_message E m s))"
  shows "miner_inv s \<Longrightarrow> Q s \<Longrightarrow> Q (snd (drain_inbox ms s))"
  using assms
proof (induction ms s rule: drain_inbox.induct)
  case (2 E msg ms s)
  obtain moved s1 where s1: "take_message E msg s = (moved, s1)" by fastforce
  have "Q s1" "miner_inv s1" using 2(4) [of E msg s] 2(2,3) take_message_inv [OF 2(2), of E msg] s1 by simp_all
  then have "Q (snd (drain_inbox ms s1))" using 2(1) [OF s1 [symmetric] refl] 2(4) by simp
  then show ?case using s1 by (cases "drain_inbox ms s1") simp
qed simp

lemma mine_closed:
  assumes "\<And>E m s. (E, m) \<in> set (concat (map t_inbox ts)) \<Longrightarrow> miner_inv s \<Longrightarrow> Q s \<Longrightarrow> Q (snd (take_message E m s))"
  shows "miner_inv s \<Longrightarrow> Q s \<Longrightarrow> Q (snd (snd (mine d ts c s)))"
  using assms
proof (induction d ts c s rule: mine.induct)
  case (2 d t ts c s)
  obtain moved s1 where s1: "drain_inbox (t_inbox t) s = (moved, s1)" by fastforce
  have "Q s1" using drain_inbox_closed [of "t_inbox t" Q s] 2(2-4) s1 by simp
  moreover have "miner_inv s1" using drain_inbox_inv [OF 2(2), of "t_inbox t"] s1 by simp
  ultimately have "Q (snd (snd (mine d ts (c\<lparr>b_nonce := b_nonce c + 1\<rparr>) s1)))"
    if "\<not> t_signal t" "\<not> moved" "int (t_random t) mod d \<noteq> 0"
    using 2(1) [OF that(1) s1 [symmetric] refl that(2,3)] 2(4) by simp
  with \<open>Q s1\<close> 2(3) s1 show ?case by simp
qed simp

text \<open>A round is silent, or it sends one block to all nodes.\<close>

lemma miner_round_cases_closed:
  assumes "miner_inv s" "Q s"
    "\<And>E m s. (E, m) \<in> set (heard R) \<Longrightarrow> miner_inv s \<Longrightarrow> Q s \<Longrightarrow> Q (snd (take_message E m s))"
  obtains (silent) s2 where "miner_inv s2" "Q s2" "miner_round C R s = (s2, [])"
  | (sent) s2 ts rest n c where "miner_inv s2" "Q s2" "c_v (mchain s2) \<noteq> []"
      "mempool s2 = ts @ rest" "ts \<noteq> []" "length ts \<le> 16"
      "c = block_with (of_nat (length (c_v (mchain s2)))) (r_now R) n (digest_of (last (c_v (mchain s2)))) ts"
      "miner_round C R s = (book c (digest_of c) s2,
         map (\<lambda>i. Send (To_node i) (block_out C (csv_row c))) [0..<nat (mc_num_nodes C)])"
      "ts = take 16 (mempool (snd (drain_inbox (r_inbox R) s)))"
proof -
  define s1 where "s1 = snd (drain_inbox (r_inbox R) s)"
  have inv1: "miner_inv s1" unfolding s1_def by (rule drain_inbox_inv [OF assms(1)])
  have q1: "Q s1"
    unfolding s1_def
    by (rule drain_inbox_closed [where Q = Q, OF _ assms(1,2)]) (rule assms(3), simp_all add: heard_def)
  show thesis
  proof (cases "mempool s1 = [] \<or> new_candidate (r_mem R) (r_now R) s1 = None")
    case True
    then have "miner_round C R s = (s1, [])" by (auto simp: miner_round_def Let_def s1_def)
    with inv1 q1 show thesis by (rule silent)
  next
    case False
    then obtain c0 where c0: "mempool s1 \<noteq> []" "new_candidate (r_mem R) (r_now R) s1 = Some c0" by auto
    obtain mined c s2 where m: "mine (mc_difficulty C) (r_turns R) c0 s1 = (mined, c, s2)" by (metis prod_cases3)
    have inv2: "miner_inv s2" using mine_inv [OF inv1, of "mc_difficulty C" "r_turns R" c0] m by simp
    have q2: "Q s2"
    proof -
      have "Q (snd (snd (mine (mc_difficulty C) (r_turns R) c0 s1)))"
        by (rule mine_closed [where Q = Q, OF _ inv1 q1]) (rule assms(3), simp_all add: heard_def)
      then show ?thesis using m by simp
    qed
    show thesis
    proof (cases "r_abort R \<or> \<not> mined \<or> r_stop R \<or> (\<exists>r. block_hash (r_mem R) c = Inl r)")
      case True
      then have "miner_round C R s = (s2, [])"
        using c0 m by (auto simp: miner_round_def Let_def s1_def split: sum.split)
      with inv2 q2 show thesis by (rule silent)
    next
      case False
      then obtain h where h: "\<not> r_abort R" "mined" "\<not> r_stop R" "block_hash (r_mem R) c = Inr h"
        by (cases "block_hash (r_mem R) c") auto
      obtain more n where s2: "mchain s2 = mchain s1" "mempool s2 = mempool s1 @ more" "c = c0\<lparr>b_nonce := n\<rparr>"
        using mine_True [OF inv1, of "mc_difficulty C" "r_turns R" c0 c s2] m h(2) by metis
      let ?ts = "take 16 (mempool s1)"
      note N = new_candidate_eq [OF inv1 c0(2)]
      have ne: "c_v (mchain s2) \<noteq> []" using N(1) s2(1) by simp
      have c: "c = block_with (of_nat (length (c_v (mchain s2)))) (r_now R) n (digest_of (last (c_v (mchain s2)))) ?ts"
        unfolding s2(3) N(2) s2(1) by (simp add: block_with_def)
      have pool: "mempool s2 = ?ts @ drop 16 (mempool s1) @ more" "?ts \<noteq> []" "length ?ts \<le> 16"
        using s2(2) c0(1) by simp_all
      have "valid_block c" unfolding c
        using candidate_competes [of "mchain s2" ?ts] inv2 ne pool by (auto simp: competes_def miner_inv_def)
      then have ok: "block_ok c" by (simp add: valid_block_def)
      have hc: "h = digest_of c" using block_hash_Inr [OF ok h(4)] .
      have row: "block_to_csv_row c [] MSG_PAYLOAD_MAX = (OK, csv_row c)" using block_to_csv_row_ok [OF ok, of 4064] by simp
      have "miner_round C R s = (book c (digest_of c) s2,
         map (\<lambda>i. Send (To_node i) (block_out C (csv_row c))) [0..<nat (mc_num_nodes C)])"
        using c0 m h hc row by (simp add: miner_round_def Let_def s1_def)
      with inv2 q2 ne pool c show thesis by (rule sent) (simp add: s1_def)
    qed
  qed
qed

lemmas miner_round_cases = miner_round_cases_closed [where Q = "\<lambda>s. True", simplified]

text \<open>What is booked: the block joins the pending ones, the oldest of eight gives way.\<close>

lemma book_eq:
  fixes i :: u64
  assumes "\<forall>t \<in> set ts. valid_tx t" "hex64 h"
  defines "p \<equiv> \<lparr>pd_index = i, pd_hash = h, pd_txs = ts\<rparr>"
  shows "book (block_with i t n q ts) h s =
    (if length (pending s) = 8
     then s\<lparr>mempool := foldl mempool_remove (foldl mempool_add (mempool s) (pd_txs (hd (pending s)))) ts,
            pending := tl (pending s) @ [p]\<rparr>
     else s\<lparr>mempool := foldl mempool_remove (mempool s) ts, pending := pending s @ [p]\<rparr>)"
proof -
  have "map (\<lambda>i. snprintf_out 128 ((ts @ replicate (16 - length ts) []) ! i)) [0..<length ts] = ts"
  proof (rule nth_equalityI)
    fix k assume "k < length (map (\<lambda>i. snprintf_out 128 ((ts @ replicate (16 - length ts) []) ! i)) [0..<length ts])"
    then have k: "k < length ts" by simp
    then have "length (ts ! k) < 128" using assms(1) by (simp add: valid_tx_def)
    with k show "map (\<lambda>i. snprintf_out 128 ((ts @ replicate (16 - length ts) []) ! i)) [0..<length ts] ! k = ts ! k"
      by (simp add: nth_append snprintf_out_def)
  qed simp
  moreover have "snprintf_out 65 h = h" using assms(2) by (simp add: hex64_def snprintf_out_def)
  moreover have "map (\<lambda>i. (ts @ replicate (16 - length ts) []) ! i) [0..<length ts] = ts"
    by (rule nth_equalityI) (simp_all add: nth_append)
  ultimately show ?thesis
    by (cases "pending s")
      (auto simp: book_def pending_add_def block_with_def p_def Let_def pending_requeue_def pending_drop_def)
qed

lemma book_inv:
  assumes "miner_inv s" "\<forall>t \<in> set ts. valid_tx t" "length ts \<le> 16" "hex64 h"
  shows "miner_inv (book (block_with i t n q ts) h s)"
proof -
  let ?p = "\<lparr>pd_index = i, pd_hash = h, pd_txs = ts\<rparr>"
  have p: "pending_ok ?p" using assms by (simp add: pending_ok_def)
  have pool: "length (mempool s) \<le> 1024" "\<forall>t \<in> set (mempool s). valid_tx t" using assms(1) by (simp_all add: miner_inv_def)
  show ?thesis
  proof (cases "length (pending s) = 8")
    case True
    then obtain p0 ps where ps: "pending s = p0 # ps" by (cases "pending s") auto
    then have "\<forall>t \<in> set (pd_txs p0). valid_tx t" using assms(1) by (simp add: miner_inv_def pending_ok_def)
    note q = pool_remove_ok [OF pool_add_ok [OF pool this], of ts]
    show ?thesis using assms(1) p ps True q by (simp add: book_eq [OF assms(2,4)] miner_inv_def)
  next
    case False
    then show ?thesis
      using assms(1) p pool_remove_ok [OF pool, of ts] by (auto simp: book_eq [OF assms(2,4)] miner_inv_def)
  qed
qed

lemma miner_round_inv:
  assumes "miner_inv s"
  shows "miner_inv (fst (miner_round C R s))"
proof (cases rule: miner_round_cases [OF assms, of C R])
  case (1 s2)
  then show ?thesis by simp
next
  case (2 s2 ts rest n c)
  have "\<forall>t \<in> set ts. valid_tx t" using 2(1,3) by (auto simp: miner_inv_def)
  from book_inv [OF 2(1) this 2(5) digest_hex64 [of c]] show ?thesis unfolding 2(7) 2(6) fst_conv .
qed

lemma miner_loop_inv: "miner_inv s \<Longrightarrow> miner_inv (fst (miner_loop C rounds s))"
proof (induction C rounds s rule: miner_loop.induct)
  case (2 C stop R rounds s)
  then show ?case using miner_round_inv [of s C R] by (auto split: prod.splits)
qed simp

lemma miner_start_inv:
  assumes "miner_start B argv = Inr (C, s)"
  shows "miner_inv s"
proof -
  have "chain_inv (snd (csv_load E io d path chain_init))" for E io d path
    by (auto simp: csv_load_def load_rows_inv split: option.splits)
  then show ?thesis
    using assms by (auto simp: miner_start_def miner_inv_def Let_def split: sum.splits if_splits prod.splits)
      (metis snd_conv)
qed

subsection \<open>What a node does with a mined block\<close>

lemma payload_block_out: "block_ok b \<Longrightarrow> payload (block_out C (csv_row b)) = csv_row b"
  using csv_row_bounds(2) [of b] by (simp add: block_out_def)

lemma node_takes_block:
  assumes t: "node_inv t" and ok: "block_ok b"
    and app: "append_spec (c_v (g_chain t)) b = (APPEND_OK, c_v (g_chain t) @ [b])"
    and env: "length (c_v (g_chain t)) < 2 ^ 49" "o_env e = env0" "\<not> seen_contains t (digest_of b)"
    and m: "m_type m = 1" "block_from_csv_row (payload m) = Inr b"
  shows "c_v (g_chain (fst (node_step N e t m))) = c_v (g_chain t) @ [b]
    \<and> (fst (csv_save (o_io e) (n_files t) (g_snapshot_path N) (g_chain (fst (node_step N e t m)))) = OK
       \<longrightarrow> snd (node_step N e t m) = gossip N m)"
proof -
  obtain r c where rc: "chain_append env0 (g_chain t) b = (r, c)" by fastforce
  have "chain_inv (g_chain t)" using t by (simp add: node_inv_def)
  then have "(r, c_v c) = (APPEND_OK, c_v (g_chain t) @ [b])"
    using led0.refines [of "g_chain t" b] ok env(1) app rc by simp
  then have "r = APPEND_OK" "c_v c = c_v (g_chain t) @ [b]" by simp_all
  then show ?thesis
    using m env ok rc by (auto simp: node_step_def handle_block_def Let_def split: prod.splits)
qed

subsection \<open>The transactions a miner is responsible for\<close>

text \<open>Those in the mempool and those in blocks of its own that are not decided yet.\<close>

definition held :: "miner \<Rightarrow> string multiset" where
  "held s = mset (mempool s) + mset (concat (map pd_txs (pending s)))"

text \<open>On the blocks of the chain: a block of ours has been beaten, or is below the tip.\<close>

definition beaten :: "block_t list \<Rightarrow> pending_t \<Rightarrow> bool" where
  "beaten bs p \<longleftrightarrow> unat (pd_index p) < length bs \<and> digest_of (bs ! unat (pd_index p)) \<noteq> pd_hash p"

definition buried :: "block_t list \<Rightarrow> pending_t \<Rightarrow> bool" where
  "buried bs p \<longleftrightarrow> Suc (unat (pd_index p)) < length bs \<and> digest_of (bs ! unat (pd_index p)) = pd_hash p"

lemma fate_of_plenty:
  assumes "chain_inv c" "c_v c \<noteq> []"
  shows "fate_of plenty c (last (c_v c)) p =
    (if beaten (c_v c) p then Lost else if buried (c_v c) p then Won else Open)"
proof -
  let ?i = "unat (pd_index p)"
  have tip: "unat (b_index (last (c_v c))) = length (c_v c) - 1"
    using tip_index(1) [OF assms] index_conv(4) [of "length (c_v c)"] chain_invD(3) [OF assms(1)] assms(2) by simp
  have "block_ok (c_v c ! ?i)" if "?i < length (c_v c)"
    using linkedD(3) [OF chain_invD(2) [OF assms(1)] that] .
  moreover have "pd_index p < b_index (last (c_v c)) \<longleftrightarrow> Suc ?i < length (c_v c)"
    unfolding word_less_nat_alt tip by auto
  ultimately show ?thesis
    by (auto simp: fate_of_def beaten_def buried_def chain_find_index_eq [OF assms(1)])
qed

lemma pending_settle_eq:
  assumes "miner_inv s" "c_v (mchain s) \<noteq> []"
  defines "bs \<equiv> c_v (mchain s)"
  shows "pending_settle plenty s =
    s\<lparr>mempool := foldl mempool_add (mempool s) (concat (map pd_txs (filter (beaten bs) (pending s)))),
      pending := filter (\<lambda>p. \<not> beaten bs p \<and> \<not> buried bs p) (pending s)\<rparr>"
proof -
  have inv: "chain_inv (mchain s)" using assms(1) by (simp add: miner_inv_def)
  have "(\<lambda>p. fate_of plenty (mchain s) (last (c_v (mchain s))) p = Lost) = beaten bs"
    "(\<lambda>p. fate_of plenty (mchain s) (last (c_v (mchain s))) p = Open) = (\<lambda>p. \<not> beaten bs p \<and> \<not> buried bs p)"
    unfolding bs_def by (auto simp: fun_eq_iff fate_of_plenty [OF inv assms(2)])
  then show ?thesis
    using assms(2) by (simp add: pending_settle_def chain_tip_eq [OF inv] settle_from_eq)
qed

lemma mset_pool_add:
  "\<forall>t \<in> set ts. valid_tx t \<Longrightarrow> length pool + length ts \<le> 1024 \<Longrightarrow>
    mset (foldl mempool_add pool ts) = mset pool + mset ts"
  using mempool_add_list [of ts pool] by (simp add: valid_tx_def)

lemma mset_filter_split:
  "mset (concat (map f (filter P xs))) + mset (concat (map f (filter (\<lambda>x. \<not> P x \<and> \<not> Q x) xs)))
    + mset (concat (map f (filter (\<lambda>x. \<not> P x \<and> Q x) xs))) = mset (concat (map f xs))"
  by (induction xs) (auto simp: ac_simps)

lemma beaten_not_buried: "buried bs p \<Longrightarrow> \<not> beaten bs p"
  by (simp add: beaten_def buried_def)

lemma diff_inter: "A - B + (A \<inter># B) = A" for A B :: "'a multiset"
  by (rule multiset_eqI) simp

lemma settle_held:
  assumes "miner_inv s" "size (held s) \<le> 1024" "c_v (mchain s) \<noteq> []"
  shows "held (pending_settle plenty s)
      + mset (concat (map pd_txs (filter (buried (c_v (mchain s))) (pending s)))) = held s"
proof -
  let ?bs = "c_v (mchain s)"
  let ?ts = "concat (map pd_txs (filter (beaten ?bs) (pending s)))"
  have "filter (\<lambda>p. \<not> beaten ?bs p \<and> buried ?bs p) (pending s) = filter (buried ?bs) (pending s)"
    using beaten_not_buried by (intro filter_cong) auto
  then have split: "mset ?ts + mset (concat (map pd_txs (filter (\<lambda>p. \<not> beaten ?bs p \<and> \<not> buried ?bs p) (pending s))))
      + mset (concat (map pd_txs (filter (buried ?bs) (pending s)))) = mset (concat (map pd_txs (pending s)))"
    using mset_filter_split [of pd_txs "beaten ?bs" "pending s" "buried ?bs"] by (simp only:)
  from arg_cong [OF this, of size] have "length ?ts \<le> length (concat (map pd_txs (pending s)))"
    unfolding size_union size_mset by linarith
  then have room: "length (mempool s) + length ?ts \<le> 1024"
    using assms(2) unfolding held_def size_union size_mset by linarith
  have "\<forall>t \<in> set ?ts. valid_tx t" using assms(1) by (auto simp: miner_inv_def pending_ok_def)
  from mset_pool_add [OF this room] split show ?thesis
    unfolding pending_settle_eq [OF assms(1,3)] held_def by (simp add: ac_simps)
qed

lemma book_held:
  assumes "miner_inv s" "mset ts \<subseteq># mset (mempool s)" "hex64 h" "size (held s) \<le> 1024"
  shows "held (book (block_with i now n q ts) h s) = held s"
proof -
  have "set ts \<subseteq> set (mempool s)" using assms(2) by (metis set_mset_mono set_mset_mset)
  then have vt: "\<forall>t \<in> set ts. valid_tx t" using assms(1) by (auto simp: miner_inv_def)
  obtain r where r: "mset (mempool s) = mset ts + r" using assms(2) by (metis subset_mset.add_diff_inverse)
  show ?thesis
  proof (cases "length (pending s) = 8")
    case True
    then obtain p0 ps where ps: "pending s = p0 # ps" by (cases "pending s") auto
    then have "\<forall>t \<in> set (pd_txs p0). valid_tx t" using assms(1) by (simp add: miner_inv_def pending_ok_def)
    then have "mset (foldl mempool_add (mempool s) (pd_txs p0)) = mset (mempool s) + mset (pd_txs p0)"
      using assms(4) ps by (intro mset_pool_add) (simp_all add: held_def)
    then show ?thesis
      using True ps r by (simp add: book_eq [OF vt assms(3)] held_def mset_mempool_remove del: foldl_append)
  next
    case False
    then show ?thesis using r by (simp add: book_eq [OF vt assms(3)] held_def mset_mempool_remove)
  qed
qed

text \<open>The state after a message that moved the tip.\<close>

lemma take_message_moved:
  assumes inv: "miner_inv s" and t: "take_message E msg s = (True, s')"
  defines "tip \<equiv> last (c_v (mchain s'))"
  shows "c_v (mchain s') \<noteq> []"
    "s' = pending_settle (mem E) (s\<lparr>mchain := mchain s', mempool := foldl mempool_remove (mempool s) (txs_of tip)\<rparr>)"
    "miner_inv (s\<lparr>mchain := mchain s', mempool := foldl mempool_remove (mempool s) (txs_of tip)\<rparr>)"
proof -
  have ty: "m_type msg = type_code MSG_BLOCK" using t by (auto simp: take_message_def split: if_splits)
  then obtain b where b: "block_from_csv_row (payload msg) = Inr b"
    using t by (auto simp: take_message_def split: sum.splits)
  obtain res c where app: "chain_append E (mchain s) b = (res, c)" by fastforce
  have cinv: "chain_inv c"
    using led.inv_append [of "mchain s" b E] payload_block_ok [OF b] inv app by (simp add: miner_inv_def)
  have c: "mchain s' = c" using take_message_chain [of E msg s] t ty b app by simp
  show ne: "c_v (mchain s') \<noteq> []"
    using t ty b app by (auto simp: c take_message_def chain_tip_eq [OF cinv] Let_def split: if_splits)
  have txs: "map (\<lambda>i. b_txs tip ! i) [0..<b_tx_count tip] = txs_of tip"
    unfolding tip_def c using txs_of_nth [OF block_okD(3) [OF tip_index(2) [OF cinv]]] ne c by simp
  show "s' = pending_settle (mem E) (s\<lparr>mchain := mchain s', mempool := foldl mempool_remove (mempool s) (txs_of tip)\<rparr>)"
    unfolding txs [symmetric] using t ty b app ne
    by (auto simp: c tip_def take_message_def chain_tip_eq [OF cinv] Let_def split: if_splits)
  show "miner_inv (s\<lparr>mchain := mchain s', mempool := foldl mempool_remove (mempool s) (txs_of tip)\<rparr>)"
    using inv cinv pool_remove_ok [of "mempool s" "txs_of tip"] by (simp add: miner_inv_def c)
qed

lemma take_message_held:
  assumes inv: "miner_inv s" and room: "size (held s) < 1024"
    and E: "mem E = plenty" "re_ok E" and t: "take_message E m s = (moved, s')"
  shows "if moved then held s' + (mset (mempool s) \<inter># mset (txs_of (last (c_v (mchain s')))))
          + mset (concat (map pd_txs (filter (buried (c_v (mchain s'))) (pending s)))) = held s
       else if m_type m = type_code MSG_TX \<and> valid_tx (payload m) then held s' = add_mset (payload m) (held s)
       else held s' = held s"
proof (cases moved)
  case True
  have "take_message E m s = (True, s')" using t True by simp
  note M = take_message_moved [OF inv this]
  let ?tx = "txs_of (last (c_v (mchain s')))"
  let ?s = "s\<lparr>mchain := mchain s', mempool := foldl mempool_remove (mempool s) ?tx\<rparr>"
  have h: "held ?s + (mset (mempool s) \<inter># mset ?tx) = held s"
    using diff_inter [of "mset (mempool s)" "mset ?tx"]
    by (simp add: held_def mset_mempool_remove ac_simps) 
  then have "size (held ?s) \<le> 1024" using room by (metis size_union le_add1 less_imp_le order_trans)
  from settle_held [OF M(3) this] M(1) have "held (pending_settle plenty ?s)
      + mset (concat (map pd_txs (filter (buried (c_v (mchain s'))) (pending s)))) = held ?s" by simp
  then have "held s' + mset (concat (map pd_txs (filter (buried (c_v (mchain s'))) (pending s)))) = held ?s"
    using M(2) E(1) by simp
  then show ?thesis unfolding h [symmetric] using True by (simp add: ac_simps)
next
  case False
  have pool: "length (mempool s) < 1024" using room by (simp add: held_def)
  show ?thesis
  proof (cases "m_type m = type_code MSG_TX")
    case True
    then show ?thesis
      using t False pool E(2)
      by (auto simp: take_message_def mempool_add_def transaction_is_valid_iff valid_tx_def held_def)
  next
    case other: False
    have "mempool s' = mempool s \<and> pending s' = pending s"
      using t False other take_message_still [OF inv, of E m s']
      by (auto simp: take_message_def Let_def split: if_splits sum.splits option.splits prod.splits)
    then show ?thesis using False other by (simp add: held_def)
  qed
qed

subsection \<open>Samples for the witnesses\<close>

definition mcfg0 :: miner_cfg where
  "mcfg0 = \<lparr>mc_idx = 0, mc_num_nodes = 3, mc_difficulty = 1, mc_bootstrap_csv = ''b.csv''\<rparr>"

definition margv0 :: "string list" where
  "margv0 = [''miner'', dec 0, dec 3, dec 1, dec 1, ''b.csv'']"

definition miner0 :: miner where "miner0 = \<lparr>mchain = chain1, mempool = [tx1, tx2], pending = []\<rparr>"

definition round0 :: round where
  "round0 = \<lparr>r_inbox = [], r_mem = plenty, r_now = 7, r_turns = [\<lparr>t_signal = False, t_inbox = [], t_random = 0\<rparr>],
     r_stop = False, r_abort = False\<rparr>"

lemma miner0_inv [simp]: "miner_inv miner0"
  by (simp add: miner_inv_def miner0_def valid_tx_def)

lemma miner0_starts: "miner_start boot0 margv0
    = Inr (mcfg0, \<lparr>mchain = snd (csv_load env0 disk0 (\<lambda>q. Some (file_text [genesis1])) ''b.csv'' chain_init),
        mempool = [], pending = []\<rparr>)"
proof -
  have "miner_parse_args margv0 = Inr mcfg0"
    by (simp add: miner_parse_args_def margv0_def mcfg0_def atoi_dec Let_def)
  moreover have "boot_env boot0 = env0" by (simp add: boot_env_def boot0_def transaction_init_def)
  moreover have "fst (log_init (b_log_dir boot0) (b_log_fd boot0) (b_pid boot0) ''miner'' log_closed) = OK"
    by (simp add: log_init_OK boot0_def)
  moreover have "ipc_open_sender (b_kernel boot0) ROLE_NODE i \<noteq> Inl IPC_ERROR" if "0 \<le> i" "i < 2 ^ 31" for i
    using open_sender_ok(1) [of ROLE_NODE "nat i" "b_kernel boot0" 4] that by (simp add: boot0_def nat_less_iff)
  moreover have "ipc_open_inbox (b_kernel boot0) ROLE_MINER 0 True \<noteq> Inl IPC_ERROR"
    using open_sender_ok [of ROLE_MINER 0 "b_kernel boot0" 4] by (simp add: boot0_def)
  moreover have "mc_idx mcfg0 = 0" "mc_num_nodes mcfg0 = 3" "mc_bootstrap_csv mcfg0 = ''b.csv''" by (simp_all add: mcfg0_def)
  moreover have "fst (transaction_init False (b_regcomp boot0)) = OK" "alloc (b_mem boot0) 12"
    by (simp_all add: boot0_def transaction_init_def alloc_def)
  moreover have "b_io boot0 = disk0" "b_files boot0 = (\<lambda>q. Some (file_text [genesis1]))" by (simp_all add: boot0_def)
  ultimately show ?thesis
    using genesis_file [of "''b.csv''"] by (auto simp: miner_start_def Let_def list_ex_iff split: prod.split)
qed

lemma round0_mines: "snd (miner_round mcfg0 round0 miner0) \<noteq> []"
proof -
  have c: "new_candidate plenty 7 miner0 \<noteq> None"
    using block_hash_plenty [OF samples_ok(1)] merkle_root_plenty [of "[tx1, tx2]"]
      chain_tip_eq [OF chain1_inv(1)] tx_samples(3,4)
    by (simp add: new_candidate_def miner0_def Let_def upt_rec)
  then obtain b where b: "new_candidate plenty 7 miner0 = Some b" by auto
  from new_candidate_eq [OF miner0_inv b]
  have "b = block_with 1 7 0 (digest_of genesis1) [tx1, tx2]" by (simp add: miner0_def)
  then have "valid_block b" by (simp add: block_with_valid)
  then have ok: "block_ok b" by (simp add: valid_block_def)
  from ok b show ?thesis
    using block_hash_plenty [OF ok] block_to_csv_row_ok [OF ok, of 4064]
    by (simp add: miner_round_def round0_def mcfg0_def miner0_def [symmetric] Let_def)
      (simp add: miner0_def)
qed

subsection \<open>Properties\<close>

text \<open>C26: through any run of a miner, whatever messages, random numbers, signals and memory it meets,
  its chain is a linked chain of valid blocks, the mempool holds at most 1024 transactions, all
  valid, and at most eight blocks of its own wait for a decision.\<close>

theorem miner_stays_well_formed:
  assumes "miner_start B argv = Inr (C, s)"
  shows "miner_inv (fst (miner_loop C rounds s))"
  by (rule miner_loop_inv [OF miner_start_inv [OF assms]])

theorem miner_stays_well_formed_witness:
  "\<exists>s. miner_start boot0 margv0 = Inr (mcfg0, s)
    \<and> miner_inv (fst (miner_loop mcfg0 [(False, round0), (True, round0)] s))"
  using miner_stays_well_formed [OF miner0_starts] miner0_starts by blast

text \<open>C11: a block a miner sends goes to every node in one message. It is the miner's tip extended by
  one valid block with the first transactions, at most sixteen, that the mempool held after the
  inbox was emptied at the start of the round; and every node that has the same chain and has not
  the hash of the block in its ring appends it when it handles that message, and passes it on
  once its chain is saved.\<close>

theorem mined_block_is_appended:
  assumes "miner_inv s" "miner_round C R s = (s', fx)" "fx \<noteq> []"
  shows "\<exists>b. fx = map (\<lambda>i. Send (To_node i) (block_out C (csv_row b))) [0..<nat (mc_num_nodes C)]
    \<and> valid_block b \<and> b_prev_hash b = digest_of (last (c_v (mchain s')))
    \<and> txs_of b = take 16 (mempool (snd (drain_inbox (r_inbox R) s)))
    \<and> (\<forall>N e t. node_inv t \<and> c_v (g_chain t) = c_v (mchain s') \<and> length (c_v (g_chain t)) < 2 ^ 49
          \<and> o_env e = env0 \<and> \<not> seen_contains t (digest_of b) \<longrightarrow>
         (let (t', out) = node_step N e t (block_out C (csv_row b))
          in c_v (g_chain t') = c_v (g_chain t) @ [b]
            \<and> (fst (csv_save (o_io e) (n_files t) (g_snapshot_path N) (g_chain t')) = OK
                \<longrightarrow> out = gossip N (block_out C (csv_row b)))))
    \<and> last (pending s') = \<lparr>pd_index = b_index b, pd_hash = digest_of b, pd_txs = txs_of b\<rparr>"
proof (cases rule: miner_round_cases [OF assms(1), of C R])
  case (1 s2)
  then show ?thesis using assms(2,3) by simp
next
  case (2 s2 ts rest n c)
  have ts: "\<forall>t \<in> set ts. valid_tx t" and inv: "chain_inv (mchain s2)" using 2(1,3) by (auto simp: miner_inv_def)
  have comp: "competes (c_v (mchain s2)) c"
    unfolding 2(6) by (rule candidate_competes [OF inv 2(2,4,5) ts])
  then have valid: "valid_block c" by (simp add: competes_def)
  then have ok: "block_ok c" by (simp add: valid_block_def)
  have s': "s' = book c (digest_of c) s2" using 2(7) assms(2) by simp
  have mine: "mchain s' = mchain s2" "last (pending s')
      = \<lparr>pd_index = b_index c, pd_hash = digest_of c, pd_txs = txs_of c\<rparr>"
    using book_eq [OF ts digest_hex64 [of c]] unfolding s' 2(6) by simp_all
  have handled: "c_v (g_chain (fst (node_step N e t (block_out C (csv_row c))))) = c_v (g_chain t) @ [c]
      \<and> (fst (csv_save (o_io e) (n_files t) (g_snapshot_path N)
             (g_chain (fst (node_step N e t (block_out C (csv_row c)))))) = OK
         \<longrightarrow> snd (node_step N e t (block_out C (csv_row c))) = gossip N (block_out C (csv_row c)))"
    if t: "node_inv t" "c_v (g_chain t) = c_v (mchain s2)" "length (c_v (g_chain t)) < 2 ^ 49"
      "o_env e = env0" "\<not> seen_contains t (digest_of c)" for N e t
  proof (rule node_takes_block [OF t(1) ok _ t(3-5)])
    show "append_spec (c_v (g_chain t)) c = (APPEND_OK, c_v (g_chain t) @ [c])"
      using spec_first [OF comp] t(2) by simp
    show "m_type (block_out C (csv_row c)) = 1" by (simp add: block_out_def)
    show "block_from_csv_row (payload (block_out C (csv_row c))) = Inr c"
      by (simp only: payload_block_out [OF ok] block_from_csv_row_of_row [OF ok])
  qed
  have "fx = map (\<lambda>i. Send (To_node i) (block_out C (csv_row c))) [0..<nat (mc_num_nodes C)]"
    using 2(7) assms(2) by simp
  moreover have "txs_of c = ts" "b_prev_hash c = digest_of (last (c_v (mchain s2)))" unfolding 2(6) by simp_all
  moreover have "\<forall>N e t. node_inv t \<and> c_v (g_chain t) = c_v (mchain s') \<and> length (c_v (g_chain t)) < 2 ^ 49
          \<and> o_env e = env0 \<and> \<not> seen_contains t (digest_of c) \<longrightarrow>
         (let (t', out) = node_step N e t (block_out C (csv_row c))
          in c_v (g_chain t') = c_v (g_chain t) @ [c]
            \<and> (fst (csv_save (o_io e) (n_files t) (g_snapshot_path N) (g_chain t')) = OK
                \<longrightarrow> out = gossip N (block_out C (csv_row c))))"
    unfolding mine(1) Let_def split_def using handled by blast
  ultimately show ?thesis
    using valid mine 2(8) by (intro exI [of _ c]) simp
qed

theorem mined_block_is_appended_witness:
  "\<exists>b. snd (miner_round mcfg0 round0 miner0)
      = map (\<lambda>i. Send (To_node i) (block_out mcfg0 (csv_row b))) [0..<3] \<and> valid_block b"
proof -
  obtain s' fx where r: "miner_round mcfg0 round0 miner0 = (s', fx)" by fastforce
  then have "fx \<noteq> []" using round0_mines by simp
  from mined_block_is_appended [OF miner0_inv r this] show ?thesis using r by (auto simp: mcfg0_def)
qed

text \<open>C20: when the chain moves, exactly the blocks of ours that were beaten at their height give their
  transactions back to the mempool, in order and as far as there is room, exactly those below the
  tip are forgotten, and all others keep waiting.\<close>

theorem settlement:
  assumes "miner_inv s" "c_v (mchain s) \<noteq> []"
  defines "bs \<equiv> c_v (mchain s)"
  shows "pending (pending_settle plenty s) = filter (\<lambda>p. \<not> beaten bs p \<and> \<not> buried bs p) (pending s)
    \<and> mempool (pending_settle plenty s) = mempool s @ take (1024 - length (mempool s))
        (concat (map pd_txs (filter (beaten bs) (pending s))))
    \<and> mchain (pending_settle plenty s) = mchain s"
proof -
  let ?ts = "concat (map pd_txs (filter (beaten bs) (pending s)))"
  have "\<forall>t \<in> set ?ts. length t < 128"
    using assms(1) by (auto simp: miner_inv_def pending_ok_def valid_tx_def)
  from mempool_add_list [OF this, of "mempool s"] show ?thesis
    unfolding pending_settle_eq [OF assms(1,2), folded bs_def] by simp
qed

definition tx_in :: "string \<Rightarrow> msg_t" where
  "tx_in tx = zero_msg\<lparr>m_type := type_code MSG_TX, m_payload := fill tx\<rparr>"

text \<open>Three blocks of a miner: one beaten, one final, one above the chain.\<close>

definition not_genesis_hash :: string where
  "not_genesis_hash = (if digest_of genesis1 = zeros64 then replicate 64 (CHR ''1'') else zeros64)"

definition miner1 :: miner where
  "miner1 = \<lparr>mchain = g_chain donor, mempool = [tx2],
     pending = [\<lparr>pd_index = 0, pd_hash = not_genesis_hash, pd_txs = [tx1]\<rparr>,
       \<lparr>pd_index = 0, pd_hash = digest_of genesis1, pd_txs = [tx2]\<rparr>,
       \<lparr>pd_index = 2, pd_hash = zeros64, pd_txs = [tx2, tx1]\<rparr>]\<rparr>"

lemma not_genesis_hash: "not_genesis_hash \<noteq> digest_of genesis1" "hex64 not_genesis_hash"
  by (auto simp: not_genesis_hash_def zeros64_def hex64_def list_all_iff lower_hex_def isdigit_def)

lemma miner1_inv [simp]: "miner_inv miner1"
  using donor_inv(1) not_genesis_hash(2)
  by (simp add: miner_inv_def miner1_def node_inv_def valid_tx_def pending_ok_def)

theorem settlement_witness:
  "pending (pending_settle plenty miner1) = [\<lparr>pd_index = 2, pd_hash = zeros64, pd_txs = [tx2, tx1]\<rparr>]
    \<and> mempool (pending_settle plenty miner1) = [tx2, tx1]"
  using settlement [OF miner1_inv] not_genesis_hash(1)
  by (auto simp: miner1_def beaten_def buried_def)

text \<open>C28: with room in the mempool no transaction gets lost or doubled. A valid transaction that arrives
  is added; a message that does not move the tip takes none away; one that moves it takes away
  those of the mempool that are in the new tip, and those of own blocks that are below the tip
  now; and sending a block only moves its transactions from the mempool to the block that waits.
  (Those taken away with the block of another miner are no longer held: should that block lose its
  height later, giving them back is left to the miner that sent it.)\<close>

theorem transactions_are_kept:
  assumes "miner_inv s" "size (held s) < 1024"
  shows "(mem E = plenty \<and> re_ok E \<and> take_message E m s = (moved, s') \<longrightarrow>
      (if moved then held s' + (mset (mempool s) \<inter># mset (txs_of (last (c_v (mchain s')))))
          + mset (concat (map pd_txs (filter (buried (c_v (mchain s'))) (pending s)))) = held s
       else if m_type m = type_code MSG_TX \<and> valid_tx (payload m) then held s' = add_mset (payload m) (held s)
       else held s' = held s))
    \<and> (ts \<noteq> [] \<and> length ts \<le> 16 \<and> mset ts \<subseteq># mset (mempool s) \<and> hex64 h
      \<longrightarrow> held (book (block_with i now n q ts) h s) = held s)"
  using take_message_held [OF assms, of E m moved s'] book_held [OF assms(1), of ts h i now n q] assms(2)
  by auto

theorem transactions_are_kept_witness:
  "held (book (block_with 2 7 0 zeros64 [tx2]) (digest_of block1) miner1) = held miner1
    \<and> held (snd (take_message env0 (tx_in tx1) miner1)) = add_mset tx1 (held miner1)"
proof -
  have "size (held miner1) < 1024" by (simp add: held_def miner1_def)
  note T = transactions_are_kept [OF miner1_inv this, of env0 "tx_in tx1" _ _ "[tx2]" "digest_of block1" 2 7 0 zeros64]
  have "NUL \<notin> set tx1" using tx_shape_clean [of tx1 NUL] by simp
  moreover have "length tx1 < 4064" using tx_samples(3) by linarith
  ultimately have tx: "m_type (tx_in tx1) = type_code MSG_TX" "payload (tx_in tx1) = tx1" "valid_tx tx1"
    by (simp_all add: tx_in_def valid_tx_def)
  obtain s' where s': "take_message env0 (tx_in tx1) miner1 = (False, s')"
    using tx by (simp add: take_message_def)
  have "mset [tx2] \<subseteq># mset (mempool miner1)" by (simp add: miner1_def)
  with T [of False s'] s' tx show ?thesis by simp
qed

subsection \<open>A miner that has missed a block\<close>

definition only_ahead :: "nat \<Rightarrow> (env \<times> msg_t) list \<Rightarrow> bool" where
  \<comment> \<open>every block in these messages has an index above \<open>n\<close>\<close>
  "only_ahead n ms \<longleftrightarrow> list_all (\<lambda>(E, m). m_type m = type_code MSG_BLOCK \<longrightarrow>
     (case block_from_csv_row (payload m) of Inl _ \<Rightarrow> True | Inr b \<Rightarrow> n < unat (b_index b))) ms"

lemma append_ahead:
  assumes "chain_inv c" "block_ok b" "length (c_v c) < unat (b_index b)"
  shows "snd (chain_append E c b) = c"
proof -
  note eff = led.effect [OF assms(1,2), of E]
  have inv: "chain_inv (snd (chain_append E c b))" by (rule led.inv_append [OF assms(1,2)])
  have small: "unat (of_nat k :: u64) = k" if "k \<le> length (c_v c)" for k
    using that chain_invD(3) [OF assms(1)] by (simp add: unat_of_nat take_bit_nat_eq_self)
  have "fst (chain_append E c b) \<noteq> APPEND_OK"
    using eff chain_invD(2) [OF inv] assms(3) small [of "length (c_v c)"] by (auto simp: linked_snoc)
  moreover have "fst (chain_append E c b) \<noteq> APPEND_REPLACED"
    using eff tip_index(1) [OF assms(1)] assms(3) small [of "length (c_v c) - 1"] by auto
  ultimately show ?thesis using eff by (cases "fst (chain_append E c b)") auto
qed

lemma drain_ahead:
  "miner_inv s \<Longrightarrow> only_ahead (length (c_v (mchain s))) ms \<Longrightarrow> mchain (snd (drain_inbox ms s)) = mchain s"
proof (induction ms s rule: drain_inbox.induct)
  case (2 E msg ms s)
  obtain moved s1 where s1: "take_message E msg s = (moved, s1)" by fastforce
  have inv: "chain_inv (mchain s)" using 2(2) by (simp add: miner_inv_def)
  have "mchain s1 = mchain s"
    using take_message_chain [of E msg s] s1 2(3) append_ahead [OF inv payload_block_ok [of msg]]
    by (auto simp: only_ahead_def split: if_splits sum.splits)
  moreover have "miner_inv s1" using take_message_inv [OF 2(2), of E msg] s1 by simp
  moreover have "only_ahead (length (c_v (mchain s))) ms" using 2(3) by (simp add: only_ahead_def)
  ultimately have "mchain (snd (drain_inbox ms s1)) = mchain s1"
    using 2(1) [OF s1 [symmetric] refl] by simp
  then show ?case using s1 \<open>mchain s1 = mchain s\<close> by (cases "drain_inbox ms s1") simp
qed simp

lemma mine_ahead:
  "miner_inv s \<Longrightarrow> only_ahead (length (c_v (mchain s))) (concat (map t_inbox ts)) \<Longrightarrow>
    mchain (snd (snd (mine d ts c s))) = mchain s"
proof (induction d ts c s rule: mine.induct)
  case (2 d t ts c s)
  obtain moved s1 where s1: "drain_inbox (t_inbox t) s = (moved, s1)" by fastforce
  have "only_ahead (length (c_v (mchain s))) (t_inbox t)"
    "only_ahead (length (c_v (mchain s))) (concat (map t_inbox ts))"
    using 2(3) by (simp_all add: only_ahead_def)
  moreover from this have "mchain s1 = mchain s" using drain_ahead [OF 2(2), of "t_inbox t"] s1 by simp
  moreover have "miner_inv s1" using drain_inbox_inv [OF 2(2), of "t_inbox t"] s1 by simp
  ultimately show ?case using 2(1) [OF _ s1 [symmetric] refl] s1 by (simp split: prod.split)
qed simp

lemma miner_round_ahead:
  assumes "miner_inv s" "only_ahead (length (c_v (mchain s))) (heard R)"
  shows "mchain (fst (miner_round C R s)) = mchain s"
proof -
  define s1 where "s1 = snd (drain_inbox (r_inbox R) s)"
  have a: "only_ahead (length (c_v (mchain s))) (r_inbox R)"
    "only_ahead (length (c_v (mchain s))) (concat (map t_inbox (r_turns R)))"
    using assms(2) by (simp_all add: only_ahead_def heard_def)
  have s1: "mchain s1 = mchain s" "miner_inv s1"
    unfolding s1_def using drain_ahead [OF assms(1) a(1)] drain_inbox_inv [OF assms(1)] by simp_all
  have "mchain (snd (snd (mine d (r_turns R) c s1))) = mchain s" for d c
    using mine_ahead [OF s1(2), of "r_turns R"] a(2) s1(1) by simp
  then have m: "mchain s2 = mchain s" if "mine d (r_turns R) c s1 = (b, c', s2)" for d c b c' s2
    using that by (metis snd_conv)
  have bk: "mchain (book c h s2) = mchain s2" for c h s2
    by (simp add: book_def pending_add_def Let_def)
  show ?thesis
    using s1(1) by (auto simp: miner_round_def Let_def s1_def [symmetric] bk dest!: m
        split: option.split prod.split sum.split)
qed

lemma miner_loop_ahead:
  "miner_inv s \<Longrightarrow> list_all (\<lambda>(stop, R). only_ahead (length (c_v (mchain s))) (heard R)) rounds \<Longrightarrow>
    mchain (fst (miner_loop C rounds s)) = mchain s
    \<and> list_all (list_all (\<lambda>x. \<exists>i b. x = Send (To_node i) (block_out C (csv_row b))
        \<and> unat (b_index b) = length (c_v (mchain s)))) (snd (miner_loop C rounds s))"
proof (induction C rounds s rule: miner_loop.induct)
  case (1 C s)
  then show ?case by simp
next
  case (2 C stop R rounds s)
  show ?case
  proof (cases stop)
    case True
    then show ?thesis by simp
  next
    case False
    obtain s' fx where r: "miner_round C R s = (s', fx)" by fastforce
    have s': "mchain s' = mchain s" "miner_inv s'"
      using miner_round_ahead [OF 2(2), of R C] miner_round_inv [OF 2(2), of C R] 2(3) r by simp_all
    have "list_all (\<lambda>x. \<exists>i b. x = Send (To_node i) (block_out C (csv_row b))
        \<and> unat (b_index b) = length (c_v (mchain s))) fx"
    proof (cases rule: miner_round_cases [OF 2(2), of C R])
      case (1 s2)
      then show ?thesis using r by simp
    next
      case (2 s2 ts rest n c)
      have "mchain s' = mchain s2" using r 2(7) by (auto simp: book_def pending_add_def Let_def)
      moreover have "length (c_v (mchain s2)) < 2 ^ 52" using 2(1) chain_invD(3) by (simp add: miner_inv_def)
      ultimately have "unat (b_index c) = length (c_v (mchain s))"
        using 2(6) s'(1) by (simp add: unat_of_nat take_bit_nat_eq_self)
      then show ?thesis using r 2(7) by (auto simp: list_all_iff) blast
    qed
    then show ?thesis using 2(1) [OF False r [symmetric] refl s'(2)] 2(3) s'(1) r False
      by (cases "miner_loop C rounds s'") simp
  qed
qed

lemma miner_loop_sends:
  "miner_inv s \<Longrightarrow> list_all (list_all (\<lambda>x. \<exists>i b. x = Send (To_node i) (block_out C (csv_row b)) \<and> valid_block b))
    (snd (miner_loop C rounds s))"
proof (induction C rounds s rule: miner_loop.induct)
  case (2 C stop R rounds s)
  obtain s' fx where r: "miner_round C R s = (s', fx)" by fastforce
  have inv: "miner_inv s'" using miner_round_inv [OF 2(2), of C R] r by simp
  have "list_all (\<lambda>x. \<exists>i b. x = Send (To_node i) (block_out C (csv_row b)) \<and> valid_block b) fx"
  proof (cases rule: miner_round_cases [OF 2(2), of C R])
    case (1 s2)
    then show ?thesis using r by simp
  next
    case (2 s2 ts rest n c)
    have "competes (c_v (mchain s2)) c"
      unfolding 2(6) using 2(1,3) by (intro candidate_competes 2(2,4,5)) (auto simp: miner_inv_def)
    then have "valid_block c" by (simp add: competes_def)
    moreover have "fx = map (\<lambda>i. Send (To_node i) (block_out C (csv_row c))) [0..<nat (mc_num_nodes C)]"
      using r 2(7) by simp
    ultimately show ?thesis unfolding list_all_iff by (auto intro!: exI [of _ c])
  qed
  then show ?case using 2(1) [OF _ r [symmetric] refl inv] r by (cases "miner_loop C rounds s'") simp
qed simp

text \<open>C30: a miner has no recovery. Over any run it sends nothing but valid blocks of its own to nodes, so
  it never asks anybody for a block. As long as the block after its tip is not sent to it (again)
  and every block it hears of is further ahead, its chain does not move, and every block it mines
  has the index of the block it missed.\<close>

theorem miner_cannot_recover:
  assumes "miner_inv s"
  shows "list_all (list_all (\<lambda>x. \<exists>i b. x = Send (To_node i) (block_out C (csv_row b)) \<and> valid_block b))
      (snd (miner_loop C rounds s))
    \<and> (list_all (\<lambda>(stop, R). only_ahead (length (c_v (mchain s))) (heard R)) rounds \<longrightarrow>
      mchain (fst (miner_loop C rounds s)) = mchain s
      \<and> list_all (list_all (\<lambda>x. \<exists>i b. x = Send (To_node i) (block_out C (csv_row b))
          \<and> unat (b_index b) = length (c_v (mchain s)))) (snd (miner_loop C rounds s)))"
  using miner_loop_sends [OF assms] miner_loop_ahead [OF assms] by blast

theorem miner_cannot_recover_witness:
  "mchain (fst (miner_loop mcfg0 [(False, round0\<lparr>r_inbox := [(env0, block_msg far_block)]\<rparr>)] miner0)) = chain1"
proof -
  have "block_ok far_block" by (simp add: far_block_def block_with_ok plain_tx_shape)
  then have "only_ahead 1 [(env0, block_msg far_block)]"
    by (simp add: only_ahead_def block_from_csv_row_of_row) (simp add: far_block_def)
  then have "only_ahead (length (c_v (mchain miner0))) (heard (round0\<lparr>r_inbox := [(env0, block_msg far_block)]\<rparr>))"
    by (simp add: heard_def round0_def miner0_def only_ahead_def)
  then show ?thesis
    using miner_cannot_recover [OF miner0_inv, of mcfg0 "[(False, round0\<lparr>r_inbox := [(env0, block_msg far_block)]\<rparr>)]"]
    by (simp add: miner0_def)
qed

end
