(* ===== verification/Rotation.thy ===== *)
theory Rotation
  imports Prelude
begin

section \<open>Round robin\<close>

text \<open>
  The client and the command line both hand transactions to the miners in turn and skip the dead
  ones. What their loops look for is the first candidate from a starting point on, in cyclic order.
  The locale \<open>rotation\<close> is what both promise; its lemmas say that the turns are fair.
\<close>

definition cyclic :: "nat \<Rightarrow> nat \<Rightarrow> nat list" where
  "cyclic start n = map (\<lambda>k. (start + k) mod n) [0..<n]"

definition cyclic_first :: "(nat \<Rightarrow> bool) \<Rightarrow> nat \<Rightarrow> nat \<Rightarrow> nat option" where
  "cyclic_first ok start n = find ok (cyclic start n)"

lemma cyclic_rotate: "cyclic start n = rotate start [0..<n]"
  by (rule nth_equalityI) (simp_all add: cyclic_def nth_rotate)

lemma cyclic_facts [simp]: "set (cyclic start n) = {0..<n}" "distinct (cyclic start n)"
  by (simp_all add: cyclic_rotate)

lemma cyclic_first_None: "cyclic_first ok start n = None \<longleftrightarrow> (\<forall>t < n. \<not> ok t)"
  by (auto simp: cyclic_first_def find_None_iff)

lemma cyclic_first_Some: "cyclic_first ok start n = Some t \<Longrightarrow> ok t \<and> t < n"
proof -
  assume "cyclic_first ok start n = Some t"
  then have "t \<in> set (cyclic start n)" "ok t"
    unfolding cyclic_first_def by (metis find_Some_iff nth_mem)+
  then show "ok t \<and> t < n" by simp
qed

lemma cyclic_first_start:
  assumes "0 < n" "ok (start mod n)"
  shows "cyclic_first ok start n = Some (start mod n)"
proof -
  have "cyclic start n = start mod n # map (\<lambda>k. (start + k) mod n) [1..<n]"
    unfolding cyclic_def upt_conv_Cons [OF assms(1)] by simp
  then show ?thesis using assms(2) by (simp add: cyclic_first_def)
qed

lemma cyclic_first_cong:
  assumes "start mod n = start' mod n" "\<And>t. t < n \<Longrightarrow> ok t = ok' t"
  shows "cyclic_first ok start n = cyclic_first ok' start' n"
proof -
  have "cyclic start n = cyclic start' n"
    unfolding cyclic_def using assms(1) by (metis mod_add_left_eq)
  then show ?thesis
    unfolding cyclic_first_def using assms(2) cyclic_facts(1) [of start' n] by (auto intro!: find_cong)
qed

fun turns :: "('s \<Rightarrow> nat option \<times> 's) \<Rightarrow> nat \<Rightarrow> 's \<Rightarrow> nat option list" where
  "turns next 0 s = []"
| "turns next (Suc m) s = fst (next s) # turns next m (snd (next s))"

locale rotation =
  fixes "next" :: "'s \<Rightarrow> nat option \<times> 's"
    and start :: "'s \<Rightarrow> nat"
    and ok :: "'s \<Rightarrow> nat \<Rightarrow> bool"
    and size :: nat
  assumes picks: "fst (next s) = cyclic_first (ok s) (start s) size"
    and moves: "0 < size \<Longrightarrow> \<forall>t < size. ok s t \<Longrightarrow>
      start (snd (next s)) mod size = (start s + 1) mod size \<and> (\<forall>t < size. ok (snd (next s)) t)"
begin

lemma picks_some: "fst (next s) = Some t \<Longrightarrow> ok s t \<and> t < size"
  unfolding picks by (rule cyclic_first_Some)

lemma picks_none: "fst (next s) = None \<longleftrightarrow> (\<forall>t < size. \<not> ok s t)"
  unfolding picks by (rule cyclic_first_None)

text \<open>While all are there, everyone gets its turn: \<open>size\<close> turns in a row serve each once.\<close>

lemma fair:
  "0 < size \<Longrightarrow> \<forall>t < size. ok s t \<Longrightarrow>
    turns next m s = map (\<lambda>k. Some ((start s + k) mod size)) [0..<m]"
proof (induction m arbitrary: s)
  case (Suc m)
  have "start s mod size < size" using Suc.prems(1) by simp
  then have p: "fst (next s) = Some (start s mod size)"
    using Suc.prems unfolding picks by (intro cyclic_first_start) auto
  from moves [OF Suc.prems] have st: "start (snd (next s)) mod size = (start s + 1) mod size"
    and all: "\<forall>t < size. ok (snd (next s)) t" by auto
  have "(start (snd (next s)) + k) mod size = (start s + Suc k) mod size" for k
    using st by (metis add_Suc_right add_Suc_shift mod_add_left_eq Suc_eq_plus1)
  then have "turns next m (snd (next s)) = map (\<lambda>k. Some ((start s + Suc k) mod size)) [0..<m]"
    using Suc.IH [OF Suc.prems(1) all] by simp
  moreover have "[0..<Suc m] = 0 # map Suc [0..<m]" by (metis map_Suc_upt upt_conv_Cons zero_less_Suc)
  ultimately show ?case using p by (simp add: comp_def)
qed simp

end

text \<open>
  A rotation that moves on by one in every turn, also past those it has to skip, and whose turns do
  not change who is there.
\<close>

locale steady_rotation = rotation +
  assumes advances: "0 < size \<Longrightarrow> start (snd (next s)) mod size = (start s + 1) mod size"
    and keeps: "t < size \<Longrightarrow> ok (snd (next s)) t = ok s t"
begin

lemma turns_eq:
  "0 < size \<Longrightarrow> turns next m s = map (\<lambda>k. cyclic_first (ok s) (start s + k) size) [0..<m]"
proof (induction m arbitrary: s)
  case (Suc m)
  have "(start (snd (next s)) + k) mod size = (start s + Suc k) mod size" for k
    using advances [OF Suc.prems, of s] by (metis add_Suc_right add_Suc_shift mod_add_left_eq Suc_eq_plus1)
  then have "cyclic_first (ok (snd (next s))) (start (snd (next s)) + k) size
      = cyclic_first (ok s) (start s + Suc k) size" for k
    by (intro cyclic_first_cong keeps)
  then have "turns next m (snd (next s)) = map (\<lambda>k. cyclic_first (ok s) (start s + Suc k) size) [0..<m]"
    using Suc.IH [OF Suc.prems] by simp
  moreover have "[0..<Suc m] = 0 # map Suc [0..<m]" by (metis map_Suc_upt upt_conv_Cons zero_less_Suc)
  ultimately show ?case by (simp add: comp_def picks)
qed simp

text \<open>Whoever is there is picked in any \<open>size\<close> turns in a row.\<close>

lemma served:
  assumes "t < size" "ok s t"
  shows "\<exists>k < size. cyclic_first (ok s) (start s + (i + k)) size = Some t"
proof -
  have "t \<in> set (cyclic (start s + i) size)" using assms(1) by simp
  then obtain k where k: "k < size" "(start s + (i + k)) mod size = t"
    by (auto simp: cyclic_def add.assoc)
  have "0 < size" using assms(1) by simp
  from cyclic_first_start [OF this, of "ok s" "start s + (i + k)"] k assms(2) show ?thesis by auto
qed

end

end
