(* ===== verification/Client.thy ===== *)
theory Client
  imports Miner Rotation
begin

section \<open>The client process (client.c)\<close>

text \<open>
  A client draws a random transaction per period and sends it to the next miner that is alive.
  \<open>cl_counter\<close> is an \<open>int\<close> in the source, whose overflow is undefined; it is a natural number here,
  which is the same as long as the sums with it stay below \<open>2 ^ 31\<close>. The property on the turns says
  so in its hypotheses.
\<close>

subsection \<open>Data\<close>

record client_cfg =
  cc_idx :: int
  cc_num_miner :: int
  cc_freq :: int
  cc_miner_pids :: "int list"

record client =
  cl_counter :: nat
  cl_alive :: "bool list"
  cl_no_miner_logged :: bool
  cl_full :: "bool list"
  cl_lost :: "nat list"

definition client_parse_args :: "string list \<Rightarrow> code + client_cfg" where
  "client_parse_args argv =
     (let argc = int (length argv) in
      if argc < 5 then Inl ARGS_ERROR else
      let idx = atoi (argv ! 1); num_miner = atoi (argv ! 2); freq = atoi (argv ! 3) in
      if num_miner \<noteq> argc - 4 \<or> num_miner < 1 \<or> num_miner > int MAX_MINERS then Inl ARGS_ERROR else
      let pids = map (\<lambda>j. atoi (argv ! (j + 4))) [0..<nat num_miner] in
      if list_ex (\<lambda>p. p \<le> 0) pids then Inl ARGS_ERROR
      else Inr \<lparr>cc_idx = idx, cc_num_miner = num_miner, cc_freq = freq, cc_miner_pids = pids\<rparr>)"

text \<open>The pause between two transactions as \<open>(tv_sec, tv_nsec)\<close>; \<open>None\<close> is the division by zero.\<close>

definition period :: "int \<Rightarrow> (int \<times> int) option" where
  "period freq =
     (if freq = 1 then Some (1, 0)
      else if freq = 0 then None
      else Some (0, sgn freq * (1000000000 div \<bar>freq\<bar>)))"

definition client_init :: "client_cfg \<Rightarrow> client" where
  "client_init C = (let n = nat (cc_num_miner C) in
     \<lparr>cl_counter = 0, cl_alive = replicate n True, cl_no_miner_logged = False,
      cl_full = replicate n False, cl_lost = replicate n 0\<rparr>)"

subsection \<open>One transaction\<close>

text \<open>\<open>kill(pid, 0)\<close> succeeds, or fails with \<open>EPERM\<close> or \<open>ESRCH\<close>.\<close>

datatype probe = Killed | Forbidden | Gone

definition miner_is_alive :: "(int \<Rightarrow> probe) \<Rightarrow> int \<Rightarrow> bool" where
  "miner_is_alive kill0 pid \<longleftrightarrow> kill0 pid = Killed \<or> kill0 pid = Forbidden"

fun pick_miner :: "(nat \<Rightarrow> bool) \<Rightarrow> nat list \<Rightarrow> bool list \<Rightarrow> nat option \<times> bool list" where
  \<comment> \<open>the candidates in the order of the loop; who is gone is marked\<close>
  "pick_miner present [] alive = (None, alive)"
| "pick_miner present (cand # cands) alive =
     (if \<not> alive ! cand then pick_miner present cands alive
      else if present cand then (Some cand, alive)
      else pick_miner present cands (alive[cand := False]))"

definition next_miner :: "client_cfg \<Rightarrow> (int \<Rightarrow> probe) \<Rightarrow> client \<Rightarrow> nat option \<times> client" where
  \<comment> \<open>round robin only on the miners that are still alive\<close>
  "next_miner C kill0 s =
     (let n = nat (cc_num_miner C);
          (target, alive) = pick_miner (\<lambda>c. miner_is_alive kill0 (cc_miner_pids C ! c))
            (map (\<lambda>j. (cl_counter s + j) mod n) [0..<n]) (cl_alive s)
      in (target, s\<lparr>cl_alive := alive, cl_counter := cl_counter s + 1\<rparr>))"

datatype sending = Sent | Again | Broken

record tick =
  k_interrupted :: bool
  k_draws :: "nat \<times> nat \<times> nat"
  k_probe :: "int \<Rightarrow> probe"
  k_send :: sending

definition tx_msg :: "role \<Rightarrow> int \<Rightarrow> string \<Rightarrow> msg_t" where
  "tx_msg r idx tx = zero_msg\<lparr>m_type := type_code MSG_TX, m_role := role_code r, m_idx := of_int idx,
     m_len := of_nat (length tx), m_payload := fill tx\<rparr>"

definition after_send :: "sending \<Rightarrow> nat \<Rightarrow> client \<Rightarrow> client" where
  "after_send r t s =
     (case r of
        Sent \<Rightarrow> (if cl_full s ! t then s\<lparr>cl_full := (cl_full s)[t := False], cl_lost := (cl_lost s)[t := 0]\<rparr> else s)
      | Again \<Rightarrow> s\<lparr>cl_lost := (cl_lost s)[t := cl_lost s ! t + 1],
                   cl_full := (if cl_full s ! t then cl_full s else (cl_full s)[t := True])\<rparr>
      | Broken \<Rightarrow> s)"

definition client_step :: "client_cfg \<Rightarrow> bool \<Rightarrow> tick \<Rightarrow> client \<Rightarrow> client \<times> effect list" where
  "client_step C initialized k s =
     (if k_interrupted k then (s, []) else
      let (r1, r2, r3) = k_draws k;
          tx = snd (transaction_generate_random r1 r2 r3 MAX_TX_LEN)
      in if transaction_is_valid initialized tx \<noteq> OK then (s, []) else
      let (target, s1) = next_miner C (k_probe k) s
      in case target of
           None \<Rightarrow> (s1\<lparr>cl_no_miner_logged := True\<rparr>, [])
         | Some t \<Rightarrow> (after_send (k_send k) t s1, [Send (To_miner t) (tx_msg ROLE_CLIENT (cc_idx C) tx)]))"

fun client_loop :: "client_cfg \<Rightarrow> bool \<Rightarrow> (bool \<times> tick) list \<Rightarrow> client \<Rightarrow> client \<times> effect list" where
  "client_loop C initialized [] s = (s, [])"
| "client_loop C initialized ((stop, k) # ticks) s =
     (if stop then (s, [])
      else let (s1, fx) = client_step C initialized k s; (s2, rest) = client_loop C initialized ticks s1
           in (s2, fx @ rest))"

subsection \<open>The search for a miner\<close>

lemma pick_miner_eq:
  assumes "distinct cands"
  shows "fst (pick_miner present cands alive) = find (\<lambda>c. alive ! c \<and> present c) cands"
    and "length (snd (pick_miner present cands alive)) = length alive"
    and "snd (pick_miner present cands alive) ! c \<Longrightarrow> alive ! c"
    and "alive ! c \<Longrightarrow> present c \<Longrightarrow> snd (pick_miner present cands alive) ! c"
proof -
  show "fst (pick_miner present cands alive) = find (\<lambda>c. alive ! c \<and> present c) cands"
    using assms
  proof (induction cands arbitrary: alive)
    case (Cons a cands)
    have "find (\<lambda>c. (alive[a := False]) ! c \<and> present c) cands = find (\<lambda>c. alive ! c \<and> present c) cands"
      using Cons.prems by (intro find_cong refl) (metis distinct.simps(2) nth_list_update_neq)
    then show ?case using Cons by auto
  qed simp
  show "length (snd (pick_miner present cands alive)) = length alive"
    by (induction present cands alive rule: pick_miner.induct) auto
  show "snd (pick_miner present cands alive) ! c \<Longrightarrow> alive ! c"
  proof (induction present cands alive rule: pick_miner.induct)
    case (2 present cand cands alive)
    have "(alive[cand := False]) ! c \<Longrightarrow> alive ! c"
      by (cases "cand < length alive"; cases "cand = c") (auto simp: list_update_beyond)
    with 2 show ?case by (auto split: if_splits)
  qed simp
  show "alive ! c \<Longrightarrow> present c \<Longrightarrow> snd (pick_miner present cands alive) ! c"
  proof (induction present cands alive rule: pick_miner.induct)
    case (2 present cand cands alive)
    then show ?case by (cases "cand = c") auto
  qed simp
qed

subsection \<open>The turns of the miners\<close>

definition reachable :: "client_cfg \<Rightarrow> (int \<Rightarrow> probe) \<Rightarrow> client \<Rightarrow> nat \<Rightarrow> bool" where
  "reachable C kill0 s t \<longleftrightarrow> cl_alive s ! t \<and> miner_is_alive kill0 (cc_miner_pids C ! t)"

lemma reachable_next:
  "reachable C kill0 (snd (next_miner C kill0 s)) t = reachable C kill0 s t"
proof -
  let ?n = "nat (cc_num_miner C)"
  let ?p = "pick_miner (\<lambda>c. miner_is_alive kill0 (cc_miner_pids C ! c))
      (map (\<lambda>j. (cl_counter s + j) mod ?n) [0..<?n]) (cl_alive s)"
  have d: "distinct (map (\<lambda>j. (cl_counter s + j) mod ?n) [0..<?n])"
    using cyclic_facts(2) [of "cl_counter s" ?n] by (simp only: cyclic_def)
  have "cl_alive (snd (next_miner C kill0 s)) = snd ?p" by (simp add: next_miner_def Let_def split_def)
  then show ?thesis
    using pick_miner_eq(3,4) [OF d] unfolding reachable_def by metis
qed

interpretation turn: steady_rotation "next_miner C kill0" cl_counter "reachable C kill0" "nat (cc_num_miner C)" for C kill0
proof (unfold_locales, goal_cases)
  case (1 s)
  have "distinct (map (\<lambda>j. (cl_counter s + j) mod nat (cc_num_miner C)) [0..<nat (cc_num_miner C)])"
    using cyclic_facts(2) by (simp only: cyclic_def)
  then show ?case
    by (simp add: next_miner_def Let_def split_def pick_miner_eq(1) cyclic_first_def cyclic_def
        reachable_def [abs_def])
qed (simp_all add: reachable_next, simp_all add: next_miner_def Let_def split_def)

definition client_inv :: "client_cfg \<Rightarrow> client \<Rightarrow> bool" where
  "client_inv C s \<longleftrightarrow> length (cl_alive s) = nat (cc_num_miner C)
     \<and> length (cl_full s) = nat (cc_num_miner C) \<and> length (cl_lost s) = nat (cc_num_miner C)"

lemma client_init_inv: "client_inv C (client_init C)"
  by (simp add: client_init_def client_inv_def Let_def)

lemma generated:
  "\<exists>tx. snd (transaction_generate_random r1 r2 r3 MAX_TX_LEN) = tx \<and> valid_tx tx"
  by (metis random_tx transaction_is_valid_iff valid_tx_def snd_conv)

lemma client_step_eq:
  assumes "\<not> k_interrupted k" "k_draws k = (r1, r2, r3)"
  defines "tx \<equiv> snd (transaction_generate_random r1 r2 r3 MAX_TX_LEN)"
  shows "client_step C True k s = (case fst (next_miner C (k_probe k) s) of
      None \<Rightarrow> ((snd (next_miner C (k_probe k) s))\<lparr>cl_no_miner_logged := True\<rparr>, [])
    | Some t \<Rightarrow> (after_send (k_send k) t (snd (next_miner C (k_probe k) s)),
                [Send (To_miner t) (tx_msg ROLE_CLIENT (cc_idx C) tx)]))"
proof -
  have "transaction_is_valid True tx = OK"
    using generated [of r1 r2 r3] by (auto simp: tx_def transaction_is_valid_iff valid_tx_def)
  then show ?thesis
    using assms(1,2) unfolding tx_def
    by (cases "next_miner C (k_probe k) s"; cases "fst (next_miner C (k_probe k) s)") (simp_all add: client_step_def Let_def)
qed

lemma after_send_sel [simp]:
  "cl_alive (after_send r t s) = cl_alive s" "cl_counter (after_send r t s) = cl_counter s"
  by (cases r; simp add: after_send_def)+

text \<open>What a miner with room does with a transaction.\<close>

lemma tx_msg_delivered:
  assumes "valid_tx tx" "re_ok E" "length (mempool q) < 1024"
  shows "take_message E (tx_msg r idx tx) q = (False, q\<lparr>mempool := mempool q @ [tx]\<rparr>)"
proof -
  have "NUL \<notin> set tx" using tx_shape_clean [of tx NUL] assms(1) by (simp add: valid_tx_def)
  then have "payload (tx_msg r idx tx) = tx" using assms(1) by (simp add: tx_msg_def valid_tx_def)
  moreover have "m_type (tx_msg r idx tx) = type_code MSG_TX" by (simp add: tx_msg_def)
  ultimately show ?thesis
    using assms by (simp add: take_message_def mempool_add_def transaction_is_valid_iff valid_tx_def)
qed

text \<open>The turns depend on the marks and the counter only.\<close>

lemma turns_cong:
  "cl_alive s = cl_alive s' \<Longrightarrow> cl_counter s = cl_counter s' \<Longrightarrow>
    turns (next_miner C kill0) m s = turns (next_miner C kill0) m s'"
proof (induction m arbitrary: s s')
  case (Suc m)
  have "turns (next_miner C kill0) m (snd (next_miner C kill0 s))
      = turns (next_miner C kill0) m (snd (next_miner C kill0 s'))"
    by (rule Suc.IH) (simp_all add: next_miner_def Let_def split_def Suc.prems)
  moreover have "fst (next_miner C kill0 s) = fst (next_miner C kill0 s')"
    using Suc.prems by (simp add: next_miner_def Let_def split_def)
  ultimately show ?case by simp
qed simp

lemma client_loop_turns:
  "list_all (\<lambda>(stop, k). \<not> stop \<and> \<not> k_interrupted k \<and> k_probe k = kill0) ticks \<Longrightarrow>
    map (\<lambda>x. case x of Send d m \<Rightarrow> d | _ \<Rightarrow> To_parent) (snd (client_loop C True ticks s))
    = map To_miner (concat (map (case_option [] (\<lambda>t. [t])) (turns (next_miner C kill0) (length ticks) s)))"
proof (induction ticks arbitrary: s)
  case (Cons x ticks)
  obtain stop k where x: "x = (stop, k)" by fastforce
  then have k: "\<not> stop" "\<not> k_interrupted k" "k_probe k = kill0" using Cons.prems by auto
  obtain r1 r2 r3 where draws: "k_draws k = (r1, r2, r3)" by (metis prod_cases3)
  obtain s1 fx where st: "client_step C True k s = (s1, fx)" by fastforce
  let ?n = "next_miner C kill0 s"
  note eq = client_step_eq [OF k(2) draws, of C s, unfolded k(3) st]
  have "cl_alive s1 = cl_alive (snd ?n)" "cl_counter s1 = cl_counter (snd ?n)"
    using eq by (cases "fst ?n"; simp)+
  then have "turns (next_miner C kill0) (length ticks) s1 = turns (next_miner C kill0) (length ticks) (snd ?n)"
    by (rule turns_cong)
  moreover have "map (\<lambda>x. case x of Send d m \<Rightarrow> d | _ \<Rightarrow> To_parent) fx
      = map To_miner (case_option [] (\<lambda>t. [t]) (fst ?n))"
    using eq by (cases "fst ?n") simp_all
  ultimately show ?case
    using Cons.IH [of s1] Cons.prems k(1) st
    by (cases "client_loop C True ticks s1"; cases "fst ?n") (simp_all add: x)
qed simp

text \<open>What a client sends in one period: nothing, or the transaction it has drawn.\<close>

lemma client_step_cases:
  assumes "client_step C initialized k s = (s', fx)" "k_draws k = (r1, r2, r3)"
  defines "tx \<equiv> snd (transaction_generate_random r1 r2 r3 MAX_TX_LEN)"
  shows "if initialized \<and> \<not> k_interrupted k \<and> (\<exists>t < nat (cc_num_miner C). reachable C (k_probe k) s t)
    then \<exists>t. fx = [Send (To_miner t) (tx_msg ROLE_CLIENT (cc_idx C) tx)] \<and> t < nat (cc_num_miner C)
      \<and> reachable C (k_probe k) s t \<and> valid_tx tx
      \<and> (\<forall>E q. re_ok E \<and> length (mempool q) < 1024 \<longrightarrow>
           take_message E (tx_msg ROLE_CLIENT (cc_idx C) tx) q = (False, q\<lparr>mempool := mempool q @ [tx]\<rparr>))
    else fx = []"
proof (cases "initialized \<and> \<not> k_interrupted k")
  case False
  then show ?thesis
    using assms(1) by (auto simp: client_step_def assms(2) transaction_is_valid_def Let_def split: if_splits)
next
  case True
  then have "client_step C True k s = (s', fx)" using assms(1) by simp
  note eq = client_step_eq [OF _ assms(2), of C s, unfolded this, folded tx_def]
  have v: "valid_tx tx" using generated [of r1 r2 r3] by (simp add: tx_def)
  then have d: "\<forall>E q. re_ok E \<and> length (mempool q) < 1024 \<longrightarrow> take_message E (tx_msg ROLE_CLIENT (cc_idx C) tx) q
      = (False, q\<lparr>mempool := mempool q @ [tx]\<rparr>)"
    using tx_msg_delivered by blast
  show ?thesis
  proof (cases "fst (next_miner C (k_probe k) s)")
    case None
    then have "fx = []" "\<not> (\<exists>t < nat (cc_num_miner C). reachable C (k_probe k) s t)"
      using eq True turn.picks_none [of C "k_probe k" s] by auto
    then show ?thesis by simp
  next
    case (Some t)
    then have "fx = [Send (To_miner t) (tx_msg ROLE_CLIENT (cc_idx C) tx)]" using eq True by simp
    with turn.picks_some [OF Some] v d True show ?thesis by auto
  qed
qed

lemma client_sends:
  assumes "client_step C initialized k s = (s', fx)" "x \<in> set fx"
  shows "\<exists>t tx. fx = [x] \<and> x = Send (To_miner t) (tx_msg ROLE_CLIENT (cc_idx C) tx) \<and> valid_tx tx
    \<and> t < nat (cc_num_miner C)"
proof -
  obtain r1 r2 r3 where draws: "k_draws k = (r1, r2, r3)" by (metis prod_cases3)
  show ?thesis using client_step_cases [OF assms(1) draws] assms(2) by (auto split: if_splits)
qed

subsection \<open>Samples for the witnesses\<close>

definition ccfg0 :: client_cfg where
  "ccfg0 = \<lparr>cc_idx = 0, cc_num_miner = 2, cc_freq = 1, cc_miner_pids = [42, 43]\<rparr>"

definition tick0 :: tick where
  "tick0 = \<lparr>k_interrupted = False, k_draws = (0, 1, 9), k_probe = (\<lambda>p. Killed), k_send = Sent\<rparr>"

lemma all_reachable: "\<forall>t < nat (cc_num_miner ccfg0). reachable ccfg0 (\<lambda>p. Killed) (client_init ccfg0) t"
  by (simp add: reachable_def miner_is_alive_def client_init_def Let_def)

subsection \<open>Properties\<close>

text \<open>C27: what a client generates arrives. In a period that is not interrupted, a client that knows a miner
  that is alive and answers sends exactly one message, to one such miner, with exactly the
  transaction generated from the random numbers of that period, which is valid; a miner with room
  in its mempool appends exactly this transaction. In every other period it sends nothing.\<close>

theorem client_transaction_arrives:
  assumes "client_step C initialized k s = (s', fx)" "k_draws k = (r1, r2, r3)"
    "tx = snd (transaction_generate_random r1 r2 r3 MAX_TX_LEN)"
  shows "if initialized \<and> \<not> k_interrupted k \<and> (\<exists>t < nat (cc_num_miner C). reachable C (k_probe k) s t)
    then \<exists>t. fx = [Send (To_miner t) (tx_msg ROLE_CLIENT (cc_idx C) tx)] \<and> t < nat (cc_num_miner C)
      \<and> reachable C (k_probe k) s t \<and> valid_tx tx
      \<and> (\<forall>E q. re_ok E \<and> length (mempool q) < 1024 \<longrightarrow>
           take_message E (tx_msg ROLE_CLIENT (cc_idx C) tx) q = (False, q\<lparr>mempool := mempool q @ [tx]\<rparr>))
    else fx = []"
  unfolding assms(3) by (rule client_step_cases [OF assms(1,2)])

theorem client_transaction_arrives_witness:
  "\<exists>t tx. tx = snd (transaction_generate_random 0 1 9 MAX_TX_LEN)
    \<and> snd (client_step ccfg0 True tick0 (client_init ccfg0)) = [Send (To_miner t) (tx_msg ROLE_CLIENT 0 tx)]
    \<and> snd (take_message env0 (tx_msg ROLE_CLIENT 0 tx) miner0) = miner0\<lparr>mempool := mempool miner0 @ [tx]\<rparr>"
proof -
  obtain s' fx where st: "client_step ccfg0 True tick0 (client_init ccfg0) = (s', fx)" by fastforce
  have "reachable ccfg0 (k_probe tick0) (client_init ccfg0) 0" "0 < nat (cc_num_miner ccfg0)" "\<not> k_interrupted tick0"
    using all_reachable by (simp_all add: tick0_def ccfg0_def)
  then have c: "True \<and> \<not> k_interrupted tick0
      \<and> (\<exists>t < nat (cc_num_miner ccfg0). reachable ccfg0 (k_probe tick0) (client_init ccfg0) t)" by blast
  have d: "k_draws tick0 = (0, 1, 9)" by (simp add: tick0_def)
  have idx: "cc_idx ccfg0 = 0" and q: "re_ok env0 \<and> length (mempool miner0) < 1024"
    by (simp_all add: ccfg0_def miner0_def)
  let ?tx = "snd (transaction_generate_random 0 1 9 MAX_TX_LEN)"
  obtain t where "fx = [Send (To_miner t) (tx_msg ROLE_CLIENT 0 ?tx)]"
    "take_message env0 (tx_msg ROLE_CLIENT 0 ?tx) miner0 = (False, miner0\<lparr>mempool := mempool miner0 @ [?tx]\<rparr>)"
    using client_transaction_arrives [OF st d refl, unfolded if_P [OF c] idx] q by blast
  then show ?thesis using st by (intro exI [of _ t] exI [of _ ?tx]) simp
qed

text \<open>C37: the turns are fair, dead miners included. In a run of periods in which the answers to \<open>kill\<close> do
  not change, as long as the \<open>int\<close> that counts the periods cannot overflow, a client with at least
  one reachable miner sends one transaction per period, only to reachable miners, and in any \<open>n\<close>
  successive periods at least one to every reachable one of its \<open>n\<close> miners. When all are
  reachable they take strict turns, from the one the counter points at.\<close>

theorem client_turns_are_fair:
  assumes "0 < cc_num_miner C" "\<exists>t < nat (cc_num_miner C). reachable C kill0 s t"
    "list_all (\<lambda>(stop, k). \<not> stop \<and> \<not> k_interrupted k \<and> k_probe k = kill0) ticks"
    "cl_counter s + length ticks + nat (cc_num_miner C) < 2 ^ 31"
    "dests = map (\<lambda>x. case x of Send d m \<Rightarrow> d | _ \<Rightarrow> To_parent) (snd (client_loop C True ticks s))"
  shows "length dests = length ticks
    \<and> (\<forall>d \<in> set dests. \<exists>t < nat (cc_num_miner C). d = To_miner t \<and> reachable C kill0 s t)
    \<and> (\<forall>i t. i + nat (cc_num_miner C) \<le> length ticks \<and> t < nat (cc_num_miner C) \<and> reachable C kill0 s t
        \<longrightarrow> To_miner t \<in> set (take (nat (cc_num_miner C)) (drop i dests)))
    \<and> ((\<forall>t < nat (cc_num_miner C). reachable C kill0 s t) \<longrightarrow>
        dests = map (\<lambda>k. To_miner ((cl_counter s + k) mod nat (cc_num_miner C))) [0..<length ticks])"
proof -
  let ?n = "nat (cc_num_miner C)" and ?ok = "reachable C kill0 s"
  define f where "f k = the (cyclic_first ?ok (cl_counter s + k) ?n)" for k
  have n: "0 < ?n" using assms(1) by simp
  have some: "cyclic_first ?ok (cl_counter s + k) ?n = Some (f k)" for k
    using assms(2) cyclic_first_None [of ?ok "cl_counter s + k" ?n]
    by (cases "cyclic_first ?ok (cl_counter s + k) ?n") (auto simp: f_def)
  have flat: "concat (map (case_option [] (\<lambda>t. [t])) (map (\<lambda>k. Some (f k)) xs)) = map f xs" for xs
    by (induction xs) simp_all
  have dests: "dests = map (\<lambda>k. To_miner (f k)) [0..<length ticks]"
    unfolding assms(5) client_loop_turns [OF assms(3)] turn.turns_eq [OF n] some flat by (simp add: comp_def)
  have "\<forall>d \<in> set dests. \<exists>t < ?n. d = To_miner t \<and> ?ok t"
    using cyclic_first_Some [OF some] by (auto simp: dests)
  moreover have "To_miner t \<in> set (take ?n (drop i dests))" if q: "i + ?n \<le> length ticks" "t < ?n" "?ok t" for i t
  proof -
    obtain k where k: "k < ?n" "cyclic_first ?ok (cl_counter s + (i + k)) ?n = Some t"
      using turn.served [of t C kill0 s i] q(2,3) by blast
    then have "take ?n (drop i dests) ! k = To_miner t" "k < length (take ?n (drop i dests))"
      using some [of "i + k"] q(1) by (simp_all add: dests)
    then show ?thesis by (metis nth_mem)
  qed
  moreover have "dests = map (\<lambda>k. To_miner ((cl_counter s + k) mod ?n)) [0..<length ticks]" if "\<forall>t < ?n. ?ok t"
  proof -
    have "f k = (cl_counter s + k) mod ?n" for k
      using some [of k] cyclic_first_start [OF n, of ?ok "cl_counter s + k"] that n by simp
    then show ?thesis by (simp add: dests)
  qed
  moreover have "length dests = length ticks" by (simp add: dests)
  ultimately show ?thesis by blast
qed

theorem client_turns_are_fair_witness:
  "map (\<lambda>x. case x of Send d m \<Rightarrow> d | _ \<Rightarrow> To_parent)
      (snd (client_loop ccfg0 True [(False, tick0), (False, tick0), (False, tick0)] (client_init ccfg0)))
    = [To_miner 0, To_miner 1, To_miner 0]"
proof -
  have "\<exists>t < nat (cc_num_miner ccfg0). reachable ccfg0 (\<lambda>p. Killed) (client_init ccfg0) t"
    using all_reachable by (intro exI [of _ 0]) (simp add: ccfg0_def)
  from client_turns_are_fair [OF _ this _ _ refl, of "[(False, tick0), (False, tick0), (False, tick0)]"] all_reachable
  show ?thesis by (simp add: tick0_def ccfg0_def client_init_def Let_def upt_rec)
qed

end
