(* ===== verification/Cli.thy ===== *)
theory Cli
  imports Client
begin

section \<open>The command line (cli.c)\<close>

text \<open>
  The parent's command line: each command is a function from the state and the input line to the
  new state, what it sends and signals, and the lines it prints. What the system answers during
  one command is the record \<open>console\<close>; \<open>w_recv\<close> lists what the successive receive calls on the
  parent's inbox return, those of \<open>drop_late_replies\<close> first.
\<close>

subsection \<open>Data (common.h)\<close>

record proc_t =
  pr_pid :: int
  pr_role :: role
  pr_idx :: int
  pr_alive :: bool

record params_t =
  num_nodes :: int
  num_miners :: int
  num_clients :: int
  transaction_frequency :: int
  difficulty :: int

record cli =
  ci_tab :: "proc_t list"
  ci_announced :: "bool list"
  ci_current_miner :: nat
  ci_files :: files

record console =
  w_env :: env
  w_io :: io
  w_sent :: "dest \<Rightarrow> bool"
  w_recv :: "(code + msg_t) list"

fun role_to_string :: "role \<Rightarrow> string" where
  "role_to_string ROLE_NODE = ''node''"
| "role_to_string ROLE_MINER = ''miner''"
| "role_to_string ROLE_CLIENT = ''client''"
| "role_to_string ROLE_PARENT = ''unknown''"

subsection \<open>Who is alive\<close>

definition alive_at :: "proc_t list \<Rightarrow> role \<Rightarrow> nat \<Rightarrow> bool" where
  "alive_at tab r cand = list_ex (\<lambda>p. pr_role p = r \<and> pr_idx p = int cand \<and> pr_alive p) tab"

definition next_alive_miner :: "proc_t list \<Rightarrow> nat \<Rightarrow> nat \<Rightarrow> nat option \<times> nat" where
  "next_alive_miner tab n cursor =
     (case find (alive_at tab ROLE_MINER) (map (\<lambda>k. (cursor + k) mod n) [0..<n]) of
        None \<Rightarrow> (None, cursor)
      | Some cand \<Rightarrow> (Some cand, cand + 1))"

definition first_alive_node :: "proc_t list \<Rightarrow> nat \<Rightarrow> nat option" where
  "first_alive_node tab n = find (alive_at tab ROLE_NODE) [0..<n]"

text \<open>The handler of \<open>SIGCHLD\<close> in \<open>main.c\<close>: what \<open>waitpid\<close> returns is looked up in the table.\<close>

fun mark_dead :: "int \<Rightarrow> proc_t list \<Rightarrow> proc_t list" where
  "mark_dead pid [] = []"
| "mark_dead pid (p # ps) = (if pr_pid p = pid then p\<lparr>pr_alive := False\<rparr> # ps else p # mark_dead pid ps)"

definition reap_children :: "int list \<Rightarrow> proc_t list \<Rightarrow> proc_t list" where
  "reap_children pids tab = fold mark_dead pids tab"

definition announce :: "cli \<Rightarrow> cli \<times> string list" where
  \<comment> \<open>a death is announced once\<close>
  "announce s =
     (let fresh = filter (\<lambda>i. \<not> pr_alive (ci_tab s ! i) \<and> \<not> ci_announced s ! i) [0..<length (ci_tab s)]
      in (s\<lparr>ci_announced := fold (\<lambda>i a. a[i := True]) fresh (ci_announced s)\<rparr>,
          map (\<lambda>i. let p = ci_tab s ! i in ''[NOTICE] The '' @ role_to_string (pr_role p) @ '' ''
            @ dec_int (pr_idx p) @ '' (PID: '' @ dec_int (pr_pid p) @ '') ended unexpectedly.'') fresh))"

subsection \<open>pause and resume\<close>

definition signal_alive :: "signal \<Rightarrow> string \<Rightarrow> cli \<Rightarrow> effect list \<times> string list" where
  "signal_alive sig word s =
     (let pids = map pr_pid (filter pr_alive (ci_tab s)); m = length pids
      in (if m > 0 then map (\<lambda>(p, g). Kill p g) (snd (ipc_signal_pids pids sig)) else [],
          [dec m @ '' processes have been '' @ word]))"

subsection \<open>submit\<close>

definition strrchr :: "string \<Rightarrow> char \<Rightarrow> nat option" where
  "strrchr s c = map_option (\<lambda>i. length s - Suc i) (strchr (rev s) c)"

definition QUOTE :: char where "QUOTE = CHR 0x22"

definition cli_submit :: "params_t \<Rightarrow> console \<Rightarrow> string \<Rightarrow> cli \<Rightarrow> cli \<times> effect list \<times> string list" where
  "cli_submit P w input s =
     (case (strchr input QUOTE, strrchr input QUOTE) of
        (Some first_quote, Some last_quote) \<Rightarrow>
          if first_quote = last_quote
          then (s, [], [''Wrong usage. Expected format: submit '' @ [QUOTE] @ ''<transaction>'' @ [QUOTE]])
          else let tx_len = last_quote - first_quote - 1 in
          if tx_len \<ge> MAX_TX_LEN then (s, [], [''Error: the transaction exceeds the maximum allowed length.''])
          else let tx = take tx_len (drop (first_quote + 1) input) in
          if transaction_is_valid (re_ok (w_env w)) tx \<noteq> OK
          then (s, [], [''Invalid transaction (INVALID_TRANSACTION, code '' @ dec (code_value INVALID_TRANSACTION)
                  @ ''). Not sent.''])
          else let (miner_idx, cursor) = next_alive_miner (ci_tab s) (nat (num_miners P)) (ci_current_miner s);
                   s1 = s\<lparr>ci_current_miner := cursor\<rparr>
          in (case miner_idx of
                None \<Rightarrow> (s1, [], [''No miner is alive: the transaction was not sent.''])
              | Some j \<Rightarrow>
                  (s1, [Send (To_miner j) (tx_msg ROLE_PARENT 0 tx)],
                   [if \<not> w_sent w (To_miner j)
                    then ''IPC error: impossible to send the transaction to the miner '' @ dec j @ ''.''
                    else ''Valid transaction. Sent to the miner '' @ dec j @ ''.'']))
      | _ \<Rightarrow> (s, [], [''Wrong usage. Expected format: submit '' @ [QUOTE] @ ''<transaction>'' @ [QUOTE]]))"

subsection \<open>request\<close>

definition with_filter :: "string \<Rightarrow> string \<Rightarrow> string + string" where
  \<comment> \<open>the part both requests share: the argument after the command word\<close>
  "with_filter unknown arg =
     (if starts_with ''--index '' arg then Inr (snprintf_out MSG_PAYLOAD_MAX (''INDEX '' @ drop 8 arg))
      else if starts_with ''--hash '' arg then Inr (snprintf_out MSG_PAYLOAD_MAX (''HASH '' @ drop 7 arg))
      else Inl unknown)"

definition chain_filter :: "string \<Rightarrow> string + string" where
  "chain_filter input =
     (let len = length input in
      if len \<noteq> 18 then
        (if len \<le> 19 \<or> input ! 18 \<noteq> CHR '' ''
         then Inl ''Wrong usage. Use: request blockchain [--index <i> | --hash <h>]''
         else with_filter ''Unknown filter. Use: request blockchain [--index <i> | --hash <h>]'' (drop 19 input))
      else Inr ''ALL'')"

definition block_filter :: "string \<Rightarrow> string + string" where
  "block_filter input =
     (if length input > 14 \<and> input ! 13 = CHR '' ''
      then with_filter ''Unknown filter. Use: --index or --hash.'' (drop 14 input)
      else Inl ''Wrong use: request block --index <i> | --hash <h>'')"

fun drop_late_replies :: "(code + msg_t) list \<Rightarrow> (code + msg_t) list" where
  "drop_late_replies [] = []"
| "drop_late_replies (Inr old # rs) = drop_late_replies rs"
| "drop_late_replies (Inl r # rs) = rs"

definition request_msg :: "msg_type \<Rightarrow> string \<Rightarrow> msg_t" where
  "request_msg t flt = zero_msg\<lparr>m_type := type_code t, m_role := role_code ROLE_PARENT, m_idx := 0,
     m_len := of_nat (length (cstr (fill flt))), m_payload := fill flt\<rparr>"

definition send_request :: "params_t \<Rightarrow> console \<Rightarrow> msg_t \<Rightarrow> cli \<Rightarrow> effect list \<times> (string + nat)" where
  "send_request P w msg s =
     (case first_alive_node (ci_tab s) (nat (num_nodes P)) of
        None \<Rightarrow> ([], Inl ''No node is alive: the request was not sent.'')
      | Some i \<Rightarrow> ([Send (To_node i) msg],
          if \<not> w_sent w (To_node i) then Inl (''IPC error: impossible to send the request to node '' @ dec i @ ''.'')
          else Inr i))"

definition no_answer :: "nat \<Rightarrow> string" where
  "no_answer i = ''Error or IPC timeout: node '' @ dec i @ '' didn't respond in time.''"

text \<open>Receiving ends with a receive that fails; a list of results that ends is one that does.\<close>

fun show_replies :: "nat \<Rightarrow> (code + msg_t) list \<Rightarrow> string list" where
  "show_replies i [] = [no_answer i]"
| "show_replies i (Inl r # rs) = [no_answer i]"
| "show_replies i (Inr rep # rs) =
     (if starts_with ''ERR:'' (payload rep) then [''Error from node: '' @ drop 4 (payload rep)]
      else payload rep # (if m_last rep = 1 then [] else show_replies i rs))"

definition cli_request :: "params_t \<Rightarrow> console \<Rightarrow> msg_type \<Rightarrow> string + string \<Rightarrow> cli \<Rightarrow> effect list \<times> string list" where
  "cli_request P w t flt s =
     (case flt of Inl err \<Rightarrow> ([], [err]) | Inr f \<Rightarrow>
      let (fx, r) = send_request P w (request_msg t f) s
      in (fx, case r of Inl err \<Rightarrow> [err] | Inr i \<Rightarrow> show_replies i (drop_late_replies (w_recv w))))"

subsection \<open>save\<close>

text \<open>The rows of a reply go into a chain; what is left out is reported.\<close>

function read_rows :: "env \<Rightarrow> string \<Rightarrow> chain_t \<Rightarrow> chain_t \<times> string list" where
  "read_rows E current c =
     (if current = [] then (c, []) else
      let next_newline = strchr current LF;
          len = (case next_newline of Some i \<Rightarrow> i | None \<Rightarrow> length current);
          row = take len current;
          (c', out) =
            (if len \<ge> MAX_CSV_ROW_LEN then (c, [''[Warning] Ignored line because too long.''])
             else if len > 0 then
               (case block_from_csv_row row of
                  Inl _ \<Rightarrow> (c, [''[Warning] Line is not valid for one block, skipped: '' @ row])
                | Inr b \<Rightarrow>
                    (let (res, c1) = chain_append E c b
                     in (c1, if res \<noteq> APPEND_OK then [''[Warning] Block with index '' @ dec (unat (b_index b))
                                @ '' rejected from the chain (mismatch), skipped.''] else [])))
             else (c, []))
      in case next_newline of
           Some i \<Rightarrow> (let (c2, out') = read_rows E (drop (i + 1) current) c' in (c2, out @ out'))
         | None \<Rightarrow> (c', out))"
  by pat_completeness auto
termination
  by (relation "measure (\<lambda>(E, current, c). length current)") auto

declare read_rows.simps [simp del]

fun collect :: "env \<Rightarrow> nat \<Rightarrow> (code + msg_t) list \<Rightarrow> chain_t \<Rightarrow> bool \<times> chain_t \<times> string list" where
  \<comment> \<open>whether the node reported an error, the chain, the lines printed\<close>
  "collect E i [] c = (False, c, [no_answer i])"
| "collect E i (Inl r # rs) c = (False, c, [no_answer i])"
| "collect E i (Inr rep # rs) c =
     (if starts_with ''ERR:'' (payload rep) then (True, c, [''Error from node: '' @ drop 4 (payload rep)])
      else let (c1, out) = read_rows E (payload rep) c in
      if m_last rep = 1 then (False, c1, out)
      else let (err, c2, out') = collect E i rs c1 in (err, c2, out @ out'))"

definition cli_save :: "params_t \<Rightarrow> console \<Rightarrow> string \<Rightarrow> cli \<Rightarrow> cli \<times> effect list \<times> string list" where
  "cli_save P w input s =
     (if \<not> (length input > 16 \<and> input ! 15 = CHR '' '') then (s, [], [''Wrong use: save blockchain <file>''])
      else let file_name = drop 16 input in
      if length file_name \<ge> MAX_PATH_LEN then (s, [], [''File name is too long.''])
      else let (fx, r) = send_request P w (request_msg MSG_CHAIN_REQUEST ''ALL'') s in
      case r of Inl err \<Rightarrow> (s, fx, [err]) | Inr i \<Rightarrow>
      let (rx_error, chain, out) = collect (w_env w) i (drop_late_replies (w_recv w)) chain_init in
      if rx_error then (s, fx, out)
      else if c_len chain = 0 then (s, fx, out @ [''No valid block received. Save cancelled.''])
      else let (save_res, fs) = csv_save (w_io w) (ci_files s) file_name chain;
               s1 = s\<lparr>ci_files := fs\<rparr>
      in if save_res \<noteq> OK then (s1, fx, out @ [''Error during the save (Code '' @ dec (code_value save_res) @ '').''])
         else (s1, fx, out @ [''Saved '' @ dec (c_len chain) @ '' blocks to '' @ file_name]))"

subsection \<open>One command, and the loop\<close>

definition help_text :: "string list" where
  "help_text = [''Command list:'', ''- submit [transaction]'', ''- request blockchain [--index i | --hash h]'',
     ''- request block --index i/--hash h'', ''- save blockchain <file>'', ''- pause'', ''- resume'',
     ''- stop'', ''- help'']"

definition cli_command :: "params_t \<Rightarrow> console \<Rightarrow> string \<Rightarrow> cli \<Rightarrow> cli \<times> effect list \<times> string list" where
  "cli_command P w input s =
     (if input = [] then (s, [], [])
      else if strcmp input ''help'' = 0 then (s, [], help_text)
      else if strcmp input ''pause'' = 0 then (s, signal_alive SIGSTOP ''stopped'' s)
      else if strcmp input ''resume'' = 0 then (s, signal_alive SIGCONT ''resumed'' s)
      else if starts_with ''submit '' input then cli_submit P w input s
      else if starts_with ''request blockchain'' input
        then (s, cli_request P w MSG_CHAIN_REQUEST (chain_filter input) s)
      else if starts_with ''request block'' input
        then (s, cli_request P w MSG_BLOCK_REQUEST (block_filter input) s)
      else if starts_with ''save blockchain'' input then cli_save P w input s
      else (s, [], [''Unknown command. Enter 'help' for the command list.'']))"

text \<open>
  One turn of the loop: the processes found dead before it, the input line as \<open>fgets\<close> gives it
  (\<open>None\<close> at the end of the input), and the answers of the system. The loop ends with \<open>stop\<close> or
  the end of the input.
\<close>

fun cli_loop :: "params_t \<Rightarrow> (int list \<times> string option \<times> console) list \<Rightarrow> cli
    \<Rightarrow> cli \<times> effect list \<times> string list" where
  "cli_loop P [] s = (s, [], [])"
| "cli_loop P ((dead, line, w) # rounds) s =
     (let s0 = s\<lparr>ci_tab := reap_children dead (ci_tab s)\<rparr>;
          (s1, notices) = announce s0
      in case line of
           None \<Rightarrow> (s1, [], notices @ [''Quitting...''])
         | Some l \<Rightarrow>
             let input = takeWhile (\<lambda>c. c \<noteq> LF) (cstr l) in
             if strcmp input ''stop'' = 0 then (s1, [], notices)
             else let (s2, fx, out) = cli_command P w input s1; (s3, fx', out') = cli_loop P rounds s2
             in (s3, fx @ fx', notices @ out @ out'))"

definition cli_run :: "kernel \<Rightarrow> params_t \<Rightarrow> (int list \<times> string option \<times> console) list \<Rightarrow> proc_t list \<Rightarrow> files
    \<Rightarrow> code + (cli \<times> effect list \<times> string list)" where
  "cli_run k P rounds tab fs =
     (if length tab > MAX_NODES + MAX_MINERS + MAX_CLIENTS then Inl ARGS_ERROR
      else if list_ex (\<lambda>j. ipc_open_sender k ROLE_MINER j = Inl IPC_ERROR) [0..num_miners P - 1] then Inl IPC_ERROR
      else if list_ex (\<lambda>i. ipc_open_sender k ROLE_NODE i = Inl IPC_ERROR) [0..num_nodes P - 1] then Inl IPC_ERROR
      else if ipc_open_inbox k ROLE_PARENT 0 True = Inl IPC_ERROR then Inl IPC_ERROR
      else Inr (cli_loop P rounds \<lparr>ci_tab = tab, ci_announced = replicate (length tab) False,
                  ci_current_miner = 0, ci_files = fs\<rparr>))"

subsection \<open>The turns of the miners\<close>

interpretation submit: rotation "next_alive_miner tab n" "\<lambda>cursor. cursor" "\<lambda>cursor. alive_at tab ROLE_MINER" n
  for tab n
proof (unfold_locales, goal_cases)
  case (1 s)
  show ?case by (simp add: next_alive_miner_def cyclic_first_def cyclic_def split: option.split)
next
  case (2 s)
  then have "cyclic_first (alive_at tab ROLE_MINER) s n = Some (s mod n)" by (intro cyclic_first_start) simp_all
  then show ?case using 2 by (simp add: next_alive_miner_def cyclic_first_def cyclic_def mod_Suc_eq)
qed

subsection \<open>The quoted part of a line\<close>

lemma strchr_split: "strchr s c = Some i \<Longrightarrow> \<exists>a b. s = a @ c # b \<and> c \<notin> set a \<and> length a = i"
proof -
  assume "strchr s c = Some i"
  then have "c \<in> set s" "i = length (takeWhile (\<lambda>x. x \<noteq> c) s)" by (auto simp: strchr_def split: if_splits)
  moreover from this obtain a b where "s = a @ c # b" "c \<notin> set a" by (metis split_list_first)
  ultimately show ?thesis by (auto simp: takeWhile_append)
qed

lemma strrchr_split: "strrchr s c = Some i \<Longrightarrow> \<exists>a b. s = a @ c # b \<and> c \<notin> set b \<and> length a = i"
proof -
  assume "strrchr s c = Some i"
  then obtain j where j: "strchr (rev s) c = Some j" "i = length s - Suc j" by (auto simp: strrchr_def)
  then obtain a b where ab: "rev s = a @ c # b" "c \<notin> set a" "length a = j" using strchr_split by blast
  then have s: "s = rev b @ c # rev a" by (metis append.assoc append_Cons append_Nil rev.simps(2) rev_append rev_rev_ident)
  then show ?thesis using ab j(2) by (intro exI [of _ "rev b"] exI [of _ "rev a"]) simp
qed

lemma quoted_part:
  assumes "strchr s c = Some i" "strrchr s c = Some l" "i \<noteq> l"
  shows "\<exists>a b. s = a @ [c] @ take (l - i - 1) (drop (i + 1) s) @ [c] @ b \<and> c \<notin> set a \<and> c \<notin> set b"
proof -
  obtain a b where ab: "s = a @ c # b" "c \<notin> set a" "length a = i" using strchr_split [OF assms(1)] by blast
  obtain a' b' where ab': "s = a' @ c # b'" "c \<notin> set b'" "length a' = l" using strrchr_split [OF assms(2)] by blast
  have "i < l"
  proof (rule ccontr)
    assume "\<not> i < l"
    then have "l < i" using assms(3) by simp
    then have "s ! l \<in> set a" using ab(1,3) by (simp add: nth_append)
    moreover have "s ! l = c" using ab'(1,3) by (metis nth_append_length)
    ultimately show False using ab(2) by simp
  qed
  then have "drop (l - i - 1) (drop (i + 1) s) = drop l s" by simp
  also have "\<dots> = c # b'" using ab'(1,3) by simp
  finally have e: "drop (i + 1) s = take (l - i - 1) (drop (i + 1) s) @ c # b'" by (metis append_take_drop_id)
  have "s = a @ [c] @ drop (i + 1) s" using ab(1,3) by simp
  also have "\<dots> = a @ [c] @ (take (l - i - 1) (drop (i + 1) s) @ c # b')" by (subst e) (rule refl)
  finally have "s = a @ [c] @ take (l - i - 1) (drop (i + 1) s) @ [c] @ b'" by simp
  then show ?thesis using ab(2) ab'(2) by blast
qed

text \<open>What \<open>submit\<close> sends.\<close>

lemma submit_sends:
  assumes "cli_submit P w input s = (s', fx, out)" "x \<in> set fx"
  shows "\<exists>j tx a b. fx = [x] \<and> x = Send (To_miner j) (tx_msg ROLE_PARENT 0 tx)
    \<and> input = a @ [QUOTE] @ tx @ [QUOTE] @ b \<and> QUOTE \<notin> set a \<and> QUOTE \<notin> set b \<and> valid_tx tx
    \<and> alive_at (ci_tab s) ROLE_MINER j \<and> j < nat (num_miners P)
    \<and> ((\<forall>t < nat (num_miners P). alive_at (ci_tab s) ROLE_MINER t) \<longrightarrow>
         j = ci_current_miner s mod nat (num_miners P) \<and> ci_current_miner s' = Suc j)
    \<and> (\<forall>E q. re_ok E \<and> length (mempool q) < 1024 \<longrightarrow>
         take_message E (tx_msg ROLE_PARENT 0 tx) q = (False, q\<lparr>mempool := mempool q @ [tx]\<rparr>))"
proof -
  let ?n = "nat (num_miners P)"
  obtain i l where il: "strchr input QUOTE = Some i" "strrchr input QUOTE = Some l" "i \<noteq> l"
    using assms by (auto simp: cli_submit_def split: option.splits if_splits)
  define tx where "tx = take (l - i - 1) (drop (i + 1) input)"
  obtain a b where q: "input = a @ [QUOTE] @ tx @ [QUOTE] @ b" "QUOTE \<notin> set a" "QUOTE \<notin> set b"
    using quoted_part [OF il] unfolding tx_def by blast
  obtain r cursor where rc: "next_alive_miner (ci_tab s) ?n (ci_current_miner s) = (r, cursor)" by fastforce
  have "transaction_is_valid (re_ok (w_env w)) tx = OK"
    using assms il by (auto simp: cli_submit_def tx_def Let_def split: if_splits)
  then have v: "valid_tx tx" by (simp add: transaction_is_valid_iff valid_tx_def)
  have out: "\<exists>j. r = Some j \<and> fx = [Send (To_miner j) (tx_msg ROLE_PARENT 0 tx)] \<and> ci_current_miner s' = cursor"
    using assms il by (auto simp: cli_submit_def tx_def Let_def rc split: if_splits option.splits)
  then obtain j where j: "r = Some j" "fx = [Send (To_miner j) (tx_msg ROLE_PARENT 0 tx)]"
    "ci_current_miner s' = cursor" by blast
  have alive: "alive_at (ci_tab s) ROLE_MINER j \<and> j < ?n"
    using submit.picks_some [of "ci_tab s" ?n "ci_current_miner s" j] rc j(1) by simp
  have "j = ci_current_miner s mod ?n \<and> cursor = Suc j" if "\<forall>t < ?n. alive_at (ci_tab s) ROLE_MINER t"
    using submit.fair [where tab = "ci_tab s" and n = ?n and s = "ci_current_miner s" and m = 1] that alive rc j(1)
    by (auto simp: next_alive_miner_def split: option.splits)
  then show ?thesis
    using q v j alive assms(2) tx_msg_delivered [OF v]
    by (intro exI [of _ j] exI [of _ tx] exI [of _ a] exI [of _ b]) simp
qed

subsection \<open>Saving a chain\<close>

text \<open>The chain that is collected is the one a node would recover from the same rows.\<close>

lemma read_rows_chain: "fst (read_rows E t c) = take_rows E t c"
proof (induction t arbitrary: c rule: measure_induct_rule [where f = length])
  case (less t)
  define len where "len = (case strchr t LF of Some i \<Rightarrow> i | None \<Rightarrow> length t)"
  define step where "step = (if len \<ge> MAX_CSV_ROW_LEN then (c, [''[Warning] Ignored line because too long.''])
      else if len > 0 then
        (case block_from_csv_row (take len t) of
           Inl _ \<Rightarrow> (c, [''[Warning] Line is not valid for one block, skipped: '' @ take len t])
         | Inr b \<Rightarrow> (let (res, c1) = chain_append E c b
              in (c1, if res \<noteq> APPEND_OK then [''[Warning] Block with index '' @ dec (unat (b_index b))
                         @ '' rejected from the chain (mismatch), skipped.''] else [])))
      else (c, []))"
  have st: "fst step = (if len > 0 \<and> len < MAX_CSV_ROW_LEN then
      (case block_from_csv_row (take len t) of Inl _ \<Rightarrow> c | Inr b \<Rightarrow> snd (chain_append E c b)) else c)"
    by (auto simp: step_def split: sum.split prod.split)
  have eq: "read_rows E t c = (if t = [] then (c, []) else
      case strchr t LF of
        Some i \<Rightarrow> (let (c2, out') = read_rows E (drop (i + 1) t) (fst step) in (c2, snd step @ out'))
      | None \<Rightarrow> step)"
    unfolding step_def len_def by (subst read_rows.simps) (simp add: Let_def split_def cong: option.case_cong)
  have eq': "take_rows E t c = (if t = [] then c else
      case strchr t LF of Some i \<Rightarrow> take_rows E (drop (i + 1) t) (fst step) | None \<Rightarrow> fst step)"
    unfolding st len_def by (subst take_rows.simps) (simp add: Let_def cong: option.case_cong)
  show ?case
  proof (cases "t = [] \<or> strchr t LF = None")
    case True
    then show ?thesis by (auto simp: eq eq')
  next
    case False
    then obtain i where i: "strchr t LF = Some i" "t \<noteq> []" by auto
    have "length (drop (i + 1) t) < length t" using i(2) by simp
    from less [OF this] show ?thesis using i by (simp add: eq eq' split_def)
  qed
qed

text \<open>Rows of a linked chain are taken without a warning, and never look like an error.\<close>

lemma read_rows_text:
  assumes "chain_inv c" "c_v c = as" "linked (as @ bs)" "length (as @ bs) < 2 ^ 49" "\<forall>b \<in> set bs. one_line b"
  shows "\<exists>c'. read_rows env0 (rows_text bs) c = (c', []) \<and> chain_inv c' \<and> c_v c' = as @ bs"
  using assms
proof (induction bs arbitrary: c as)
  case Nil
  then show ?case by (simp add: read_rows.simps [of _ "[]"])
next
  case (Cons b bs)
  have l: "linked (as @ [b])" using linked_prefix [of "as @ [b]" bs] Cons.prems(3) by simp
  then have ok: "block_ok b" by (simp add: linked_snoc valid_block_def)
  have clean: "LF \<notin> set (csv_row b)" using Cons.prems(5) by (simp add: one_line_def)
  obtain c' where c': "chain_append env0 c b = (APPEND_OK, c')" "c_v c' = as @ [b]" "chain_inv c'"
    using append_linked [OF Cons.prems(1,2) l] Cons.prems(4) by auto
  have "0 < length (csv_row b)" "length (csv_row b) < 2244"
    using csv_row_bounds [OF ok] by auto
  then have "read_rows env0 (rows_text (b # bs)) c = read_rows env0 (rows_text bs) c'"
    using clean c'(1) block_from_csv_row_of_row [OF ok]
    by (simp add: read_rows.simps [of _ "csv_row b @ _"])
  with Cons.IH [OF c'(3,2)] Cons.prems show ?case by simp
qed

lemma rows_no_error: "\<forall>b \<in> set bs. block_ok b \<Longrightarrow> \<not> starts_with ''ERR:'' (rows_text bs)"
proof (cases bs)
  case (Cons b bs')
  assume "\<forall>b \<in> set bs. block_ok b"
  obtain x xs where x: "u64_to_hex16 (b_index b) = x # xs"
    using length_u64_to_hex16 [of "b_index b"] by (cases "u64_to_hex16 (b_index b)") auto
  then have "lower_hex x" using u64_to_hex16_lower [of x "b_index b"] by simp
  then have "x \<noteq> CHR ''E''" by (auto simp: lower_hex_def isdigit_def less_eq_char_def)
  moreover have "rows_text bs = x # tl (rows_text bs)" by (simp add: Cons csv_row_def x)
  ultimately show ?thesis by (metis starts_with_iff append_Cons list.inject)
qed (simp add: starts_with_def)

text \<open>Fragments that are not the last extend the chain, and the receiving goes on.\<close>

lemma collect_fragments:
  assumes "list_all2 (\<lambda>m g. payload m = rows_text g \<and> m_last m \<noteq> 1) ms gs"
    "chain_inv c" "c_v c = as" "linked (as @ concat gs)" "length (as @ concat gs) < 2 ^ 49"
    "\<forall>b \<in> set (concat gs). one_line b"
  shows "\<exists>c'. chain_inv c' \<and> c_v c' = as @ concat gs
    \<and> (\<forall>rest. collect env0 i (map Inr ms @ rest) c = collect env0 i rest c')"
  using assms
proof (induction ms gs arbitrary: c as rule: list_all2_induct)
  case Nil
  then show ?case by auto
next
  case (Cons m ms g gs)
  have l: "linked (as @ g)" using linked_prefix [of "as @ g" "concat gs"] Cons.prems(3) by simp
  have ok: "\<forall>b \<in> set g. block_ok b" using linkedD(3) [OF l] by (metis Un_iff in_set_conv_nth set_append)
  obtain c1 where c1: "read_rows env0 (rows_text g) c = (c1, [])" "chain_inv c1" "c_v c1 = as @ g"
    using read_rows_text [OF Cons.prems(1,2) l] Cons.prems(4,5) by auto
  obtain c' where "chain_inv c'" "c_v c' = (as @ g) @ concat gs"
      "\<forall>rest. collect env0 i (map Inr ms @ rest) c1 = collect env0 i rest c'"
    using Cons.IH [OF c1(2,3)] Cons.prems(3-5) by auto
  then show ?case
    using Cons.hyps(1) c1(1) rows_no_error [OF ok] by (intro exI [of _ c']) (simp add: split_def)
qed

text \<open>The answer of a node to the request of a save.\<close>

definition all_request :: msg_t where
  "all_request = request_msg MSG_CHAIN_REQUEST ''ALL''"

lemma all_request_sel [simp]: "payload all_request = ''ALL''" "m_role all_request = role_code ROLE_PARENT"
  by (simp_all add: all_request_def request_msg_def)

lemma sent_to_parent:
  assumes "m_role req = role_code ROLE_PARENT"
  shows "sent (concat (map (reply_to D req) ps)) = map (\<lambda>p. seal (signed_by D p)) ps"
  using assms by (induction ps) (simp_all add: sent_def reply_to_def)

lemma save_answer:
  assumes "node_inv d" "handle_chain_request D e d all_request = (d', answer)" "c_v (g_chain d) \<noteq> []"
  defines "gs \<equiv> batches [] (c_v (g_chain d))"
  shows "sent answer = map (signed_by D) (pieces 0 (map rows_text gs))"
    and "\<forall>g \<in> set gs. length (rows_text g) < 4063 \<and> NUL \<notin> set (rows_text g)"
    and "concat gs = c_v (g_chain d)" "gs \<noteq> []"
proof -
  have inv: "chain_inv (g_chain d)" using assms(1) by (simp add: node_inv_def)
  have s: "start_index (mem (o_env e)) (g_chain d) (payload all_request) = Inr 0"
    by (simp add: start_index_def starts_with_def)
  have "0 < c_len (g_chain d)" using assms(3) chain_invD(1) [OF inv] by simp
  from chain_request_pieces [OF assms(1) s this, of D] assms(2)
  have "answer = concat (map (reply_to D all_request) (pieces 0 (map rows_text gs)))" by (simp add: gs_def)
  moreover have "seal (signed_by D p) = signed_by D p" if "p \<in> set (pieces q ts)" for p q ts
    using that by (induction q ts rule: pieces.induct) auto
  ultimately show "sent answer = map (signed_by D) (pieces 0 (map rows_text gs))"
    by (simp add: sent_to_parent)
  have ok: "\<forall>b \<in> set ([] @ c_v (g_chain d)). block_ok b"
    using linkedD(3) [OF chain_invD(2) [OF inv]] by (simp, metis in_set_conv_nth)
  have "\<forall>g \<in> set gs. \<forall>b \<in> set g. block_ok b"
    using ok concat_batches [of "[]" "c_v (g_chain d)"] unfolding gs_def by (metis UN_I append_Nil set_concat)
  then show "\<forall>g \<in> set gs. length (rows_text g) < 4063 \<and> NUL \<notin> set (rows_text g)"
    using batches_fit [OF ok] rows_text_no_nul by (auto simp: gs_def rows_text_def)
qed (simp_all add: gs_def)

lemma split_at_last: "length xs = Suc k \<Longrightarrow> xs = take k xs @ [xs ! k]"
  using take_Suc_conv_app_nth [of k xs] by simp

lemma collect_partial:
  fixes D :: node_cfg
  assumes "linked (concat gs)" "length (concat gs) < 2 ^ 49" "\<forall>b \<in> set (concat gs). one_line b"
    "\<forall>g \<in> set gs. length (rows_text g) < 4063 \<and> NUL \<notin> set (rows_text g)" "k < length gs"
  defines "ms \<equiv> map (signed_by D) (pieces 0 (map rows_text gs))"
  shows "\<exists>c'. chain_inv c' \<and> c_v c' = concat (take k gs)
    \<and> (\<forall>rest. collect env0 i (map Inr (take k ms) @ rest) chain_init = collect env0 i rest c')"
proof -
  have gs: "concat gs = concat (take k gs) @ concat (drop k gs)" by (metis append_take_drop_id concat_append)
  have "list_all2 (\<lambda>m g. payload m = rows_text g \<and> m_last m \<noteq> 1) (take k ms) (take k gs)"
  proof (intro list_all2_all_nthI)
    fix j assume "j < length (take k ms)"
    then have j: "j < k" "j < length gs" using assms(5) by (simp_all add: ms_def)
    have "length (rows_text (gs ! j)) < 4063 \<and> NUL \<notin> set (rows_text (gs ! j))"
      using assms(4) nth_mem [OF j(2)] by blast
    then show "payload (take k ms ! j) = rows_text (take k gs ! j) \<and> m_last (take k ms ! j) \<noteq> 1"
      using j assms(5) by (simp add: ms_def pieces_nth piece_def)
  qed (use assms(5) in \<open>simp add: ms_def\<close>)
  moreover have "linked ([] @ concat (take k gs))" using linked_prefix [of "concat (take k gs)"] assms(1) gs by simp
  moreover have "length ([] @ concat (take k gs)) < 2 ^ 49" "\<forall>b \<in> set (concat (take k gs)). one_line b"
    using assms(2,3) unfolding gs by auto
  ultimately show ?thesis using collect_fragments [of "take k ms" "take k gs" chain_init "[]" i] by simp
qed

lemma collect_all:
  fixes D :: node_cfg
  assumes "linked (concat gs)" "length (concat gs) < 2 ^ 49" "\<forall>b \<in> set (concat gs). one_line b"
    "\<forall>g \<in> set gs. length (rows_text g) < 4063 \<and> NUL \<notin> set (rows_text g)" "gs \<noteq> []"
  shows "\<exists>c'. chain_inv c' \<and> c_v c' = concat gs
    \<and> collect env0 i (map Inr (map (signed_by D) (pieces 0 (map rows_text gs))) @ rest) chain_init = (False, c', [])"
proof -
  let ?ms = "map (signed_by D) (pieces 0 (map rows_text gs))"
  obtain k where k: "length gs = Suc k" using assms(5) by (cases gs) auto
  have ms: "?ms = take k ?ms @ [?ms ! k]" using k by (intro split_at_last) simp
  have "concat gs = concat (take k gs @ [gs ! k])" using split_at_last [OF k] by simp
  then have g: "concat gs = concat (take k gs) @ gs ! k" by simp
  obtain c1 where c1: "chain_inv c1" "c_v c1 = concat (take k gs)"
    "\<forall>rest. collect env0 i (map Inr (take k ?ms) @ rest) chain_init = collect env0 i rest c1"
    using collect_partial [OF assms(1-4), of k i D] k by auto
  have l: "linked (concat (take k gs) @ gs ! k)" using assms(1) g by simp
  obtain c2 where c2: "read_rows env0 (rows_text (gs ! k)) c1 = (c2, [])" "chain_inv c2" "c_v c2 = concat gs"
    using read_rows_text [OF c1(1,2) l] assms(2,3) unfolding g by auto
  have ok: "\<forall>b \<in> set (gs ! k). block_ok b"
    using linkedD(3) [OF l] by (metis Un_iff in_set_conv_nth set_append)
  have "length (rows_text (gs ! k)) < 4063 \<and> NUL \<notin> set (rows_text (gs ! k))"
    using assms(4) k by (metis lessI nth_mem)
  then have "payload (?ms ! k) = rows_text (gs ! k) \<and> m_last (?ms ! k) = 1"
    using k by (simp add: pieces_nth piece_def)
  then have "collect env0 i (Inr (?ms ! k) # rest) c1 = (False, c2, [])"
    using c2(1) rows_no_error [OF ok] by simp
  moreover have "collect env0 i (map Inr ?ms @ rest) chain_init = collect env0 i (Inr (?ms ! k) # rest) c1"
    by (subst ms) (simp only: map_append append_assoc c1(3) list.map append_Cons append_Nil)
  ultimately show ?thesis using c2 by auto
qed

lemma batches_full: "acc \<noteq> [] \<Longrightarrow> \<forall>g \<in> set (batches acc bs). g \<noteq> []"
  by (induction acc bs rule: batches.induct) auto

lemma batches_nonempty_groups:
  assumes "bs \<noteq> []" "\<forall>b \<in> set bs. block_ok b"
  shows "\<forall>g \<in> set (batches [] bs). g \<noteq> []"
proof -
  obtain b bs' where bs: "bs = b # bs'" using assms(1) by (cases bs) auto
  then have "length (csv_row b) \<le> 2243" using assms(2) csv_row_bounds(2) by simp
  then show ?thesis using batches_full [of "[b]" bs'] by (simp add: bs)
qed

lemma drop_late [simp]: "drop_late_replies (map Inr late @ Inl r # rs) = rs"
  by (induction late) simp_all

text \<open>The reaction to the command once a chain has been collected.\<close>

lemma cli_save_eq:
  assumes "input = ''save blockchain '' @ f" "f \<noteq> []" "length f < 256"
    "first_alive_node (ci_tab s) (nat (num_nodes P)) = Some i" "w_sent w (To_node i)" "w_io w = disk0"
    "collect (w_env w) i (drop_late_replies (w_recv w)) chain_init = (False, c, out)"
    "chain_inv c" "c_v c \<noteq> []"
  shows "cli_save P w input s = (s\<lparr>ci_files := (ci_files s)(f @ ''.tmp'' := None, f \<mapsto> file_text (c_v c))\<rparr>,
    [Send (To_node i) all_request], out @ [''Saved '' @ dec (length (c_v c)) @ '' blocks to '' @ f])"
proof -
  have "length input > 16" "input ! 15 = CHR '' ''" "drop 16 input = f"
    using assms(1,2) by (simp_all add: nth_append)
  moreover have "c_len c = length (c_v c)" using chain_invD(1) [OF assms(8)] .
  moreover have "csv_save disk0 (ci_files s) f c = (OK, (ci_files s)(f @ ''.tmp'' := None, f \<mapsto> file_text (c_v c)))"
    using assms(3) by (intro csv_save_fine [OF assms(8)]) simp_all
  ultimately show ?thesis
    using assms(3-7,9) by (simp add: cli_save_def send_request_def all_request_def [symmetric] Let_def)
qed

subsection \<open>Samples for the witnesses\<close>

definition params0 :: params_t where
  "params0 = \<lparr>num_nodes = 3, num_miners = 1, num_clients = 0, transaction_frequency = 1, difficulty = 12\<rparr>"

definition cli0 :: cli where
  "cli0 = \<lparr>ci_tab = [\<lparr>pr_pid = 42, pr_role = ROLE_MINER, pr_idx = 0, pr_alive = True\<rparr>,
       \<lparr>pr_pid = 50, pr_role = ROLE_NODE, pr_idx = 0, pr_alive = False\<rparr>,
       \<lparr>pr_pid = 51, pr_role = ROLE_NODE, pr_idx = 1, pr_alive = True\<rparr>],
     ci_announced = [False, True, False], ci_current_miner = 0, ci_files = (\<lambda>q. None)\<rparr>"

definition console0 :: "(code + msg_t) list \<Rightarrow> console" where
  "console0 rs = \<lparr>w_env = env0, w_io = disk0, w_sent = (\<lambda>d. True), w_recv = rs\<rparr>"

lemma cli0_node: "first_alive_node (ci_tab cli0) (nat (num_nodes params0)) = Some 1"
  by (simp add: first_alive_node_def alive_at_def cli0_def params0_def upt_rec)

text \<open>A chain whose rows need two fragments.\<close>

definition big_block2 :: block_t where
  "big_block2 = block_with 2 0x677485e5 0 (digest_of big_block) (replicate 16 big_tx)"

definition big_donor :: node where
  "big_donor = (empty_node (\<lambda>q. None))\<lparr>g_chain := \<lparr>c_v = [genesis1, big_block, big_block2], c_len = 3, c_cap = 4\<rparr>\<rparr>"

lemma big_donor_facts:
  "node_inv big_donor" "c_v (g_chain big_donor) = [genesis1, big_block, big_block2]"
  "\<forall>b \<in> set [genesis1, big_block, big_block2]. one_line b"
  "batches [] [genesis1, big_block, big_block2] = [[genesis1, big_block], [big_block2]]"
proof -
  have v: "valid_block big_block2"
    unfolding big_block2_def by (rule block_with_valid) (simp_all add: big_tx_facts)
  then have ok: "block_ok big_block2" by (simp add: valid_block_def)
  have "linked [genesis1, big_block]" using chain_invD(2) [OF big_chain_inv(1)] by (simp add: big_chain_def)
  then have "linked [genesis1, big_block, big_block2]"
    using linked_snoc [of "[genesis1, big_block]" big_block2] v by (simp add: big_block2_def)
  then have "chain_inv \<lparr>c_v = [genesis1, big_block, big_block2], c_len = 3, c_cap = 4\<rparr>"
    by (simp add: chain_inv_def sizeof_block_def)
  then show "node_inv big_donor" unfolding big_donor_def by (rule empty_node_inv)
  show "c_v (g_chain big_donor) = [genesis1, big_block, big_block2]" by (simp add: big_donor_def)
  show "\<forall>b \<in> set [genesis1, big_block, big_block2]. one_line b"
    using valid_one_line [OF v] valid_one_line [OF big_block_valid(1)] big_block_valid(3)
    by simp (simp add: big_block2_def)
  have r2: "length (csv_row big_block2) = 2243"
    using length_csv_row [OF ok] length_join_sep_eq [of "replicate 16 big_tx" 127 15]
    by (simp add: big_block2_def big_tx_facts)
  have "length (csv_row genesis1) = 194"
    using length_csv_row [OF samples_ok(1)] by simp (simp add: genesis1_def)
  then show "batches [] [genesis1, big_block, big_block2] = [[genesis1, big_block], [big_block2]]"
    by (simp add: big_row r2)
qed

subsection \<open>Properties\<close>

text \<open>C13: \<open>save blockchain\<close> works from end to end: whatever late replies are still in the inbox, once
  the answer of a node has been read the file holds exactly the chain of that node, and the line
  printed tells its length.\<close>

theorem save_end_to_end:
  assumes "node_inv d" "handle_chain_request D e d all_request = (d', answer)"
      "c_v (g_chain d) \<noteq> []" "length (c_v (g_chain d)) < 2 ^ 49" "\<forall>b \<in> set (c_v (g_chain d)). one_line b"
    and "input = ''save blockchain '' @ f" "f \<noteq> []" "length f < 256"
      "first_alive_node (ci_tab s) (nat (num_nodes P)) = Some i" "w_sent w (To_node i)" "w_io w = disk0"
      "w_env w = env0" "w_recv w = map Inr late @ Inl r # map Inr (sent answer) @ rest"
  shows "cli_save P w input s
    = (s\<lparr>ci_files := (ci_files s)(f @ ''.tmp'' := None, f \<mapsto> file_text (c_v (g_chain d)))\<rparr>,
       [Send (To_node i) all_request], [''Saved '' @ dec (length (c_v (g_chain d))) @ '' blocks to '' @ f])"
proof -
  have "linked (c_v (g_chain d))" using assms(1) chain_invD(2) by (simp add: node_inv_def)
  then obtain c where c: "chain_inv c" "c_v c = c_v (g_chain d)"
    "collect env0 i (map Inr (sent answer) @ rest) chain_init = (False, c, [])"
    using collect_all [OF _ _ _ save_answer(2,4) [OF assms(1-3)], of i D rest] assms(4,5)
    unfolding save_answer(1,3) [OF assms(1-3)] by auto
  have "collect (w_env w) i (drop_late_replies (w_recv w)) chain_init = (False, c, [])"
    using c(3) assms(12,13) by simp
  from cli_save_eq [OF assms(6-11) this c(1)] show ?thesis using assms(3) c(2) by simp
qed

theorem save_end_to_end_witness:
  "\<exists>answer. handle_chain_request cfg1 out0 donor all_request = (donor, answer)
    \<and> ci_files (fst (cli_save params0 (console0 (Inl IPC_EMPTY # map Inr (sent answer))) ''save blockchain a.csv'' cli0))
        ''a.csv'' = Some (file_text [genesis1, blockA])"
proof -
  obtain d' answer where a: "handle_chain_request cfg1 out0 donor all_request = (d', answer)" by fastforce
  then have d': "d' = donor" by (auto simp: handle_chain_request_def split: sum.splits if_splits)
  have "''save blockchain a.csv'' = ''save blockchain '' @ ''a.csv''" by simp
  then show ?thesis
    using save_end_to_end [OF donor_inv(1) a _ _ _ _ _ _ cli0_node, where f = "''a.csv''" and late = "[]" and rest = "[]"
        and w = "console0 (Inl IPC_EMPTY # map Inr (sent answer))" and r = IPC_EMPTY] two_blocks(2) a d'
    by (simp add: console0_def)
qed

text \<open>C32: when the answer stops after some of its fragments, as after a lost message, the command
  reports the timeout but goes on: it replaces the file by an incomplete chain, a proper prefix of
  the one the node has, and reports success.\<close>

theorem save_keeps_a_partial_chain:
  assumes "node_inv d" "handle_chain_request D e d all_request = (d', answer)"
      "c_v (g_chain d) \<noteq> []" "length (c_v (g_chain d)) < 2 ^ 49" "\<forall>b \<in> set (c_v (g_chain d)). one_line b"
    and "input = ''save blockchain '' @ f" "f \<noteq> []" "length f < 256"
      "first_alive_node (ci_tab s) (nat (num_nodes P)) = Some i" "w_sent w (To_node i)" "w_io w = disk0"
      "w_env w = env0" "w_recv w = map Inr late @ Inl r # map Inr (take k (sent answer)) @ [Inl IPC_TIMEOUT]"
      "0 < k" "k < length (sent answer)"
  shows "\<exists>bs rest. c_v (g_chain d) = bs @ rest \<and> bs \<noteq> [] \<and> rest \<noteq> [] \<and> cli_save P w input s
    = (s\<lparr>ci_files := (ci_files s)(f @ ''.tmp'' := None, f \<mapsto> file_text bs)\<rparr>,
       [Send (To_node i) all_request],
       [no_answer i, ''Saved '' @ dec (length bs) @ '' blocks to '' @ f])"
proof -
  let ?gs = "batches [] (c_v (g_chain d))"
  have inv: "chain_inv (g_chain d)" using assms(1) by (simp add: node_inv_def)
  note A = save_answer [OF assms(1-3)]
  have k: "k < length ?gs" using assms(15) by (simp add: A(1))
  obtain c where c: "chain_inv c" "c_v c = concat (take k ?gs)"
    "\<forall>rest. collect env0 i (map Inr (take k (sent answer)) @ rest) chain_init = collect env0 i rest c"
    using collect_partial [OF _ _ _ A(2) k, of i D] chain_invD(2) [OF inv] assms(4,5)
    unfolding A(1,3) by auto
  have ne: "\<forall>g \<in> set ?gs. g \<noteq> []"
    using linkedD(3) [OF chain_invD(2) [OF inv]] assms(3)
    by (intro batches_nonempty_groups) (metis in_set_conv_nth)+
  obtain g gs where g: "take k ?gs = g # gs" using assms(14) k by (cases "take k ?gs") auto
  then have "g \<in> set ?gs" by (metis in_set_takeD list.set_intros(1))
  then have bs: "c_v c \<noteq> []" using ne by (simp add: c(2) g)
  obtain h hs where h: "drop k ?gs = h # hs" using k by (cases "drop k ?gs") auto
  then have "h \<in> set ?gs" by (metis in_set_dropD list.set_intros(1))
  then have "concat (drop k ?gs) \<noteq> []" using ne by (simp add: h)
  moreover have "concat ?gs = concat (take k ?gs) @ concat (drop k ?gs)"
    by (metis append_take_drop_id concat_append)
  then have "c_v (g_chain d) = c_v c @ concat (drop k ?gs)" by (simp only: A(3) c(2))
  moreover have "collect (w_env w) i (drop_late_replies (w_recv w)) chain_init = (False, c, [no_answer i])"
    using c(3) assms(12,13) by simp
  ultimately show ?thesis using cli_save_eq [OF assms(6-11) _ c(1) bs] bs by fastforce
qed

theorem save_keeps_a_partial_chain_witness:
  "\<exists>bs. bs \<noteq> [] \<and> length bs < 3 \<and> (\<exists>answer.
      cli_save params0 (console0 (Inl IPC_EMPTY # map Inr (take 1 answer) @ [Inl IPC_TIMEOUT])) ''save blockchain a.csv'' cli0
      = (cli0\<lparr>ci_files := (\<lambda>q. None)(''a.csv'' \<mapsto> file_text bs)\<rparr>, [Send (To_node 1) all_request],
         [no_answer 1, ''Saved '' @ dec (length bs) @ '' blocks to a.csv'']))"
proof -
  note B = big_donor_facts
  obtain d' answer where a: "handle_chain_request cfg1 out0 big_donor all_request = (d', answer)" by fastforce
  have ne: "c_v (g_chain big_donor) \<noteq> []" by (simp add: B(2))
  have two: "length (sent answer) = 2" unfolding save_answer(1) [OF B(1) a ne] B(2) B(4) by simp
  let ?w = "console0 (Inl IPC_EMPTY # map Inr (take 1 (sent answer)) @ [Inl IPC_TIMEOUT])"
  have len: "length (c_v (g_chain big_donor)) < 2 ^ 49" and ones: "\<forall>b \<in> set (c_v (g_chain big_donor)). one_line b"
    unfolding B(2) using B(3) by simp_all
  have inp: "''save blockchain a.csv'' = ''save blockchain '' @ ''a.csv''" and f: "''a.csv'' \<noteq> []" "length ''a.csv'' < 256"
    by simp_all
  have w: "w_sent ?w (To_node 1)" "w_io ?w = disk0" "w_env ?w = env0"
    "w_recv ?w = map Inr [] @ Inl IPC_EMPTY # map Inr (take 1 (sent answer)) @ [Inl IPC_TIMEOUT]"
    by (simp_all add: console0_def)
  have k: "0 < (1 :: nat)" "1 < length (sent answer)" using two by simp_all
  obtain bs rest where r: "c_v (g_chain big_donor) = bs @ rest" "bs \<noteq> []" "rest \<noteq> []"
    "cli_save params0 ?w ''save blockchain a.csv'' cli0
      = (cli0\<lparr>ci_files := (ci_files cli0)(''a.csv'' @ ''.tmp'' := None, ''a.csv'' \<mapsto> file_text bs)\<rparr>,
         [Send (To_node 1) all_request], [no_answer 1, ''Saved '' @ dec (length bs) @ '' blocks to '' @ ''a.csv''])"
    using save_keeps_a_partial_chain [OF B(1) a ne len ones inp f cli0_node w k] by blast
  have "length bs < 3" using arg_cong [OF r(1), of length] r(3) by (simp add: B(2)) (cases rest; simp)
  moreover have "(ci_files cli0)(''a.csv'' @ ''.tmp'' := None, ''a.csv'' \<mapsto> file_text bs) = (\<lambda>q. None)(''a.csv'' \<mapsto> file_text bs)"
    by (simp add: cli0_def fun_eq_iff)
  ultimately show ?thesis using r(2,4) by (intro exI [of _ bs] conjI exI [of _ "sent answer"]) simp_all
qed

text \<open>C36: \<open>submit\<close> never sends anything but a valid transaction that stands between the first and the
  last quote of the line, to one miner that is alive, whose mempool takes it if it has room; and
  while all miners are alive, successive transactions go to them in turn.\<close>

theorem submit_is_safe:
  assumes "cli_submit P w input s = (s', fx, out)" "x \<in> set fx"
  shows "\<exists>j tx a b. fx = [x] \<and> x = Send (To_miner j) (tx_msg ROLE_PARENT 0 tx)
    \<and> input = a @ [QUOTE] @ tx @ [QUOTE] @ b \<and> QUOTE \<notin> set a \<and> QUOTE \<notin> set b \<and> valid_tx tx
    \<and> alive_at (ci_tab s) ROLE_MINER j \<and> j < nat (num_miners P)
    \<and> ((\<forall>t < nat (num_miners P). alive_at (ci_tab s) ROLE_MINER t) \<longrightarrow>
         j = ci_current_miner s mod nat (num_miners P) \<and> ci_current_miner s' = Suc j)
    \<and> (\<forall>E q. re_ok E \<and> length (mempool q) < 1024 \<longrightarrow>
         take_message E (tx_msg ROLE_PARENT 0 tx) q = (False, q\<lparr>mempool := mempool q @ [tx]\<rparr>))"
  by (rule submit_sends [OF assms])

theorem submit_is_safe_witness:
  "\<exists>s'. cli_submit params0 (console0 []) (''submit '' @ [QUOTE] @ tx1 @ [QUOTE]) cli0
      = (s', [Send (To_miner 0) (tx_msg ROLE_PARENT 0 tx1)], [''Valid transaction. Sent to the miner 0.''])
    \<and> ci_current_miner s' = 1"
proof -
  let ?input = "''submit '' @ [QUOTE] @ tx1 @ [QUOTE]"
  have "strchr ?input QUOTE = Some 7" "strrchr ?input QUOTE = Some 31"
      "take 23 (drop 8 ?input) = tx1" by (code_simp, code_simp, code_simp)
  moreover have "transaction_is_valid True tx1 = OK" by (simp add: transaction_is_valid_iff)
  moreover have "next_alive_miner (ci_tab cli0) (nat (num_miners params0)) (ci_current_miner cli0) = (Some 0, 1)"
    by (simp add: next_alive_miner_def alive_at_def cli0_def params0_def)
  ultimately obtain s' where c: "cli_submit params0 (console0 []) ?input cli0
      = (s', [Send (To_miner 0) (tx_msg ROLE_PARENT 0 tx1)], [''Valid transaction. Sent to the miner '' @ dec 0 @ ''.''])"
    by (simp add: cli_submit_def console0_def Let_def)
  have all: "\<forall>t < nat (num_miners params0). alive_at (ci_tab cli0) ROLE_MINER t"
    by (simp add: alive_at_def cli0_def params0_def)
  from submit_is_safe [OF c, of "Send (To_miner 0) (tx_msg ROLE_PARENT 0 tx1)"] all
  have "ci_current_miner s' = 1" by auto
  then show ?thesis using c by (simp add: dec.simps hex_digit_def)
qed

end
