(* ===== verification/Bootstrap.thy ===== *)
theory Bootstrap
  imports Cli
begin

section \<open>The parent process (main.c)\<close>

text \<open>
  The parent reads its arguments, prepares the chain every process starts from, creates the FIFOs
  and the children, runs the command line and shuts everything down. What \<open>fork\<close> returns for
  each child is the argument \<open>fork\<close>; the children find the arguments built here in their \<open>argv\<close>.
\<close>

definition BOOTSTRAP_CSV :: string where "BOOTSTRAP_CSV = ''bootstrap.csv''"

subsection \<open>Arguments\<close>

definition parse_args :: "string list \<Rightarrow> code + params_t" where
  "parse_args argv =
     (let argc = length argv in
      if argc < 4 then Inl ARGS_ERROR else
      let nodes = atoi (argv ! 1); miners = atoi (argv ! 2); clients = atoi (argv ! 3);
          freq = (if argc > 4 then atoi (argv ! 4) else 1);
          diff = (if argc > 5 then atoi (argv ! 5) else 12)
      in if nodes < 1 \<or> nodes > int MAX_NODES then Inl ARGS_ERROR
         else if miners < 1 \<or> miners > int MAX_MINERS then Inl ARGS_ERROR
         else if clients < 0 \<or> clients > int MAX_CLIENTS then Inl ARGS_ERROR
         else if freq < 1 \<or> freq > int MAX_TX_FREQ then Inl ARGS_ERROR
         else if diff < 1 then Inl ARGS_ERROR
         else Inr \<lparr>num_nodes = nodes, num_miners = miners, num_clients = clients,
                   transaction_frequency = freq, difficulty = diff\<rparr>)"

subsection \<open>The first chain\<close>

definition genesis_block :: "allocator \<Rightarrow> u64 \<Rightarrow> code + block_t" where
  "genesis_block M now =
     (let txs = [snprintf_out MAX_TX_LEN ''Genesis block''] in
      case merkle_root M txs of Inl _ \<Rightarrow> Inl INVALID_BLOCK | Inr root \<Rightarrow>
      Inr \<lparr>b_index = 0, b_timestamp = now, b_nonce = 0, b_prev_hash = replicate 64 (CHR ''0''),
           b_merkle_root = root, b_txs = txs @ replicate (MAX_TX_PER_BLOCK - 1) [], b_tx_count = 1\<rparr>)"

definition initial_chain :: "env \<Rightarrow> io \<Rightarrow> files \<Rightarrow> u64 \<Rightarrow> string option \<Rightarrow> code + chain_t" where
  \<comment> \<open>an initial file that does not exist counts as none\<close>
  "initial_chain E d fs now csv =
     (let csv' = (case csv of None \<Rightarrow> None | Some p \<Rightarrow> if fs p = None then None else Some p);
          (r, c) = (case csv' of None \<Rightarrow> (OK, chain_init) | Some p \<Rightarrow> csv_load E d fs p chain_init)
      in if r \<noteq> OK then Inl r
         else if c_len c = 0 then
           (case genesis_block (mem E) now of Inl r \<Rightarrow> Inl r | Inr b \<Rightarrow>
            let (res, c') = chain_append E c b in if res \<noteq> APPEND_OK then Inl INVALID_BLOCK else Inr c')
         else Inr c)"

subsection \<open>The children\<close>

definition arg :: "int \<Rightarrow> string" where
  "arg v = snprintf_out 16 (dec_int v)"

definition miner_argv :: "params_t \<Rightarrow> nat \<Rightarrow> string list" where
  "miner_argv P i = [''miner'', arg (int i), arg (num_nodes P), arg (num_miners P), arg (difficulty P), BOOTSTRAP_CSV]"

definition miner_pid_args :: "proc_t list \<Rightarrow> string list" where
  "miner_pid_args procs = map (\<lambda>p. arg (pr_pid p)) (filter (\<lambda>p. pr_role p = ROLE_MINER) procs)"

definition node_argv :: "params_t \<Rightarrow> proc_t list \<Rightarrow> nat \<Rightarrow> string list" where
  "node_argv P procs i =
     [''node'', arg (int i), arg (num_nodes P), arg (num_miners P), BOOTSTRAP_CSV] @ miner_pid_args procs"

definition client_argv :: "params_t \<Rightarrow> proc_t list \<Rightarrow> nat \<Rightarrow> string list" where
  "client_argv P procs i =
     [''client'', arg (int i), arg (num_miners P), arg (transaction_frequency P)] @ miner_pid_args procs"

text \<open>What \<open>spawn_child\<close> does in the child after \<open>fork\<close>, and what the parent gets.\<close>

datatype child = Exits code | Runs string "string list" | Gone_parent

definition spawn_child :: "int \<Rightarrow> bool \<Rightarrow> bool \<Rightarrow> string \<Rightarrow> string list \<Rightarrow> int \<times> child option" where
  "spawn_child pid parent_alive exec_ok path argv =
     (if pid < 0 then (-1, None)
      else (pid, Some (if \<not> parent_alive then Gone_parent
                       else if exec_ok then Runs path argv else Exits SYS_ERROR)))"

definition spawn_role :: "(role \<Rightarrow> nat \<Rightarrow> int) \<Rightarrow> role \<Rightarrow> nat \<Rightarrow> proc_t list \<Rightarrow> proc_t list" where
  \<comment> \<open>one of the three loops: who was forked gets an entry\<close>
  "spawn_role fork r n procs =
     procs @ concat (map (\<lambda>i. if fork r i > 0
       then [\<lparr>pr_pid = fork r i, pr_role = r, pr_idx = int i, pr_alive = True\<rparr>] else []) [0..<n])"

definition spawn_all :: "(role \<Rightarrow> nat \<Rightarrow> int) \<Rightarrow> params_t \<Rightarrow> proc_t list" where
  "spawn_all fork P =
     spawn_role fork ROLE_CLIENT (nat (num_clients P))
       (spawn_role fork ROLE_NODE (nat (num_nodes P))
         (spawn_role fork ROLE_MINER (nat (num_miners P)) []))"

subsection \<open>Shutdown\<close>

text \<open>
  The system as far as the shutdown sees it: the children that run, those that have ended and are
  not reaped yet, and the table. Between two steps of the parent children may end and the handler
  of \<open>SIGCHLD\<close> may run, which reaps all that have ended; \<open>ev\<close> says what happens where. The call
  \<open>waitpid(-1, NULL, WNOHANG)\<close> of the \<open>k\<close>-th round may reap a child itself, \<open>steal k\<close>, and then
  nobody marks it. \<open>waitpid\<close> on one child returns at once when that child has ended or is no child
  any more; while it runs the call blocks, and the shutdown does not return (\<open>None\<close>).
\<close>

record sys =
  sy_running :: "int list"
  sy_zombies :: "int list"
  sy_tab :: "proc_t list"

datatype event = Child_exits int | Handler

datatype point = Before_term nat | Before_look nat | Before_kill nat | Before_wait nat

fun happens :: "event \<Rightarrow> sys \<Rightarrow> sys" where
  "happens (Child_exits p) s =
     (if p \<in> set (sy_running s)
      then s\<lparr>sy_running := remove1 p (sy_running s), sy_zombies := sy_zombies s @ [p]\<rparr> else s)"
| "happens Handler s = s\<lparr>sy_zombies := [], sy_tab := reap_children (sy_zombies s) (sy_tab s)\<rparr>"

definition meanwhile :: "event list \<Rightarrow> sys \<Rightarrow> sys" where
  "meanwhile es s = fold happens es s"

fun term_loop :: "(point \<Rightarrow> event list) \<Rightarrow> nat list \<Rightarrow> sys \<Rightarrow> sys \<times> effect list" where
  "term_loop ev [] s = (s, [])"
| "term_loop ev (i # is) s =
     (let s1 = meanwhile (ev (Before_term i)) s; p = sy_tab s1 ! i; (s2, fx) = term_loop ev is s1
      in (s2, (if pr_alive p then [Kill (pr_pid p) SIGTERM] else []) @ fx))"

definition reap_any :: "int option \<Rightarrow> sys \<Rightarrow> sys" where
  \<comment> \<open>\<open>waitpid(-1, NULL, WNOHANG)\<close>\<close>
  "reap_any q s = (case q of None \<Rightarrow> s | Some p \<Rightarrow> s\<lparr>sy_zombies := remove1 p (sy_zombies s)\<rparr>)"

fun wait_dead :: "(point \<Rightarrow> event list) \<Rightarrow> (nat \<Rightarrow> int option) \<Rightarrow> nat \<Rightarrow> nat \<Rightarrow> sys \<Rightarrow> nat \<times> sys" where
  "wait_dead ev steal 0 waited s = (waited, s)"
| "wait_dead ev steal (Suc left) waited s =
     (let s1 = meanwhile (ev (Before_look waited)) s in
      if list_all (\<lambda>p. \<not> pr_alive p) (sy_tab s1) then (waited, s1)
      else wait_dead ev steal left (waited + 1) (reap_any (steal waited) s1))"

definition waitpid :: "int \<Rightarrow> sys \<Rightarrow> sys option" where
  \<comment> \<open>\<open>waitpid(pid, NULL, 0)\<close>\<close>
  "waitpid pid s =
     (if pid \<in> set (sy_zombies s) then Some (s\<lparr>sy_zombies := remove1 pid (sy_zombies s)\<rparr>)
      else if pid \<in> set (sy_running s) then None else Some s)"

fun kill_loop :: "(point \<Rightarrow> event list) \<Rightarrow> nat list \<Rightarrow> sys \<Rightarrow> (sys \<times> effect list) option" where
  "kill_loop ev [] s = Some (s, [])"
| "kill_loop ev (i # is) s =
     (let s1 = meanwhile (ev (Before_kill i)) s; pid = pr_pid (sy_tab s1 ! i) in
      if \<not> pr_alive (sy_tab s1 ! i) then kill_loop ev is s1
      else let s2 = happens (Child_exits pid) s1 in  \<comment> \<open>\<open>kill(pid, SIGKILL)\<close>\<close>
      case waitpid pid (meanwhile (ev (Before_wait i)) s2) of None \<Rightarrow> None | Some s3 \<Rightarrow>
      map_option (\<lambda>(s', fx). (s', Kill pid SIGKILL # fx))
        (kill_loop ev is (s3\<lparr>sy_tab := (sy_tab s3)[i := (sy_tab s3 ! i)\<lparr>pr_alive := False\<rparr>]\<rparr>)))"

definition shutdown_all :: "(point \<Rightarrow> event list) \<Rightarrow> (nat \<Rightarrow> int option) \<Rightarrow> sys
    \<Rightarrow> (nat \<times> sys \<times> effect list) option" where
  "shutdown_all ev steal s =
     (let (s1, terms) = term_loop ev [0..<length (sy_tab s)] s;
          (waited, s2) = wait_dead ev steal 30 0 s1
      in map_option (\<lambda>(s3, kills). (waited, s3, terms @ kills)) (kill_loop ev [0..<length (sy_tab s)] s2))"

text \<open>When the shutdown begins; a child that ended just before ends as the first event.\<close>

definition children :: "proc_t list \<Rightarrow> sys" where
  "children tab = \<lparr>sy_running = map pr_pid (filter pr_alive tab), sy_zombies = [], sy_tab = tab\<rparr>"

subsection \<open>main\<close>

record host =
  h_boot :: boot
  h_now :: u64
  h_fork :: "role \<Rightarrow> nat \<Rightarrow> int"
  h_rounds :: "(int list \<times> string option \<times> console) list"
  h_events :: "point \<Rightarrow> event list"
  h_steal :: "nat \<Rightarrow> int option"
  h_fifos :: "string list"

text \<open>
  Up to the children: the parameters, the first chain, the saved files, the FIFOs and the table; or
  the exit code and the FIFOs that exist then.
\<close>

definition main_start :: "host \<Rightarrow> string list
    \<Rightarrow> (code \<times> string list) + (params_t \<times> chain_t \<times> files \<times> string list \<times> proc_t list)" where
  "main_start H argv =
     (let B = h_boot H in
      case parse_args argv of Inl r \<Rightarrow> Inl (ARGS_ERROR, h_fifos H) | Inr P \<Rightarrow>
      if fst (log_init (b_log_dir B) (b_log_fd B) (b_pid B) ''main'' log_closed) \<noteq> OK
      then Inl (FILE_ERROR, h_fifos H)
      else if fst (transaction_init False (b_regcomp B)) \<noteq> OK then Inl (SYS_ERROR, h_fifos H)
      else case initial_chain (boot_env B) (b_io B) (b_files B) (h_now H)
                  (if length argv > 6 then Some (argv ! 6) else None) of
             Inl r \<Rightarrow> Inl (r, h_fifos H)
           | Inr c \<Rightarrow>
      let (r, fs) = csv_save (b_io B) (b_files B) BOOTSTRAP_CSV c in
      if r \<noteq> OK then Inl (FILE_ERROR, h_fifos H) else
      let (r, fds, fifos) = ipc_create_all (b_kernel B) (nat (num_nodes P)) (nat (num_miners P)) (h_fifos H) in
      if r \<noteq> OK then Inl (IPC_ERROR, fifos)
      else Inr (P, c, fs, fifos, spawn_all (h_fork H) P))"

definition main_run :: "host \<Rightarrow> string list \<Rightarrow> (code \<times> string list \<times> proc_t list \<times> effect list) option" where
  \<comment> \<open>the exit code, the FIFOs that are left, the table, the signals of the shutdown\<close>
  "main_run H argv =
     (case main_start H argv of Inl (r, fifos) \<Rightarrow> Some (r, fifos, [], []) | Inr (P, c, fs, fifos, procs) \<Rightarrow>
      let (cli_res, tab) = (case cli_run (b_kernel (h_boot H)) P (h_rounds H) procs fs of
             Inl r \<Rightarrow> (r, procs) | Inr (s, fx, out) \<Rightarrow> (OK, ci_tab s));
          fifos' = snd (ipc_unlink_all (nat (num_nodes P)) (nat (num_miners P)) fifos)
      in map_option (\<lambda>(waited, s', fx). (cli_res, fifos', sy_tab s', fx))
           (shutdown_all (h_events H) (h_steal H) (children tab)))"

subsection \<open>Numbers through \<open>argv\<close>\<close>

lemma atoi_range: "- (2 ^ 31) \<le> atoi s" "atoi s < 2 ^ 31"
proof -
  have "- (2 ^ 31) \<le> sint w \<and> sint w < 2 ^ 31" for w :: "32 word"
    using sint_ge [of w] sint_lt [of w] by simp
  then show "- (2 ^ 31) \<le> atoi s" "atoi s < 2 ^ 31" by (auto simp: atoi_def split: option.split)
qed

lemma atoi_arg [simp]: "0 \<le> v \<Longrightarrow> v < 2 ^ 31 \<Longrightarrow> atoi (arg v) = v"
proof -
  assume v: "0 \<le> v" "v < 2 ^ 31"
  then have "length (dec (nat v)) \<le> 10" by (intro length_dec) (auto simp: nat_less_iff)
  then have "arg v = dec (nat v)" using v by (simp add: arg_def dec_int_def snprintf_out_def)
  then show ?thesis using v atoi_dec [of "nat v"] by (simp add: nat_less_iff)
qed

lemma parse_args_bounds:
  assumes "parse_args argv = Inr P"
  shows "1 \<le> num_nodes P" "num_nodes P \<le> 16" "1 \<le> num_miners P" "num_miners P \<le> 16"
    "0 \<le> num_clients P" "num_clients P \<le> 16" "1 \<le> transaction_frequency P" "transaction_frequency P \<le> 1000"
    "1 \<le> difficulty P" "difficulty P < 2 ^ 31"
  using assms atoi_range(2) [of "argv ! 5"] by (auto simp: parse_args_def Let_def split: if_splits)

subsection \<open>The table of the children\<close>

lemma miners_first:
  "filter (\<lambda>p. pr_role p = ROLE_MINER) (spawn_role fork r n procs)
    = (if r = ROLE_MINER then spawn_role fork r n (filter (\<lambda>p. pr_role p = ROLE_MINER) procs)
       else filter (\<lambda>p. pr_role p = ROLE_MINER) procs)"
proof (cases "r = ROLE_MINER")
  case True
  then show ?thesis by (induction n) (simp_all add: spawn_role_def)
next
  case False
  then show ?thesis by (induction n) (simp_all add: spawn_role_def)
qed

lemma miner_pids_spawned:
  "map pr_pid (spawn_role fork r n []) = filter (\<lambda>p. p > 0) (map (fork r) [0..<n])"
  by (induction n) (simp_all add: spawn_role_def)

lemma miner_pid_args_eq:
  "r \<noteq> ROLE_MINER \<Longrightarrow> miner_pid_args (spawn_role fork r n procs) = miner_pid_args procs"
  "miner_pid_args (spawn_role fork ROLE_MINER n []) = map arg (filter (\<lambda>p. p > 0) (map (fork ROLE_MINER) [0..<n]))"
proof -
  show "r \<noteq> ROLE_MINER \<Longrightarrow> miner_pid_args (spawn_role fork r n procs) = miner_pid_args procs"
    by (simp add: miner_pid_args_def miners_first)
  have "filter (\<lambda>p. pr_role p = ROLE_MINER) (spawn_role fork ROLE_MINER n []) = spawn_role fork ROLE_MINER n []"
    by (simp add: miners_first)
  then have "miner_pid_args (spawn_role fork ROLE_MINER n []) = map arg (map pr_pid (spawn_role fork ROLE_MINER n []))"
    by (simp add: miner_pid_args_def)
  then show "miner_pid_args (spawn_role fork ROLE_MINER n [])
      = map arg (filter (\<lambda>p. p > 0) (map (fork ROLE_MINER) [0..<n]))"
    by (simp only: miner_pids_spawned)
qed

definition pids_of :: "(role \<Rightarrow> nat \<Rightarrow> int) \<Rightarrow> params_t \<Rightarrow> int list" where
  "pids_of fork P = filter (\<lambda>p. p > 0) (map (fork ROLE_MINER) [0..<nat (num_miners P)])"

text \<open>The tables the parent holds when it forks the nodes and the clients.\<close>

abbreviation node_table :: "(role \<Rightarrow> nat \<Rightarrow> int) \<Rightarrow> params_t \<Rightarrow> nat \<Rightarrow> proc_t list" where
  "node_table fork P i \<equiv> spawn_role fork ROLE_NODE i (spawn_role fork ROLE_MINER (nat (num_miners P)) [])"

abbreviation client_table :: "(role \<Rightarrow> nat \<Rightarrow> int) \<Rightarrow> params_t \<Rightarrow> nat \<Rightarrow> proc_t list" where
  "client_table fork P i \<equiv> spawn_role fork ROLE_CLIENT i (node_table fork P (nat (num_nodes P)))"

lemma table_pids:
  "miner_pid_args (node_table fork P i) = map arg (pids_of fork P)"
  "miner_pid_args (client_table fork P i) = map arg (pids_of fork P)"
  by (simp_all add: miner_pid_args_eq pids_of_def)

lemma pids_read_back:
  assumes "\<forall>p \<in> set ps. 0 < p \<and> p < 2 ^ 31"
  shows "map (\<lambda>k. atoi ((pre @ map arg ps) ! (k + length pre))) [0..<length ps] = ps"
proof (rule nth_equalityI)
  fix k assume "k < length (map (\<lambda>k. atoi ((pre @ map arg ps) ! (k + length pre))) [0..<length ps])"
  then have k: "k < length ps" by simp
  then have "0 < ps ! k \<and> ps ! k < 2 ^ 31" using assms nth_mem by blast
  then show "map (\<lambda>k. atoi ((pre @ map arg ps) ! (k + length pre))) [0..<length ps] ! k = ps ! k"
    using k by (simp add: nth_append)
qed simp

lemma node_parse_argv:
  assumes "parse_args argv = Inr P" "i < nat (num_nodes P)" "\<forall>p \<in> set (pids_of fork P). p < 2 ^ 31"
  shows "node_parse_args (node_argv P (node_table fork P i) i) =
    (if length (pids_of fork P) = nat (num_miners P)
     then Inr \<lparr>g_idx = int i, g_num_nodes = num_nodes P, g_num_miners = num_miners P,
            g_miner_pids = pids_of fork P, g_bootstrap_csv = BOOTSTRAP_CSV\<rparr>
     else Inl ARGS_ERROR)"
proof -
  note B = parse_args_bounds [OF assms(1)]
  let ?v = "node_argv P (node_table fork P i) i"
  have v: "?v = [''node'', arg (int i), arg (num_nodes P), arg (num_miners P), BOOTSTRAP_CSV] @ map arg (pids_of fork P)"
    by (simp only: node_argv_def table_pids)
  have at: "atoi (?v ! 1) = int i" "atoi (?v ! 2) = num_nodes P" "atoi (?v ! 3) = num_miners P"
    "?v ! 4 = BOOTSTRAP_CSV" "length ?v = 5 + length (pids_of fork P)"
    using B assms(2) unfolding v by simp_all
  have pos: "\<forall>p \<in> set (pids_of fork P). 0 < p" by (simp add: pids_of_def)
  show ?thesis
  proof (cases "length (pids_of fork P) = nat (num_miners P)")
    case False
    have "length (pids_of fork P) \<le> nat (num_miners P)"
      unfolding pids_of_def by (metis length_filter_le length_map length_upt diff_zero)
    then show ?thesis using False at B by (auto simp: node_parse_args_def Let_def)
  next
    case True
    have "map (\<lambda>k. atoi (?v ! (k + 5))) [0..<nat (num_miners P)] = pids_of fork P"
      unfolding v using pids_read_back [of "pids_of fork P" "[''node'', arg (int i), arg (num_nodes P), arg (num_miners P), BOOTSTRAP_CSV]"] pos assms(3) True by simp
    moreover have "\<not> list_ex (\<lambda>p. p \<le> 0) (pids_of fork P)" using pos by (auto simp: list_ex_iff)
    moreover have "take 255 BOOTSTRAP_CSV = BOOTSTRAP_CSV" by (simp add: BOOTSTRAP_CSV_def)
    moreover have "int (length (pids_of fork P)) = num_miners P" using True B(3) by simp
    moreover have "int i < num_nodes P" using assms(2) by simp
    ultimately show ?thesis using True at B by (simp add: node_parse_args_def Let_def)
  qed
qed

lemma client_parse_argv:
  assumes "parse_args argv = Inr P" "i < nat (num_clients P)" "\<forall>p \<in> set (pids_of fork P). p < 2 ^ 31"
  shows "client_parse_args (client_argv P (client_table fork P i) i) =
    (if length (pids_of fork P) = nat (num_miners P)
     then Inr \<lparr>cc_idx = int i, cc_num_miner = num_miners P, cc_freq = transaction_frequency P,
            cc_miner_pids = pids_of fork P\<rparr>
     else Inl ARGS_ERROR)"
proof -
  note B = parse_args_bounds [OF assms(1)]
  let ?v = "client_argv P (client_table fork P i) i"
  have v: "?v = [''client'', arg (int i), arg (num_miners P), arg (transaction_frequency P)] @ map arg (pids_of fork P)"
    by (simp only: client_argv_def table_pids)
  have at: "atoi (?v ! 1) = int i" "atoi (?v ! 2) = num_miners P" "atoi (?v ! 3) = transaction_frequency P"
    "length ?v = 4 + length (pids_of fork P)"
    using B assms(2) unfolding v by simp_all
  have pos: "\<forall>p \<in> set (pids_of fork P). 0 < p" by (simp add: pids_of_def)
  show ?thesis
  proof (cases "length (pids_of fork P) = nat (num_miners P)")
    case False
    have "length (pids_of fork P) \<le> nat (num_miners P)"
      unfolding pids_of_def by (metis length_filter_le length_map length_upt diff_zero)
    then show ?thesis using False at B by (auto simp: client_parse_args_def Let_def)
  next
    case True
    have "map (\<lambda>k. atoi (?v ! (k + 4))) [0..<nat (num_miners P)] = pids_of fork P"
      unfolding v using pids_read_back [of "pids_of fork P" "[''client'', arg (int i), arg (num_miners P), arg (transaction_frequency P)]"] pos assms(3) True by simp
    moreover have "\<not> list_ex (\<lambda>p. p \<le> 0) (pids_of fork P)" using pos by (auto simp: list_ex_iff)
    moreover have "int (length (pids_of fork P)) = num_miners P" using True B(3) by simp
    ultimately show ?thesis using True at B by (simp add: client_parse_args_def Let_def)
  qed
qed

subsection \<open>The first chain is valid\<close>

lemma genesis_block_Inr:
  assumes "genesis_block M now = Inr b"
  shows "b = block_with 0 now 0 zeros64 [''Genesis block'']" "valid_block b" "one_line b" "length (csv_row b) < 2243"
proof -
  show b: "b = block_with 0 now 0 zeros64 [''Genesis block'']"
    using assms by (auto simp: genesis_block_def block_with_def zeros64_def snprintf_out_def Let_def
        dest!: merkle_root_Inr split: sum.splits)
  have ok: "block_ok b" unfolding b by (rule block_with_ok) (simp_all add: plain_tx_def)
  then show "valid_block b" by (simp add: valid_block_def) (simp add: b)
  have "length (csv_row b) = 194" using length_csv_row [OF ok] by (simp add: b)
  then show "length (csv_row b) < 2243" by simp
  have "txs_of b = [''Genesis block'']" by (simp add: b)
  then show "one_line b" using csv_row_chars [OF ok] lower_hex_neq unfolding one_line_def by fastforce
qed

lemma initial_chain_inv:
  assumes "initial_chain E d fs now csv = Inr c"
  shows "chain_inv c" "c_v c \<noteq> []"
proof -
  have load: "chain_inv (snd (csv_load E d fs p chain_init))" for p
    by (auto simp: csv_load_def load_rows_inv split: option.splits)
  obtain r c0 where c0: "(case (case csv of None \<Rightarrow> None | Some p \<Rightarrow> if fs p = None then None else Some p) of
      None \<Rightarrow> (OK, chain_init) | Some p \<Rightarrow> csv_load E d fs p chain_init) = (r, c0)" by fastforce
  then have "c0 = chain_init \<or> (\<exists>p. csv_load E d fs p chain_init = (r, c0))"
    by (auto split: option.splits if_splits)
  then have inv0: "chain_inv c0" using load by (metis chain_inv_init(1) snd_conv)
  have "chain_inv c \<and> c_v c \<noteq> []"
  proof (cases "c_len c0 = 0")
    case False
    then have "c = c0" using assms by (auto simp: initial_chain_def c0 split: if_splits)
    then show ?thesis using inv0 False chain_invD(1) by auto
  next
    case True
    then obtain b where b: "genesis_block (mem E) now = Inr b" "chain_append E c0 b = (APPEND_OK, c)"
      using assms by (auto simp: initial_chain_def c0 split: if_splits sum.splits prod.splits)
    have ok: "block_ok b" using genesis_block_Inr(2) [OF b(1)] by (simp add: valid_block_def)
    show ?thesis using led.inv_append [OF inv0 ok, of E] led.effect [OF inv0 ok, of E] b(2) by simp
  qed
  then show "chain_inv c" "c_v c \<noteq> []" by auto
qed

text \<open>Without an initial file the chain is the genesis block.\<close>

lemma initial_chain_fresh:
  assumes "initial_chain E d fs now csv = Inr c" "csv = None \<or> fs (the csv) = None"
  shows "c_v c = [block_with 0 now 0 zeros64 [''Genesis block'']]"
proof -
  have "(case csv of None \<Rightarrow> None | Some p \<Rightarrow> if fs p = None then None else Some p) = None"
    using assms(2) by (cases csv) auto
  then obtain b where b: "genesis_block (mem E) now = Inr b" "chain_append E chain_init b = (APPEND_OK, c)"
    using assms(1) by (auto simp: initial_chain_def Let_def split: sum.splits if_splits prod.splits)
  have ok: "block_ok b" using genesis_block_Inr(2) [OF b(1)] by (simp add: valid_block_def)
  then show ?thesis using led.effect [OF chain_inv_init(1) ok, of E] b(2) genesis_block_Inr(1) [OF b(1)] by simp
qed

subsection \<open>The end of the children\<close>

lemma mark_dead_facts:
  "length (mark_dead pid tab) = length tab"
  "i < length tab \<Longrightarrow> pr_pid (mark_dead pid tab ! i) = pr_pid (tab ! i)
     \<and> (pr_alive (mark_dead pid tab ! i) \<longrightarrow> pr_alive (tab ! i))"
proof -
  show "length (mark_dead pid tab) = length tab" by (induction tab) simp_all
  show "i < length tab \<Longrightarrow> pr_pid (mark_dead pid tab ! i) = pr_pid (tab ! i)
     \<and> (pr_alive (mark_dead pid tab ! i) \<longrightarrow> pr_alive (tab ! i))"
    by (induction tab arbitrary: i) (auto simp: nth_Cons split: nat.split)
qed

lemma reap_facts:
  "length (reap_children pids tab) = length tab"
  "i < length tab \<Longrightarrow> pr_pid (reap_children pids tab ! i) = pr_pid (tab ! i)
     \<and> (pr_alive (reap_children pids tab ! i) \<longrightarrow> pr_alive (tab ! i))"
proof -
  show l: "length (reap_children pids tab) = length tab" for tab
    unfolding reap_children_def by (induction pids arbitrary: tab) (simp_all add: mark_dead_facts)
  show "i < length tab \<Longrightarrow> pr_pid (reap_children pids tab ! i) = pr_pid (tab ! i)
     \<and> (pr_alive (reap_children pids tab ! i) \<longrightarrow> pr_alive (tab ! i))"
    unfolding reap_children_def
  proof (induction pids arbitrary: tab)
    case (Cons pid pids)
    then show ?case using mark_dead_facts [where pid = pid and tab = tab] by simp
  qed simp
qed

lemma mark_dead_map:
  "distinct (map pr_pid tab) \<Longrightarrow>
    mark_dead pid tab = map (\<lambda>q. if pr_pid q = pid then q\<lparr>pr_alive := False\<rparr> else q) tab"
proof (induction tab)
  case (Cons q tab)
  show ?case
  proof (cases "pr_pid q = pid")
    case True
    then have "\<forall>x \<in> set tab. pr_pid x \<noteq> pid" using Cons.prems by (auto simp: image_iff)
    then have "map (\<lambda>q. if pr_pid q = pid then q\<lparr>pr_alive := False\<rparr> else q) tab = tab" by (intro map_idI) simp
    then show ?thesis using True by simp
  qed (use Cons in simp)
qed simp

lemma reap_children_map:
  "distinct (map pr_pid tab) \<Longrightarrow>
    reap_children pids tab = map (\<lambda>q. if pr_pid q \<in> set pids then q\<lparr>pr_alive := False\<rparr> else q) tab"
  unfolding reap_children_def
proof (induction pids arbitrary: tab)
  case (Cons pid pids)
  let ?tab = "map (\<lambda>q. if pr_pid q = pid then q\<lparr>pr_alive := False\<rparr> else q) tab"
  have "map pr_pid ?tab = map pr_pid tab" by simp
  then have "distinct (map pr_pid ?tab)" using Cons.prems by (simp only:)
  from Cons.IH [OF this] show ?case by (simp add: mark_dead_map [OF Cons.prems] comp_def)
qed simp

text \<open>
  Every child, running or ended, has an entry of its own that is marked alive. The steps of the
  shutdown keep this, and they change nothing but what the relation \<open>later\<close> allows.
\<close>

definition family :: "sys \<Rightarrow> bool" where
  "family s \<longleftrightarrow> distinct (map pr_pid (sy_tab s)) \<and> distinct (sy_running s @ sy_zombies s)
     \<and> (\<forall>p \<in> set (sy_running s) \<union> set (sy_zombies s). \<exists>q \<in> set (sy_tab s). pr_pid q = p \<and> pr_alive q)"

definition later :: "sys \<Rightarrow> sys \<Rightarrow> bool" where
  "later s s' \<longleftrightarrow> map pr_pid (sy_tab s') = map pr_pid (sy_tab s)
     \<and> set (sy_running s') \<subseteq> set (sy_running s)
     \<and> set (sy_running s') \<union> set (sy_zombies s') \<subseteq> set (sy_running s) \<union> set (sy_zombies s)
     \<and> (\<forall>i < length (sy_tab s). pr_alive (sy_tab s' ! i) \<longrightarrow> pr_alive (sy_tab s ! i))"

lemma own_entry:
  assumes "family s" "p \<in> set (sy_running s) \<union> set (sy_zombies s)" "i < length (sy_tab s)" "pr_pid (sy_tab s ! i) = p"
  shows "pr_alive (sy_tab s ! i)"
proof -
  obtain q where q: "q \<in> set (sy_tab s)" "pr_pid q = p" "pr_alive q"
    using assms(1,2) unfolding family_def by blast
  then obtain j where "j < length (sy_tab s)" "sy_tab s ! j = q" by (metis in_set_conv_nth)
  moreover from this have "i = j"
    using assms(1,3,4) q(2) unfolding family_def by (metis distinct_conv_nth length_map nth_map)
  ultimately show ?thesis using q(3) by simp
qed

lemma later_refl [simp]: "later s s"
  by (simp add: later_def)

lemma later_length: "later s s' \<Longrightarrow> length (sy_tab s') = length (sy_tab s)"
  unfolding later_def by (metis length_map)

lemma later_pid: "later s s' \<Longrightarrow> i < length (sy_tab s) \<Longrightarrow> pr_pid (sy_tab s' ! i) = pr_pid (sy_tab s ! i)"
  using later_length [of s s'] unfolding later_def by (metis nth_map)

lemma later_trans [trans]: "later s s' \<Longrightarrow> later s' s'' \<Longrightarrow> later s s''"
  using later_length [of s s'] unfolding later_def by auto

lemma happens_ok:
  assumes "family s"
  shows "family (happens e s)" "later s (happens e s)"
    "p \<in> set (sy_running s) \<Longrightarrow> e \<noteq> Child_exits p \<Longrightarrow> p \<in> set (sy_running (happens e s))"
proof -
  note F = assms [unfolded family_def]
  have "family (happens e s) \<and> later s (happens e s)
      \<and> (p \<in> set (sy_running s) \<and> e \<noteq> Child_exits p \<longrightarrow> p \<in> set (sy_running (happens e s)))" for p
  proof (cases e)
    case (Child_exits q)
    then show ?thesis using F by (auto simp: family_def later_def)
  next
    case Handler
    let ?f = "\<lambda>q. if pr_pid q \<in> set (sy_zombies s) then q\<lparr>pr_alive := False\<rparr> else q"
    have tab: "sy_tab (happens e s) = map ?f (sy_tab s)"
      using F Handler by (simp add: reap_children_map)
    have pids: "map pr_pid (map ?f (sy_tab s)) = map pr_pid (sy_tab s)" by simp
    have own: "\<exists>q \<in> set (map ?f (sy_tab s)). pr_pid q = p \<and> pr_alive q" if "p \<in> set (sy_running s)" for p
    proof -
      from F that obtain q where "q \<in> set (sy_tab s)" "pr_pid q = p" "pr_alive q" "p \<notin> set (sy_zombies s)" by auto
      then show ?thesis by force
    qed
    have "sy_running (happens e s) = sy_running s" "sy_zombies (happens e s) = []" using Handler by simp_all
    then show ?thesis unfolding family_def later_def tab pids using F own by auto
  qed
  then show "family (happens e s)" "later s (happens e s)"
    "p \<in> set (sy_running s) \<Longrightarrow> e \<noteq> Child_exits p \<Longrightarrow> p \<in> set (sy_running (happens e s))" by blast+
qed

lemma meanwhile_ok:
  "family s \<Longrightarrow> family (meanwhile es s) \<and> later s (meanwhile es s)
    \<and> (p \<in> set (sy_running s) \<and> Child_exits p \<notin> set es \<longrightarrow> p \<in> set (sy_running (meanwhile es s)))"
  unfolding meanwhile_def
proof (induction es arbitrary: s)
  case (Cons e es)
  from Cons.IH [OF happens_ok(1) [OF Cons.prems, of e]] happens_ok(2) [OF Cons.prems, of e]
    happens_ok(3) [OF Cons.prems, of p e]
  show ?case by (auto intro: later_trans)
qed simp

lemma reap_any_ok:
  assumes "family s"
  shows "family (reap_any q s)" "later s (reap_any q s)" "sy_running (reap_any q s) = sy_running s"
  using assms set_remove1_subset
  by (auto simp: reap_any_def family_def later_def split: option.split dest: notin_set_remove1)

lemma later_signal:
  assumes "later s s1" "i < length (sy_tab s)" "pr_alive (sy_tab s1 ! i)"
  shows "pr_alive (sy_tab s ! i)" "Kill (pr_pid (sy_tab s1 ! i)) g = Kill (pr_pid (sy_tab s ! i)) g"
  using later_pid [OF assms(1,2)] assms by (simp_all add: later_def)

lemma term_loop_ok:
  "family s \<Longrightarrow> term_loop ev is s = (s', fx) \<Longrightarrow> set is \<subseteq> {..<length (sy_tab s)} \<Longrightarrow>
    family s' \<and> later s s'
    \<and> (p \<in> set (sy_running s) \<and> (\<forall>pt. Child_exits p \<notin> set (ev pt)) \<longrightarrow> p \<in> set (sy_running s'))
    \<and> (\<forall>x \<in> set fx. \<exists>i \<in> set is. pr_alive (sy_tab s ! i) \<and> x = Kill (pr_pid (sy_tab s ! i)) SIGTERM)
    \<and> ((\<exists>i \<in> set is. pr_pid (sy_tab s ! i) = p) \<and> p \<in> set (sy_running s)
        \<and> (\<forall>pt. Child_exits p \<notin> set (ev pt)) \<longrightarrow> Kill p SIGTERM \<in> set fx)"
proof (induction ev "is" s arbitrary: s' fx rule: term_loop.induct)
  case (2 ev i "is" s)
  define s1 where "s1 = meanwhile (ev (Before_term i)) s"
  obtain fx' where t: "term_loop ev is s1 = (s', fx')"
    and fx: "fx = (if pr_alive (sy_tab s1 ! i) then [Kill (pr_pid (sy_tab s1 ! i)) SIGTERM] else []) @ fx'"
    using 2(3) by (auto simp: s1_def Let_def split: prod.splits)
  have s1: "family s1" "later s s1"
    "p \<in> set (sy_running s) \<and> (\<forall>pt. Child_exits p \<notin> set (ev pt)) \<Longrightarrow> p \<in> set (sy_running s1)"
    using meanwhile_ok [OF 2(2), of "ev (Before_term i)" p] by (auto simp: s1_def)
  have len: "length (sy_tab s1) = length (sy_tab s)" using s1(2) by (rule later_length)
  have sub: "set is \<subseteq> {..<length (sy_tab s1)}" and i: "i < length (sy_tab s)" using 2(4) len by auto
  note IH = 2(1) [OF s1_def refl s1(1) t sub]
  have pid: "pr_pid (sy_tab s1 ! j) = pr_pid (sy_tab s ! j)" if "j \<in> set (i # is)" for j
    using later_pid [OF s1(2), of j] that 2(4) by auto
  have flag: "pr_alive (sy_tab s1 ! i)" if "p \<in> set (sy_running s1)" "pr_pid (sy_tab s1 ! i) = p"
    using own_entry [OF s1(1), of p i] that i len by simp
  have "later s s'" using s1(2) IH later_trans by blast
  moreover have "\<exists>j \<in> set (i # is). pr_alive (sy_tab s ! j) \<and> x = Kill (pr_pid (sy_tab s ! j)) SIGTERM"
    if x: "x \<in> set fx" for x
  proof -
    have "\<exists>j \<in> set (i # is). pr_alive (sy_tab s1 ! j) \<and> x = Kill (pr_pid (sy_tab s1 ! j)) SIGTERM"
      using x IH unfolding fx by (auto split: if_splits)
    then obtain j where j: "j \<in> set (i # is)" "pr_alive (sy_tab s1 ! j)" "x = Kill (pr_pid (sy_tab s1 ! j)) SIGTERM"
      by blast
    then have "j < length (sy_tab s)" using 2(4) by auto
    from later_signal [OF s1(2) this j(2)] j show ?thesis by auto
  qed
  moreover have "Kill p SIGTERM \<in> set fx"
    if q: "\<exists>j \<in> set (i # is). pr_pid (sy_tab s ! j) = p" "p \<in> set (sy_running s)" "\<forall>pt. Child_exits p \<notin> set (ev pt)"
  proof -
    have r: "p \<in> set (sy_running s1)" using s1(3) q(2,3) by blast
    from q(1) consider "pr_pid (sy_tab s1 ! i) = p" | "\<exists>j \<in> set is. pr_pid (sy_tab s1 ! j) = p"
      using pid by auto
    then show ?thesis
    proof cases
      case 1
      then show ?thesis using flag [OF r] by (simp add: fx)
    next
      case 2
      then show ?thesis using IH r q(3) by (simp add: fx)
    qed
  qed
  ultimately show ?case using IH s1(3) by blast
qed simp

lemma wait_dead_ok:
  "family s \<Longrightarrow> wait_dead ev steal left waited s = (w, s') \<Longrightarrow>
    family s' \<and> later s s' \<and> w \<le> waited + left
    \<and> (w < waited + left \<longrightarrow> list_all (\<lambda>p. \<not> pr_alive p) (sy_tab s'))
    \<and> (p \<in> set (sy_running s) \<and> (\<forall>pt. Child_exits p \<notin> set (ev pt)) \<longrightarrow> p \<in> set (sy_running s'))"
proof (induction ev steal left waited s rule: wait_dead.induct)
  case (2 ev steal left waited s)
  define s1 where "s1 = meanwhile (ev (Before_look waited)) s"
  have s1: "family s1" "later s s1"
    "p \<in> set (sy_running s) \<and> (\<forall>pt. Child_exits p \<notin> set (ev pt)) \<Longrightarrow> p \<in> set (sy_running s1)"
    using meanwhile_ok [OF 2(2), of "ev (Before_look waited)" p] by (auto simp: s1_def)
  show ?case
  proof (cases "list_all (\<lambda>p. \<not> pr_alive p) (sy_tab s1)")
    case True
    then have "w = waited" "s' = s1" using 2(3) by (simp_all add: s1_def [symmetric])
    with True s1 show ?thesis by auto
  next
    case False
    let ?s2 = "reap_any (steal waited) s1"
    have s2: "family ?s2" "later s ?s2" "sy_running ?s2 = sy_running s1"
      using reap_any_ok [OF s1(1), of "steal waited"] s1(2) later_trans by blast+
    have w: "wait_dead ev steal left (waited + 1) ?s2 = (w, s')"
      using 2(3) False by (simp add: s1_def [symmetric])
    note IH = 2(1) [OF s1_def False s2(1) w]
    then show ?thesis using s1(3) s2(2,3) later_trans [OF s2(2)] by auto
  qed
qed simp

text \<open>One round of the last loop: it does not block, because it waits for what it has just killed.\<close>

lemma kill_one:
  assumes F: "family s" and i: "i < length (sy_tab s)" and a: "pr_alive (sy_tab s ! i)"
    and pid: "pid = pr_pid (sy_tab s ! i)"
  shows "\<exists>s3. waitpid pid (meanwhile es (happens (Child_exits pid) s)) = Some s3
    \<and> (let s4 = s3\<lparr>sy_tab := (sy_tab s3)[i := (sy_tab s3 ! i)\<lparr>pr_alive := False\<rparr>]\<rparr>
       in family s4 \<and> later s s4 \<and> pid \<notin> set (sy_running s4) \<union> set (sy_zombies s4)
        \<and> \<not> pr_alive (sy_tab s4 ! i)
        \<and> (\<forall>q. q \<in> set (sy_running s) \<and> q \<noteq> pid \<and> Child_exits q \<notin> set es \<longrightarrow> q \<in> set (sy_running s4)))"
proof -
  define s1 where "s1 = happens (Child_exits pid) s"
  define s2 where "s2 = meanwhile es s1"
  have s1: "family s1" "later s s1" using happens_ok(1,2) [OF F] by (simp_all add: s1_def del: happens.simps)
  have "pid \<notin> set (sy_running s1)" using F by (auto simp: s1_def family_def)
  moreover have s2: "family s2" "later s1 s2" using meanwhile_ok [OF s1(1)] by (simp_all add: s2_def)
  ultimately have gone: "pid \<notin> set (sy_running s2)" by (auto simp: later_def)
  define s3 where "s3 = s2\<lparr>sy_zombies := remove1 pid (sy_zombies s2)\<rparr>"
  have w: "waitpid pid s2 = Some s3" using gone by (auto simp: waitpid_def s3_def remove1_idem)
  define s4 where "s4 = s3\<lparr>sy_tab := (sy_tab s3)[i := (sy_tab s3 ! i)\<lparr>pr_alive := False\<rparr>]\<rparr>"
  have l2: "later s s2" using s1(2) s2(2) by (rule later_trans)
  have len: "length (sy_tab s2) = length (sy_tab s)" and pid2: "pr_pid (sy_tab s2 ! i) = pid"
    using later_length [OF l2] later_pid [OF l2 i] pid by simp_all
  have sel: "sy_running s4 = sy_running s2" "sy_zombies s4 = remove1 pid (sy_zombies s2)"
    "sy_tab s4 = (sy_tab s2)[i := (sy_tab s2 ! i)\<lparr>pr_alive := False\<rparr>]"
    by (simp_all add: s4_def s3_def)
  have zs: "set (remove1 pid (sy_zombies s2)) = set (sy_zombies s2) - {pid}"
    using s2(1) by (simp add: family_def)
  have pids: "map pr_pid (sy_tab s4) = map pr_pid (sy_tab s2)"
    using i len by (simp add: sel map_update list_update_same_conv)
  have "\<exists>q \<in> set (sy_tab s4). pr_pid q = p \<and> pr_alive q"
    if p: "p \<in> set (sy_running s2) \<union> (set (sy_zombies s2) - {pid})" for p
  proof -
    obtain q where q: "q \<in> set (sy_tab s2)" "pr_pid q = p" "pr_alive q"
      using s2(1) p unfolding family_def by blast
    then obtain j where j: "j < length (sy_tab s2)" "sy_tab s2 ! j = q" by (metis in_set_conv_nth)
    have "p \<noteq> pid" using p gone by auto
    then have "j \<noteq> i" using j(2) q(2) pid2 by auto
    then have "sy_tab s4 ! j = q" "j < length (sy_tab s4)" using j by (simp_all add: sel)
    then show ?thesis using q(2,3) nth_mem by blast
  qed
  then have "family s4"
    using s2(1) unfolding family_def pids sel(1,2) zs by (simp add: zs) (auto simp: zs)
  moreover have "later s s4"
    using l2 len i unfolding later_def pids unfolding sel zs by (auto simp: nth_list_update)
  moreover have "pid \<notin> set (sy_running s4) \<union> set (sy_zombies s4)" unfolding sel zs using gone by simp
  moreover have "\<not> pr_alive (sy_tab s4 ! i)" using i len by (simp add: sel)
  moreover have "q \<in> set (sy_running s4)" if "q \<in> set (sy_running s)" "q \<noteq> pid" "Child_exits q \<notin> set es" for q
  proof -
    have "q \<in> set (sy_running s1)" using that(1,2) by (simp add: s1_def)
    then show ?thesis using meanwhile_ok [OF s1(1), of es q] that(3) by (simp add: sel s2_def)
  qed
  ultimately show ?thesis
    using w unfolding s1_def [symmetric] s2_def [symmetric]
    by (intro exI [of _ s3]) (simp add: Let_def s4_def [symmetric])
qed

text \<open>The last loop never blocks, and no child is left after it.\<close>

lemma kill_loop_ok:
  "family s \<Longrightarrow> set is \<subseteq> {..<length (sy_tab s)} \<Longrightarrow>
    \<forall>p \<in> set (sy_running s) \<union> set (sy_zombies s). \<exists>i \<in> set is. pr_pid (sy_tab s ! i) = p \<Longrightarrow>
    \<exists>s' fx. kill_loop ev is s = Some (s', fx) \<and> sy_running s' = [] \<and> sy_zombies s' = []
      \<and> later s s' \<and> (\<forall>i \<in> set is. \<not> pr_alive (sy_tab s' ! i))
      \<and> (\<forall>x \<in> set fx. \<exists>i \<in> set is. pr_alive (sy_tab s ! i) \<and> x = Kill (pr_pid (sy_tab s ! i)) SIGKILL)
      \<and> (p \<in> set (sy_running s) \<and> (\<forall>pt. Child_exits p \<notin> set (ev pt)) \<longrightarrow> Kill p SIGKILL \<in> set fx)"
proof (induction "is" arbitrary: s)
  case Nil
  then have "sy_running s = []" "sy_zombies s = []"
    by (cases "sy_running s"; cases "sy_zombies s"; simp)+
  then show ?case by simp
next
  case (Cons i "is")
  define s1 where "s1 = meanwhile (ev (Before_kill i)) s"
  define pid where "pid = pr_pid (sy_tab s1 ! i)"
  have s1: "family s1" "later s s1"
    "p \<in> set (sy_running s) \<and> (\<forall>pt. Child_exits p \<notin> set (ev pt)) \<Longrightarrow> p \<in> set (sy_running s1)"
    using meanwhile_ok [OF Cons.prems(1), of "ev (Before_kill i)" p] by (auto simp: s1_def)
  have len: "length (sy_tab s1) = length (sy_tab s)" using s1(2) by (rule later_length)
  have i: "i < length (sy_tab s1)" and sub: "set is \<subseteq> {..<length (sy_tab s1)}" using Cons.prems(2) len by auto
  have mine: "\<exists>j \<in> set (i # is). pr_pid (sy_tab s1 ! j) = q" if q: "q \<in> set (sy_running s1) \<union> set (sy_zombies s1)" for q
  proof -
    have "q \<in> set (sy_running s) \<union> set (sy_zombies s)" using s1(2) q unfolding later_def by blast
    then obtain j where "j \<in> set (i # is)" "pr_pid (sy_tab s ! j) = q" using Cons.prems(3) by blast
    then show ?thesis using later_pid [OF s1(2), of j] Cons.prems(2) by auto
  qed
  have signal: "\<exists>j \<in> set (i # is). pr_alive (sy_tab s ! j) \<and> x = Kill (pr_pid (sy_tab s ! j)) SIGKILL"
    if "j \<in> set (i # is)" "pr_alive (sy_tab s1 ! j)" "x = Kill (pr_pid (sy_tab s1 ! j)) SIGKILL" for x j
    using later_signal [OF s1(2) _ that(2)] that(1,3) Cons.prems(2) by auto
  show ?case
  proof (cases "pr_alive (sy_tab s1 ! i)")
    case False
    have "\<exists>j \<in> set is. pr_pid (sy_tab s1 ! j) = q" if "q \<in> set (sy_running s1) \<union> set (sy_zombies s1)" for q
      using mine [OF that] own_entry [OF s1(1) that i] False by auto
    then obtain s' fx where r: "kill_loop ev is s1 = Some (s', fx)" "sy_running s' = []" "sy_zombies s' = []"
        "later s1 s'" "\<forall>i \<in> set is. \<not> pr_alive (sy_tab s' ! i)"
        "\<forall>x \<in> set fx. \<exists>i \<in> set is. pr_alive (sy_tab s1 ! i) \<and> x = Kill (pr_pid (sy_tab s1 ! i)) SIGKILL"
        "p \<in> set (sy_running s1) \<and> (\<forall>pt. Child_exits p \<notin> set (ev pt)) \<longrightarrow> Kill p SIGKILL \<in> set fx"
      using Cons.IH [OF s1(1) sub] by blast
    have "kill_loop ev (i # is) s = Some (s', fx)" using r(1) False by (simp add: s1_def [symmetric])
    moreover have "\<not> pr_alive (sy_tab s' ! i)" using r(4) False i by (auto simp: later_def)
    moreover have "later s s'" using s1(2) r(4) by (rule later_trans)
    moreover have "\<exists>j \<in> set (i # is). pr_alive (sy_tab s ! j) \<and> x = Kill (pr_pid (sy_tab s ! j)) SIGKILL"
      if "x \<in> set fx" for x using r(6) that signal by (metis list.set_intros(2))
    ultimately show ?thesis using r(2,3,5,7) s1(3) by (intro exI [of _ s'] exI [of _ fx]) auto
  next
    case True
    from kill_one [OF s1(1) i True pid_def, of "ev (Before_wait i)"]
    obtain s3 where s3: "waitpid pid (meanwhile (ev (Before_wait i)) (happens (Child_exits pid) s1)) = Some s3"
      and k: "let s4 = s3\<lparr>sy_tab := (sy_tab s3)[i := (sy_tab s3 ! i)\<lparr>pr_alive := False\<rparr>]\<rparr>
       in family s4 \<and> later s1 s4 \<and> pid \<notin> set (sy_running s4) \<union> set (sy_zombies s4)
        \<and> \<not> pr_alive (sy_tab s4 ! i)
        \<and> (\<forall>q. q \<in> set (sy_running s1) \<and> q \<noteq> pid \<and> Child_exits q \<notin> set (ev (Before_wait i)) \<longrightarrow>
             q \<in> set (sy_running s4))" by blast
    define s4 where "s4 = s3\<lparr>sy_tab := (sy_tab s3)[i := (sy_tab s3 ! i)\<lparr>pr_alive := False\<rparr>]\<rparr>"
    have s4: "family s4" "later s1 s4" "pid \<notin> set (sy_running s4) \<union> set (sy_zombies s4)"
        "\<not> pr_alive (sy_tab s4 ! i)"
        "\<forall>q. q \<in> set (sy_running s1) \<and> q \<noteq> pid \<and> Child_exits q \<notin> set (ev (Before_wait i)) \<longrightarrow> q \<in> set (sy_running s4)"
      using k unfolding Let_def s4_def [symmetric] by blast+
    have len4: "length (sy_tab s4) = length (sy_tab s1)" using s4(2) by (rule later_length)
    have "\<exists>j \<in> set is. pr_pid (sy_tab s4 ! j) = q" if q: "q \<in> set (sy_running s4) \<union> set (sy_zombies s4)" for q
    proof -
      have "q \<in> set (sy_running s1) \<union> set (sy_zombies s1)" "q \<noteq> pid" using s4(2,3) q unfolding later_def by auto
      then obtain j where "j \<in> set is" "pr_pid (sy_tab s1 ! j) = q" using mine pid_def by auto
      then show ?thesis using later_pid [OF s4(2), of j] sub by auto
    qed
    then obtain s' fx where r: "kill_loop ev is s4 = Some (s', fx)" "sy_running s' = []" "sy_zombies s' = []"
        "later s4 s'" "\<forall>i \<in> set is. \<not> pr_alive (sy_tab s' ! i)"
        "\<forall>x \<in> set fx. \<exists>i \<in> set is. pr_alive (sy_tab s4 ! i) \<and> x = Kill (pr_pid (sy_tab s4 ! i)) SIGKILL"
        "p \<in> set (sy_running s4) \<and> (\<forall>pt. Child_exits p \<notin> set (ev pt)) \<longrightarrow> Kill p SIGKILL \<in> set fx"
      using Cons.IH [OF s4(1)] sub len4 by (metis (no_types, lifting))
    have "kill_loop ev (i # is) s = Some (s', Kill pid SIGKILL # fx)"
      using r(1) True s3 by (simp add: s1_def [symmetric] pid_def [symmetric] s4_def [symmetric] Let_def del: happens.simps)
    moreover have "\<not> pr_alive (sy_tab s' ! i)" using r(4) s4(4) i len4 by (auto simp: later_def)
    moreover have "later s s'" using s1(2) s4(2) r(4) later_trans by blast
    moreover have "\<exists>j \<in> set (i # is). pr_alive (sy_tab s ! j) \<and> x = Kill (pr_pid (sy_tab s ! j)) SIGKILL"
      if x: "x \<in> set (Kill pid SIGKILL # fx)" for x
    proof (cases "x = Kill pid SIGKILL")
      case True
      then show ?thesis using signal [of i] \<open>pr_alive (sy_tab s1 ! i)\<close> pid_def by simp
    next
      case False
      then obtain j where j: "j \<in> set is" "pr_alive (sy_tab s4 ! j)" "x = Kill (pr_pid (sy_tab s4 ! j)) SIGKILL"
        using x r(6) by auto
      then have "j < length (sy_tab s1)" using sub by auto
      from later_signal [OF s4(2) this j(2)] j(1,3) show ?thesis using signal [of j] by simp
    qed
    moreover have "Kill p SIGKILL \<in> set (Kill pid SIGKILL # fx)"
      if "p \<in> set (sy_running s) \<and> (\<forall>pt. Child_exits p \<notin> set (ev pt))"
      using s1(3) [OF that] s4(5) r(7) that by auto
    ultimately show ?thesis using r(2,3,5) by (intro exI [of _ s'] exI [of _ "Kill pid SIGKILL # fx"]) auto
  qed
qed

subsection \<open>Samples for the witnesses\<close>

definition main_argv0 :: "string list" where
  "main_argv0 = [''blockchain'', dec 3, dec 2, dec 1, dec 4]"

definition params1 :: params_t where
  "params1 = \<lparr>num_nodes = 3, num_miners = 2, num_clients = 1, transaction_frequency = 4, difficulty = 12\<rparr>"

lemma main_argv0_parsed: "parse_args main_argv0 = Inr params1"
  by (simp add: parse_args_def main_argv0_def params1_def atoi_dec Let_def)

subsection \<open>Properties\<close>

text \<open>C21: the processes understand each other's command lines. With arguments the parent accepts and
  every miner forked, each child parses its \<open>argv\<close> back to exactly the parameters and process
  numbers the parent meant, and the pause of the clients is a valid one.\<close>

theorem children_accept_their_arguments:
  assumes "parse_args argv = Inr P"
    "\<forall>i < nat (num_miners P). 0 < fork ROLE_MINER i \<and> fork ROLE_MINER i < 2 ^ 31"
  shows "(\<forall>i < nat (num_miners P). miner_parse_args (miner_argv P i)
      = Inr \<lparr>mc_idx = int i, mc_num_nodes = num_nodes P, mc_difficulty = difficulty P,
             mc_bootstrap_csv = BOOTSTRAP_CSV\<rparr>)
    \<and> (\<forall>i < nat (num_nodes P). node_parse_args (node_argv P (node_table fork P i) i)
      = Inr \<lparr>g_idx = int i, g_num_nodes = num_nodes P, g_num_miners = num_miners P,
             g_miner_pids = map (fork ROLE_MINER) [0..<nat (num_miners P)], g_bootstrap_csv = BOOTSTRAP_CSV\<rparr>)
    \<and> (\<forall>i < nat (num_clients P). client_parse_args (client_argv P (client_table fork P i) i)
      = Inr \<lparr>cc_idx = int i, cc_num_miner = num_miners P, cc_freq = transaction_frequency P,
             cc_miner_pids = map (fork ROLE_MINER) [0..<nat (num_miners P)]\<rparr>)
    \<and> (\<exists>sec nsec. period (transaction_frequency P) = Some (sec, nsec) \<and> 0 \<le> nsec \<and> nsec < 10 ^ 9 \<and> 0 < sec + nsec)"
proof -
  note B = parse_args_bounds [OF assms(1)]
  have p: "pids_of fork P = map (fork ROLE_MINER) [0..<nat (num_miners P)]"
    using assms(2) by (auto simp: pids_of_def filter_id_conv)
  then have small: "\<forall>p \<in> set (pids_of fork P). p < 2 ^ 31" and len: "length (pids_of fork P) = nat (num_miners P)"
    using assms(2) by auto
  have "miner_parse_args (miner_argv P i) = Inr \<lparr>mc_idx = int i, mc_num_nodes = num_nodes P,
      mc_difficulty = difficulty P, mc_bootstrap_csv = BOOTSTRAP_CSV\<rparr>" if "i < nat (num_miners P)" for i
    using B that by (simp add: miner_parse_args_def miner_argv_def Let_def)
  moreover have "\<exists>sec nsec. period (transaction_frequency P) = Some (sec, nsec) \<and> 0 \<le> nsec \<and> nsec < 10 ^ 9 \<and> 0 < sec + nsec"
  proof (cases "transaction_frequency P = 1")
    case False
    let ?f = "transaction_frequency P"
    have f: "2 \<le> ?f" "?f \<le> 1000" using False B by auto
    have "1000000000 div ?f \<le> 1000000000 div 2" using f by (intro zdiv_mono2) simp_all
    moreover have "1000000000 div 1000 \<le> 1000000000 div ?f" using f by (intro zdiv_mono2) simp_all
    ultimately show ?thesis using f by (simp add: period_def)
  qed (simp add: period_def)
  ultimately show ?thesis
    using node_parse_argv [OF assms(1) _ small] client_parse_argv [OF assms(1) _ small] len p by simp
qed

theorem children_accept_their_arguments_witness:
  "node_parse_args (node_argv params1 (node_table (\<lambda>r i. 100 + int i) params1 2) 2)
    = Inr \<lparr>g_idx = 2, g_num_nodes = 3, g_num_miners = 2, g_miner_pids = [100, 101], g_bootstrap_csv = BOOTSTRAP_CSV\<rparr>"
proof -
  have n: "num_miners params1 = 2" "num_nodes params1 = 3" by (simp_all add: params1_def)
  then have "\<forall>i < nat (num_miners params1). (0 :: int) < 100 + int i \<and> 100 + int i < 2 ^ 31" by auto
  from children_accept_their_arguments [OF main_argv0_parsed, of "\<lambda>r i. 100 + int i"] this n
  show ?thesis by (simp add: upt_rec)
qed

text \<open>C33: one failed \<open>fork\<close> of a miner stops the whole network: the parent goes on and passes the
  process numbers it has with the number of miners it was asked for, and every node and every client
  refuses such a command line and exits.\<close>

theorem failed_fork_stops_every_node:
  assumes "parse_args argv = Inr P" "j < nat (num_miners P)" "fork ROLE_MINER j \<le> 0"
    "\<forall>i < nat (num_miners P). fork ROLE_MINER i < 2 ^ 31"
  shows "(\<forall>i < nat (num_nodes P). node_parse_args (node_argv P (node_table fork P i) i) = Inl ARGS_ERROR)
    \<and> (\<forall>i < nat (num_clients P). client_parse_args (client_argv P (client_table fork P i) i) = Inl ARGS_ERROR)"
proof -
  have small: "\<forall>p \<in> set (pids_of fork P). p < 2 ^ 31" using assms(4) by (auto simp: pids_of_def)
  have "fork ROLE_MINER j \<in> set (map (fork ROLE_MINER) [0..<nat (num_miners P)])" using assms(2) by simp
  then have "length (pids_of fork P) < length (map (fork ROLE_MINER) [0..<nat (num_miners P)])"
    unfolding pids_of_def using assms(3) by (intro length_filter_less) auto
  then have "length (pids_of fork P) \<noteq> nat (num_miners P)" by simp
  then show ?thesis
    using node_parse_argv [OF assms(1) _ small] client_parse_argv [OF assms(1) _ small] by simp
qed

theorem failed_fork_stops_every_node_witness:
  "node_parse_args (node_argv params1 (node_table (\<lambda>r i. if i = 1 then - 1 else 100) params1 0) 0) = Inl ARGS_ERROR"
  using failed_fork_stops_every_node [OF main_argv0_parsed, of 1 "\<lambda>r i. if i = 1 then - 1 else 100"]
  by (simp add: params1_def)

text \<open>C12: all processes start from the same chain. Without an initial file the parent makes a valid
  genesis block and saves it; every node and every miner that starts on the saved file, with memory
  and a compiled pattern, holds exactly this block.\<close>

theorem network_starts_from_one_block:
  assumes "initial_chain E d fs now csv = Inr c" "csv = None \<or> fs (the csv) = None"
    "csv_save d fs BOOTSTRAP_CSV c = (OK, fs')"
    and "b_files B = fs'" "boot_env B = env0"
  shows "\<exists>b. valid_block b \<and> b_index b = 0 \<and> b_timestamp b = now \<and> c_v c = [b]
    \<and> (\<forall>argv' C s. node_start B argv' = Inr (C, s) \<and> g_bootstrap_csv C = BOOTSTRAP_CSV \<longrightarrow> c_v (g_chain s) = [b])
    \<and> (\<forall>argv' C s. miner_start B argv' = Inr (C, s) \<and> mc_bootstrap_csv C = BOOTSTRAP_CSV \<longrightarrow> c_v (mchain s) = [b])"
proof -
  let ?b = "block_with 0 now 0 zeros64 [''Genesis block'']"
  have cv: "c_v c = [?b]" by (rule initial_chain_fresh [OF assms(1,2)])
  have inv: "chain_inv c" by (rule initial_chain_inv [OF assms(1)])
  have "merkle_root plenty [''Genesis block''] = Inr (merkle_of sha256 (map sha256 [''Genesis block'']))"
    by (rule merkle_root_plenty) simp_all
  then have g: "genesis_block plenty now = Inr ?b"
    by (simp add: genesis_block_def Let_def snprintf_out_def block_with_def zeros64_def)
  note G = genesis_block_Inr(2-4) [OF g]
  have saved: "fs' BOOTSTRAP_CSV = Some (file_text [?b])"
    using csv_save_cases [OF inv, of d fs BOOTSTRAP_CSV] assms(3) cv by (auto simp: Let_def split: if_splits)
  have load: "c_v (snd (csv_load env0 io fs' BOOTSTRAP_CSV chain_init)) = [?b]" if "open_ok io" for io
  proof -
    have "linked ([] @ [?b])" using chain_invD(2) [OF inv] cv by simp
    then have "c_v (snd (load_rows env0 (rows_text [?b]) chain_init)) = [?b]"
      using load_rows_text [of chain_init "[]" "[?b]"] G by (simp del: rows_text_simps)
    then show ?thesis using csv_load_file_text [where bs = "[?b]" and path = BOOTSTRAP_CSV and fs = fs', OF that saved] by simp
  qed
  have fail: "fst (csv_load env0 io fs' BOOTSTRAP_CSV chain_init) \<noteq> OK" if "\<not> open_ok io" for io
    using that by (simp add: csv_load_def)
  have started: "c_v c' = [?b]" if "csv_load env0 io fs' BOOTSTRAP_CSV chain_init = (OK, c')" for io c'
    using that load [of io] fail [of io] by (cases "open_ok io") auto
  have n: "c_v (g_chain s) = [?b]" if "node_start B argv' = Inr (C, s)" "g_bootstrap_csv C = BOOTSTRAP_CSV" for argv' C s
    using that assms(4,5) started
    by (auto simp: node_start_def Let_def split: sum.splits if_splits prod.splits)
  have m: "c_v (mchain s) = [?b]" if "miner_start B argv' = Inr (C, s)" "mc_bootstrap_csv C = BOOTSTRAP_CSV" for argv' C s
    using that assms(4,5) started
    by (auto simp: miner_start_def Let_def split: sum.splits if_splits prod.splits)
  show ?thesis by (intro exI [of _ ?b] conjI) (use G(1) cv n m in auto)
qed

theorem network_starts_from_one_block_witness:
  "\<exists>c b fs'. initial_chain env0 disk0 (\<lambda>q. None) 7 None = Inr c \<and> csv_save disk0 (\<lambda>q. None) BOOTSTRAP_CSV c = (OK, fs')
    \<and> valid_block b \<and> c_v c = [b]
    \<and> (\<forall>argv C s. node_start (boot0\<lparr>b_files := fs'\<rparr>) argv = Inr (C, s) \<and> g_bootstrap_csv C = BOOTSTRAP_CSV
         \<longrightarrow> c_v (g_chain s) = [b])"
proof -
  let ?b = "block_with 0 7 0 zeros64 [''Genesis block'']"
  have "merkle_root plenty [''Genesis block''] = Inr (merkle_of sha256 (map sha256 [''Genesis block'']))"
    by (rule merkle_root_plenty) simp_all
  then have g: "genesis_block plenty 7 = Inr ?b"
    by (simp add: genesis_block_def Let_def snprintf_out_def block_with_def zeros64_def)
  note v = genesis_block_Inr(2) [OF g]
  then have "map_prod id c_v (chain_append env0 chain_init ?b) = (APPEND_OK, [?b])"
    using led0.refines [of chain_init ?b] by (simp add: append_spec_def valid_block_def)
  then obtain c where c: "chain_append env0 chain_init ?b = (APPEND_OK, c)" by (cases "chain_append env0 chain_init ?b") auto
  then have i: "initial_chain env0 disk0 (\<lambda>q. None) 7 None = Inr c" by (simp add: initial_chain_def g)
  obtain fs' where s: "csv_save disk0 (\<lambda>q. None) BOOTSTRAP_CSV c = (OK, fs')"
    using csv_save_cases [OF initial_chain_inv(1) [OF i], of disk0 "\<lambda>q. None" BOOTSTRAP_CSV]
    by (simp add: BOOTSTRAP_CSV_def)
  have "boot_env (boot0\<lparr>b_files := fs'\<rparr>) = env0" by (simp add: boot_env_def boot0_def transaction_init_def)
  from network_starts_from_one_block [OF i _ s, of "boot0\<lparr>b_files := fs'\<rparr>"] this
  obtain b where b: "valid_block b" "c_v c = [b]"
    "\<forall>argv C s. node_start (boot0\<lparr>b_files := fs'\<rparr>) argv = Inr (C, s) \<and> g_bootstrap_csv C = BOOTSTRAP_CSV
         \<longrightarrow> c_v (g_chain s) = [b]" by auto
  show ?thesis using i s b by blast
qed


text \<open>C31: the shutdown returns and leaves nobody behind, whatever the children do, whenever the handler
  of \<open>SIGCHLD\<close> runs, and whatever \<open>waitpid(-1)\<close> reaps. It never blocks in the last loop; after at
  most 30 pauses no child runs, none is left as a zombie, and every entry of the table is marked
  dead. A child that does not end by itself gets \<open>SIGTERM\<close> and then \<open>SIGKILL\<close>; signals go only to
  numbers that were marked alive at first, and \<open>SIGKILL\<close> only after the full 30 pauses.\<close>

theorem shutdown_is_complete:
  assumes "distinct (map pr_pid tab)"
  shows "\<exists>waited s fx. shutdown_all ev steal (children tab) = Some (waited, s, fx) \<and> waited \<le> 30
    \<and> sy_running s = [] \<and> sy_zombies s = [] \<and> list_all (\<lambda>q. \<not> pr_alive q) (sy_tab s)
    \<and> (\<forall>q \<in> set tab. pr_alive q \<and> (\<forall>pt. Child_exits (pr_pid q) \<notin> set (ev pt)) \<longrightarrow>
         Kill (pr_pid q) SIGTERM \<in> set fx \<and> Kill (pr_pid q) SIGKILL \<in> set fx)
    \<and> (\<forall>x \<in> set fx. \<exists>q \<in> set tab. pr_alive q
         \<and> (x = Kill (pr_pid q) SIGTERM \<or> x = Kill (pr_pid q) SIGKILL \<and> waited = 30))"
proof -
  have F: "family (children tab)" using assms by (auto simp: family_def children_def distinct_map_filter)
  have tab: "sy_tab (children tab) = tab" by (simp add: children_def)
  let ?is = "[0..<length tab]"
  obtain s1 terms where t: "term_loop ev ?is (children tab) = (s1, terms)" by fastforce
  have all: "set ?is \<subseteq> {..<length (sy_tab (children tab))}" by (auto simp: tab)
  note T = term_loop_ok [OF F t all, unfolded tab]
  have s1: "family s1" "later (children tab) s1" using T by blast+
  have terms: "\<forall>x \<in> set terms. \<exists>i \<in> set ?is. pr_alive (tab ! i) \<and> x = Kill (pr_pid (tab ! i)) SIGTERM"
    using T by blast
  obtain waited s2 where w: "wait_dead ev steal 30 0 s1 = (waited, s2)" by fastforce
  note W = wait_dead_ok [OF s1(1) w]
  have s2: "family s2" "later s1 s2" "waited \<le> 30"
    "waited < 30 \<Longrightarrow> list_all (\<lambda>p. \<not> pr_alive p) (sy_tab s2)" using W by auto
  have l2: "later (children tab) s2" using s1(2) s2(2) by (rule later_trans)
  have len: "length (sy_tab s2) = length tab" using later_length [OF l2] tab by simp
  have all2: "set ?is \<subseteq> {..<length (sy_tab s2)}" by (auto simp: len)
  have own: "\<forall>p \<in> set (sy_running s2) \<union> set (sy_zombies s2). \<exists>i \<in> set ?is. pr_pid (sy_tab s2 ! i) = p"
    using s2(1) len unfolding family_def by (metis atLeastLessThan_iff in_set_conv_nth le0 set_upt)
  note K = kill_loop_ok [OF s2(1) all2 own, of ev]
  from K obtain s3 kills where k: "kill_loop ev ?is s2 = Some (s3, kills)" by blast
  have K: "sy_running s3 = []" "sy_zombies s3 = []" "later s2 s3" "\<forall>i \<in> set ?is. \<not> pr_alive (sy_tab s3 ! i)"
      "\<forall>x \<in> set kills. \<exists>i \<in> set ?is. pr_alive (sy_tab s2 ! i) \<and> x = Kill (pr_pid (sy_tab s2 ! i)) SIGKILL"
      "p \<in> set (sy_running s2) \<Longrightarrow> \<forall>pt. Child_exits p \<notin> set (ev pt) \<Longrightarrow> Kill p SIGKILL \<in> set kills" for p
    using K [of p] k by auto
  have r: "shutdown_all ev steal (children tab) = Some (waited, s3, terms @ kills)"
    by (simp add: shutdown_all_def tab t w k)
  have len3: "length (sy_tab s3) = length tab" using later_length [OF K(3)] len by simp
  have dead: "list_all (\<lambda>q. \<not> pr_alive q) (sy_tab s3)"
    using K(4) len3 by (auto simp: list_all_length)
  have both: "Kill (pr_pid q) SIGTERM \<in> set (terms @ kills) \<and> Kill (pr_pid q) SIGKILL \<in> set (terms @ kills)"
    if q: "q \<in> set tab" "pr_alive q" "\<forall>pt. Child_exits (pr_pid q) \<notin> set (ev pt)" for q
  proof -
    have run: "pr_pid q \<in> set (sy_running (children tab))" using q(1,2) by (auto simp: children_def)
    obtain i where i: "i \<in> set ?is" "tab ! i = q" using q(1) by (auto simp: in_set_conv_nth)
    have "Kill (pr_pid q) SIGTERM \<in> set terms" "pr_pid q \<in> set (sy_running s1)"
      using term_loop_ok [OF F t all, unfolded tab, of "pr_pid q"] run q(3) i by blast+
    moreover from this(2) have "pr_pid q \<in> set (sy_running s2)"
      using wait_dead_ok [OF s1(1) w, of "pr_pid q"] q(3) by blast
    ultimately show ?thesis using K(6) q(3) by simp
  qed
  have only: "\<exists>q \<in> set tab. pr_alive q
      \<and> (x = Kill (pr_pid q) SIGTERM \<or> x = Kill (pr_pid q) SIGKILL \<and> waited = 30)" if x: "x \<in> set (terms @ kills)" for x
  proof -
    consider i where "i < length tab" "pr_alive (tab ! i)" "x = Kill (pr_pid (tab ! i)) SIGTERM"
      | i where "i < length tab" "pr_alive (sy_tab s2 ! i)" "x = Kill (pr_pid (sy_tab s2 ! i)) SIGKILL"
      using x terms K(5) by auto
    then show ?thesis
    proof cases
      case (1 i)
      then show ?thesis using nth_mem by blast
    next
      case (2 i)
      have "i < length (sy_tab (children tab))" using 2(1) tab by simp
      note L = later_signal [OF l2 this 2(2), unfolded tab]
      have "\<not> list_all (\<lambda>p. \<not> pr_alive p) (sy_tab s2)" using 2(1,2) len by (auto simp: list_all_length)
      then have "waited = 30" using s2(3,4) by linarith
      then show ?thesis using L(1) L(2) [of SIGKILL] 2(1,3) nth_mem [OF 2(1)] by auto
    qed
  qed
  show ?thesis
    by (intro exI [of _ waited] exI [of _ s3] exI [of _ "terms @ kills"])
      (use r s2(3) K(1,2) dead both only in blast)
qed

theorem shutdown_is_complete_witness:
  "\<exists>waited s fx. shutdown_all (\<lambda>pt. if pt = Before_look 3 then [Child_exits 42, Handler] else []) (\<lambda>k. None)
      (children (ci_tab cli0)) = Some (waited, s, fx)
    \<and> sy_running s = [] \<and> Kill 51 SIGTERM \<in> set fx \<and> Kill 51 SIGKILL \<in> set fx"
proof -
  have "distinct (map pr_pid (ci_tab cli0))" by (simp add: cli0_def)
  from shutdown_is_complete [OF this, of "\<lambda>pt. if pt = Before_look 3 then [Child_exits 42, Handler] else []" "\<lambda>k. None"]
  show ?thesis by (auto simp: cli0_def)
qed

end
