(* ===== verification/Network.thy ===== *)
theory Network
  imports Bootstrap "HOL-Library.Sublist"
begin

section \<open>The network of processes\<close>

text \<open>
  All processes together: the nodes, the miners, the clients and the parent, with the FIFOs between
  them. A step is one handler of one process, as modelled in the theory of that process; what it
  sends arrives in order, and a full FIFO drops messages. Any process may die at any time. Nothing
  is assumed about the order in which processes run, or about what their systems answer.

  The invariant says where everything comes from: each block a process holds is an initial block
  or was mined by a miner, and each transaction was submitted.
\<close>

subsection \<open>The lines of a text\<close>

fun lines :: "string \<Rightarrow> string list" where
  "lines [] = [[]]"
| "lines (c # cs) = (if c = LF then [] # lines cs
     else (case lines cs of [] \<Rightarrow> [[c]] | l # ls \<Rightarrow> (c # l) # ls))"

lemma lines_single [simp]: "LF \<notin> set l \<Longrightarrow> lines l = [l]"
  by (induction l) auto

lemma lines_line [simp]: "LF \<notin> set l \<Longrightarrow> lines (l @ LF # r) = l # lines r"
  by (induction l) auto

definition reply_blocks :: "string \<Rightarrow> block_t set" where
  \<comment> \<open>the blocks the rows of a text stand for\<close>
  "reply_blocks t = {b. \<exists>l \<in> set (lines t). block_from_csv_row l = Inr b}"

lemma reply_blocks_line: "LF \<notin> set l \<Longrightarrow>
    reply_blocks (l @ LF # r) = {b. block_from_csv_row l = Inr b} \<union> reply_blocks r"
  by (auto simp: reply_blocks_def)

lemma reply_blocks_single: "LF \<notin> set l \<Longrightarrow> reply_blocks l = {b. block_from_csv_row l = Inr b}"
  by (auto simp: reply_blocks_def)

lemma reply_blocks_rows:
  "\<forall>b \<in> set bs. block_ok b \<and> one_line b \<Longrightarrow> reply_blocks (rows_text bs) \<subseteq> set bs"
proof (induction bs)
  case Nil
  then show ?case by (auto simp: reply_blocks_def dest: block_from_csv_row_Inr(1))
next
  case (Cons b bs)
  then show ?case using block_from_csv_row_of_row [of b] by (auto simp: one_line_def reply_blocks_line)
qed

lemma error_has_no_block:
  assumes "starts_with ''ERR:'' l"
  shows "block_from_csv_row l \<noteq> Inr b"
proof
  assume r: "block_from_csv_row l = Inr b"
  obtain r where l: "l = ''ERR:'' @ r" using assms by (auto simp: starts_with_iff)
  have "CHR ''R'' \<in> set (take 16 l)" by (simp add: l)
  then show False
    using block_from_csv_row_Inr(7) [OF r] by (auto simp: hex16_to_u64_def l isxdigit_def isdigit_def split: if_splits)
qed

subsection \<open>Blocks that get into a chain\<close>

lemma append_subset:
  assumes "chain_inv c" "block_ok b"
  shows "set (c_v (snd (chain_append E c b))) \<subseteq> insert b (set (c_v c))"
    and "c_v c \<noteq> [] \<Longrightarrow> c_v (snd (chain_append E c b)) \<noteq> []"
  using led.effect [OF assms, of E]
  by (cases "fst (chain_append E c b)"; auto dest: in_set_butlastD)+

lemma take_rows_subset:
  "chain_inv c \<Longrightarrow> NUL \<notin> set t \<Longrightarrow> set (c_v (take_rows E t c)) \<subseteq> reply_blocks t \<union> set (c_v c)"
proof (induction t arbitrary: c rule: measure_induct_rule [where f = length])
  case (less t)
  define len where "len = (case strchr t LF of Some i \<Rightarrow> i | None \<Rightarrow> length t)"
  define c' where "c' = (if len > 0 \<and> len < MAX_CSV_ROW_LEN then
      (case block_from_csv_row (take len t) of Inl _ \<Rightarrow> c | Inr b \<Rightarrow> snd (chain_append E c b)) else c)"
  have "NUL \<notin> set (take len t)" using less.prems(2) by (meson in_set_takeD)
  then have c': "chain_inv c'" "set (c_v c') \<subseteq> {b. block_from_csv_row (take len t) = Inr b} \<union> set (c_v c)"
    using less.prems(1) block_from_csv_row_ok led.inv_append append_subset(1) [of c _ E]
    unfolding c'_def by (auto split: sum.split)
  have eq: "take_rows E t c = (if t = [] then c else
      case strchr t LF of Some i \<Rightarrow> take_rows E (drop (i + 1) t) c' | None \<Rightarrow> c')"
    unfolding c'_def len_def by (subst take_rows.simps) (simp add: Let_def cong: option.case_cong)
  show ?case
  proof (cases "strchr t LF")
    case None
    then have "LF \<notin> set t" by (auto simp: strchr_def split: if_splits)
    then show ?thesis using None c'(2) by (auto simp: eq len_def reply_blocks_single)
  next
    case (Some i)
    obtain a b where ab: "t = a @ LF # b" "LF \<notin> set a" "length a = i" using strchr_split [OF Some] by blast
    have r: "take len t = a" "drop (i + 1) t = b" using Some ab by (simp_all add: len_def)
    have "set (c_v (take_rows E b c')) \<subseteq> reply_blocks b \<union> set (c_v c')"
      using less.IH [of b c'] c'(1) less.prems(2) ab(1) by simp
    then show ?thesis
      using Some c'(2) [unfolded r(1)] ab(1,2) unfolding eq r(2) by (auto simp: r(2) reply_blocks_line)
  qed
qed

subsection \<open>Messages of the protocol\<close>

text \<open>
  A message as it lies in a FIFO, given the blocks mined so far, those that may be held, and the
  transactions submitted so far.
\<close>

definition proper :: "block_t set \<Rightarrow> block_t set \<Rightarrow> string set \<Rightarrow> msg_t \<Rightarrow> bool" where
  "proper M B T m \<longleftrightarrow> seal m = m
     \<and> (m_type m = type_code MSG_BLOCK \<longrightarrow> (\<exists>b \<in> M. block_ok b \<and> payload m = csv_row b))
     \<and> (m_type m = type_code MSG_REPLY \<longrightarrow> reply_blocks (payload m) \<subseteq> B)
     \<and> (m_type m = type_code MSG_TX \<longrightarrow> payload m \<in> T)
     \<and> (m_type m = type_code MSG_CHAIN_REQUEST \<or> m_type m = type_code MSG_BLOCK_REQUEST \<longrightarrow>
          LF \<notin> set (payload m) \<and> (m_role m = role_code ROLE_PARENT
            \<or> m_role m = role_code ROLE_NODE \<and> unat (m_idx m) < 16))"

definition properly :: "block_t set \<Rightarrow> block_t set \<Rightarrow> string set \<Rightarrow> effect list \<Rightarrow> bool" where
  \<comment> \<open>all that is sent is proper, and no wild descriptor is read\<close>
  "properly M B T fx \<longleftrightarrow> list_all (\<lambda>x. case x of Send d r \<Rightarrow> proper M B T (seal r)
     | Kill p g \<Rightarrow> True | Wild_fd n \<Rightarrow> False) fx"

lemma proper_mono: "proper M B T m \<Longrightarrow> M \<subseteq> M' \<Longrightarrow> B \<subseteq> B' \<Longrightarrow> T \<subseteq> T' \<Longrightarrow> proper M' B' T' m"
  unfolding proper_def by blast

lemma properly_simps [simp]:
  "properly M B T []" "properly M B T (fx @ gx) \<longleftrightarrow> properly M B T fx \<and> properly M B T gx"
  "properly M B T (x # fx) \<longleftrightarrow> (case x of Send d r \<Rightarrow> proper M B T (seal r)
     | Kill p g \<Rightarrow> True | Wild_fd n \<Rightarrow> False) \<and> properly M B T fx"
  by (simp_all add: properly_def)

lemma properly_concat: "(\<And>x. x \<in> set xs \<Longrightarrow> properly M B T (f x)) \<Longrightarrow> properly M B T (concat (map f xs))"
  by (induction xs) simp_all

lemma seal_sel [simp]:
  "m_type (seal m) = m_type m" "m_role (seal m) = m_role m" "m_idx (seal m) = m_idx m" "m_last (seal m) = m_last m"
  by (simp_all add: seal_def)

lemma seal_signed: "seal m = m \<Longrightarrow> seal (m\<lparr>m_role := r, m_idx := i\<rparr>) = m\<lparr>m_role := r, m_idx := i\<rparr>"
  by (cases m) (simp add: seal_def)

lemma seal_fill: "m_payload m = fill t \<Longrightarrow> seal m = m"
  by (rule seal_id) (simp_all add: wf_msg_def fill_last)

subsection \<open>A node keeps to the protocol\<close>

definition node_ok :: "block_t set \<Rightarrow> node \<Rightarrow> bool" where
  "node_ok B s \<longleftrightarrow> node_inv s \<and> c_v (g_chain s) \<noteq> [] \<and> set (c_v (g_chain s)) \<subseteq> B
     \<and> (g_recovering s \<longrightarrow> set (c_v (g_recovery s)) \<subseteq> B)"

lemma node_ok_upd:
  "node_ok B s \<Longrightarrow> node_inv (s\<lparr>n_files := fs\<rparr>) \<Longrightarrow> node_ok B (s\<lparr>n_files := fs\<rparr>)"
  "node_ok B s \<Longrightarrow> node_ok B (s\<lparr>g_last_request := t\<rparr>)" "node_ok B s \<Longrightarrow> node_ok B (seen_add s h)"
  using node_inv_upd(3,4) by (auto simp: node_ok_def)

lemma gossip_properly:
  assumes "proper M B T m" "m_type m = type_code MSG_BLOCK"
  shows "properly M B T (gossip C m)"
proof -
  have "proper M B T (seal (m\<lparr>m_role := r, m_idx := i\<rparr>))" for r i
    using assms by (simp add: proper_def seal_signed)
  moreover have "proper M B T (seal m)" using assms(1) by (simp add: proper_def)
  ultimately show ?thesis
    by (auto simp: properly_def gossip_def Let_def list_all_iff)
qed

lemma small_index: "0 \<le> i \<Longrightarrow> i < 16 \<Longrightarrow> unat (of_int i :: u32) < 16"
  by (cases i rule: int_cases2) (auto simp: unat_of_nat take_bit_nat_eq_self)

lemma request_properly:
  assumes "0 \<le> g_idx C" "g_idx C < 16"
  shows "properly M B T (snd (request_chain C e s m))"
  using small_index [OF assms]
  by (auto simp: request_chain_def Let_def proper_def seal_fill)

lemma reply_properly:
  assumes "seal p = p" "m_type p = type_code MSG_REPLY" "reply_blocks (payload p) \<subseteq> B"
    "m_role m = role_code ROLE_PARENT \<or> m_role m = role_code ROLE_NODE \<and> unat (m_idx m) < 16"
  shows "properly M B T (reply_to C m p)"
proof -
  have "proper M B T (seal (p\<lparr>m_role := r, m_idx := i\<rparr>))" for r i
    using assms(1-3) by (simp add: proper_def seal_signed)
  then show ?thesis using assms(4) by (auto simp: reply_to_def Let_def)
qed

text \<open>The texts of the error replies.\<close>

lemma error_text:
  assumes "LF \<notin> set t" "starts_with ''ERR:'' t"
  shows "reply_blocks (payload (error_reply t)) = {}" "reply_blocks (payload (piece q l t)) = {}"
proof -
  obtain r where t: "t = ''ERR:'' @ r" using assms(2) by (auto simp: starts_with_iff)
  have e: "cstr (fill t) = ''ERR:'' @ cstr (take 4059 r @ replicate (4064 - length (snprintf_out 4064 t)) NUL)"
    by (simp add: t fill_def snprintf_out_def cstr_def)
  have "set (cstr (fill t)) \<subseteq> set t"
    by (auto simp: cstr_def fill_def snprintf_out_def dest!: set_takeWhileD dest: in_set_takeD)
  then have "LF \<notin> set (cstr (fill t))" using assms(1) by blast
  moreover have "starts_with ''ERR:'' (cstr (fill t))" unfolding e by (auto simp: starts_with_iff)
  ultimately have "reply_blocks (cstr (fill t)) = {}"
    using error_has_no_block by (auto simp: reply_blocks_single)
  then show "reply_blocks (payload (error_reply t)) = {}" "reply_blocks (payload (piece q l t)) = {}"
    by (simp_all add: error_reply_def piece_def)
qed

lemma no_block_text_clean: "LF \<notin> set (no_block_text a b)" "starts_with ''ERR:'' (no_block_text a b)"
  using dec_isdigit [of LF] by (auto simp: no_block_text_def isdigit_def starts_with_iff)

lemma start_index_text:
  assumes "start_index M c req = Inl t" "LF \<notin> set req"
  shows "LF \<notin> set t" "starts_with ''ERR:'' t"
proof -
  have "LF \<notin> set (drop 6 req)" using assms(2) by (meson in_set_dropD)
  with assms(1) show "LF \<notin> set t" "starts_with ''ERR:'' t"
    by (auto simp: start_index_def Let_def starts_with_iff split: if_splits option.splits prod.splits)
qed

lemma pieces_mem: "p \<in> set (pieces q ts) \<Longrightarrow> \<exists>k l. \<exists>t \<in> set ts. p = piece k l t"
  by (induction q ts rule: pieces.induct) auto

lemma piece_seal: "seal (piece q l t) = piece q l t" "m_type (piece q l t) = type_code MSG_REPLY"
  "seal (error_reply t) = error_reply t" "m_type (error_reply t) = type_code MSG_REPLY"
proof -
  show "seal (piece q l t) = piece q l t" by (rule seal_fill) (simp add: piece_def)
  show "seal (error_reply t) = error_reply t" by (rule seal_fill) (simp add: error_reply_def)
qed (simp_all add: piece_def error_reply_def)

lemma chain_blocks_ok: "chain_inv c \<Longrightarrow> b \<in> set (c_v c) \<Longrightarrow> valid_block b"
  using linkedD(2) [OF chain_invD(2)] by (metis in_set_conv_nth)

lemma chain_request_properly:
  assumes "node_ok B s" "proper M B T m" "m_type m = type_code MSG_CHAIN_REQUEST" "\<forall>b \<in> B. one_line b"
  shows "properly M B T (snd (handle_chain_request C e s m))"
proof -
  have inv: "node_inv s" and cinv: "chain_inv (g_chain s)" and sub: "set (c_v (g_chain s)) \<subseteq> B"
    using assms(1) by (simp_all add: node_ok_def node_inv_def)
  have sender: "m_role m = role_code ROLE_PARENT \<or> m_role m = role_code ROLE_NODE \<and> unat (m_idx m) < 16"
    and line: "LF \<notin> set (payload m)"
    using assms(2,3) by (simp_all add: proper_def)
  have err: "properly M B T (reply_to C m (error_reply t))" if "LF \<notin> set t" "starts_with ''ERR:'' t" for t
    using error_text [OF that] piece_seal(3,4) sender by (intro reply_properly) simp_all
  show ?thesis
  proof (cases "start_index (mem (o_env e)) (g_chain s) (payload m)")
    case (Inl t)
    then show ?thesis using err start_index_text [OF Inl line] by (simp add: handle_chain_request_def)
  next
    case (Inr i)
    show ?thesis
    proof (cases "i < c_len (g_chain s)")
      case False
      then show ?thesis using err [OF no_block_text_clean] Inr by (simp add: handle_chain_request_def)
    next
      case True
      let ?gs = "batches [] (drop i (c_v (g_chain s)))"
      have ok: "\<forall>b \<in> set ([] @ drop i (c_v (g_chain s))). block_ok b"
        using chain_blocks_ok [OF cinv] by (auto simp: valid_block_def dest: in_set_dropD)
      have "properly M B T (reply_to C m p)" if p: "p \<in> set (pieces 0 (map rows_text ?gs))" for p
      proof -
        obtain k l g where g: "g \<in> set ?gs" "p = piece k l (rows_text g)" using pieces_mem [OF p] by auto
        have "set g \<subseteq> (\<Union>x \<in> set ?gs. set x)" using g(1) by blast
        also have "\<dots> = set (concat ?gs)" by (rule set_concat [symmetric])
        also have "\<dots> = set (drop i (c_v (g_chain s)))" by (simp only: concat_batches append_Nil)
        finally have gs: "set g \<subseteq> set (drop i (c_v (g_chain s)))" .
        then have blocks: "\<forall>b \<in> set g. block_ok b \<and> one_line b" "set g \<subseteq> B"
          using ok sub assms(4) set_drop_subset [of i "c_v (g_chain s)"] by auto blast+
        have "length (rows_text g) < 4063" using batches_fit [OF ok] g(1) by (simp add: rows_text_def)
        then have "payload p = rows_text g" using g(2) rows_text_no_nul blocks(1) by simp
        then show ?thesis
          using reply_blocks_rows [OF blocks(1)] blocks(2) piece_seal(1,2) sender g(2) by (intro reply_properly) auto
      qed
      then show ?thesis
        using chain_request_pieces [OF inv Inr True, of C] by (simp add: properly_concat)
    qed
  qed
qed

lemma block_request_properly:
  assumes "node_ok B s" "proper M B T m" "m_type m = type_code MSG_BLOCK_REQUEST" "\<forall>b \<in> B. one_line b"
  shows "properly M B T (snd (handle_block_request C e s m))"
proof -
  have cinv: "chain_inv (g_chain s)" and sub: "set (c_v (g_chain s)) \<subseteq> B"
    using assms(1) by (simp_all add: node_ok_def node_inv_def)
  have sender: "m_role m = role_code ROLE_PARENT \<or> m_role m = role_code ROLE_NODE \<and> unat (m_idx m) < 16"
    using assms(2,3) by (simp add: proper_def)
  define b where "b = (if starts_with ''INDEX '' (payload m)
      then chain_find_index (g_chain s) (fst (strtoull10 (drop 6 (payload m))))
      else if starts_with ''HASH '' (payload m)
      then chain_find_hash (mem (o_env e)) (g_chain s) (drop 5 (payload m)) else None)"
  have mem: "b = Some x \<Longrightarrow> x \<in> set (c_v (g_chain s))" for x
    using find_hash_from_is_member [OF cinv, of "mem (o_env e)" "drop 5 (payload m)" x]
    by (auto simp: b_def chain_find_index_eq [OF cinv] split: if_splits dest!: nth_mem)
  have "reply_blocks (payload (piece 0 True (case b of None \<Rightarrow> ''ERR:BLOCK_NOT_FOUND: no block with that index or hash''
      | Some x \<Rightarrow> snd (block_to_csv_row x [] MSG_PAYLOAD_MAX)))) \<subseteq> B"
  proof (cases b)
    case None
    then show ?thesis using error_text(2) [of "''ERR:BLOCK_NOT_FOUND: no block with that index or hash''" 0 True]
      by (simp add: starts_with_def)
  next
    case (Some x)
    have x: "block_ok x" "one_line x" "x \<in> B"
      using mem [OF Some] chain_blocks_ok [OF cinv] sub assms(4) by (auto simp: valid_block_def)
    then have "snd (block_to_csv_row x [] 4064) = csv_row x" "length (csv_row x) \<le> 2243" "NUL \<notin> set (csv_row x)"
      using block_to_csv_row_ok [of x 4064] csv_row_bounds(2) rows_text_no_nul [of "[x]"] by simp_all
    then show ?thesis
      using Some x block_from_csv_row_of_row [OF x(1)] by (auto simp: one_line_def reply_blocks_single)
  qed
  then show ?thesis
    using reply_properly [OF piece_seal(1,2) _ sender, of 0 True] unfolding handle_block_request_def Let_def snd_conv b_def
    by simp
qed

text \<open>What a node takes over from a block or a reply.\<close>

lemma handle_block_ok:
  assumes "node_ok B s" "proper M B T m" "m_type m = type_code MSG_BLOCK" "M \<subseteq> B" "0 \<le> g_idx C" "g_idx C < 16"
  shows "node_ok B (fst (handle_block C e s m)) \<and> properly M B T (snd (handle_block C e s m))"
proof -
  have inv: "node_inv s" and cinv: "chain_inv (g_chain s)" and ne: "c_v (g_chain s) \<noteq> []"
    using assms(1) by (simp_all add: node_ok_def node_inv_def)
  obtain x where x: "x \<in> M" "block_ok x" "payload m = csv_row x" using assms(2,3) by (auto simp: proper_def)
  have known: "b \<in> B" "block_ok b" if "block_from_csv_row (payload m) = Inr b" for b
    using that x block_from_csv_row_of_row [OF x(2)] assms(4) by auto
  let ?s = "fst (handle_block C e s m)"
  have chain: "node_ok B (s\<lparr>g_chain := snd (chain_append (o_env e) (g_chain s) b)\<rparr>)" if "block_ok b" "b \<in> B" for b
    using append_subset [OF cinv that(1), of "o_env e"] assms(1) that node_inv_upd(1) [OF inv] led.inv_append [OF cinv that(1)]
    by (auto simp: node_ok_def)
  have files: "node_ok B (t\<lparr>n_files := fs\<rparr>)" if "node_ok B t" for t fs
    using that node_inv_upd(2) by (auto simp: node_ok_def)
  show ?thesis
  proof (cases rule: handle_block_cases [OF inv, of m e C])
    case (1 b c fs)
    have "node_ok B (s\<lparr>g_chain := c, n_files := fs\<rparr>)"
      using files [OF chain [OF known(2,1) [OF 1(1)]]] 1(5) by simp
    then show ?thesis
      using 1(7) node_ok_upd(3) gossip_properly [OF assms(2,3), of C] by (simp add: node_ok_upd(3))
  next
    case (2 b c fs)
    have "node_ok B (s\<lparr>g_chain := c, n_files := fs\<rparr>)"
      using files [OF chain [OF known(2,1) [OF 2(1)]]] 2(3) by simp
    then show ?thesis using 2(6) by simp
  next
    case (3 b)
    have "node_ok B (fst (request_chain C e s m))"
      using request_chain_state [of C e s m] assms(1) node_ok_upd(2) [OF assms(1), of "o_now e"] by auto
    then show ?thesis using 3(3) request_properly [OF assms(5,6)] by simp
  next
    case (4 h)
    then show ?thesis using node_ok_upd(3) [OF assms(1)] by simp
  next
    case 5
    then show ?thesis using assms(1) by simp
  qed
qed

lemma handle_reply_ok:
  assumes "node_ok B s" "proper M B T m" "m_type m = type_code MSG_REPLY"
  shows "node_ok B (handle_reply C e s m)"
proof -
  have inv: "node_inv s" and sub: "set (c_v (g_chain s)) \<subseteq> B" "c_v (g_chain s) \<noteq> []"
    "g_recovering s \<Longrightarrow> set (c_v (g_recovery s)) \<subseteq> B"
    using assms(1) by (simp_all add: node_ok_def)
  have inv': "node_inv (handle_reply C e s m)" by (rule handle_reply_inv [OF inv])
  show ?thesis
  proof (cases "begin_reply e s m")
    case None
    then show ?thesis using inv' sub by (auto simp: handle_reply_def node_ok_def)
  next
    case (Some s1)
    have s1: "node_inv s1" "g_recovering s1" using begin_reply_inv [OF inv Some] by simp_all
    have same: "g_chain s1 = g_chain s" "set (c_v (g_recovery s1)) \<subseteq> B"
      using Some sub(3) by (auto simp: begin_reply_def Let_def split: if_splits)
    let ?r = "take_rows (o_env e) (payload m) (g_recovery s1)"
    have rinv: "chain_inv (g_recovery s1)" using s1 by (simp add: node_inv_def)
    have r: "set (c_v ?r) \<subseteq> B"
      using take_rows_subset [OF rinv, of "payload m" "o_env e"] same(2) assms(2,3) by (auto simp: proper_def)
    have len: "c_len ?r = length (c_v ?r)" using chain_invD(1) [OF take_rows_inv [OF rinv]] by simp
    show ?thesis
    proof (cases "m_last m = 1")
      case False
      then show ?thesis
        using handle_reply_step(1) [OF Some, of C] inv' r same sub by (auto simp: node_ok_def)
    next
      case True
      then show ?thesis
        using handle_reply_step(2) [OF Some, of C] inv' r len same(1) sub by (auto simp: node_ok_def)
    qed
  qed
qed

lemma node_step_ok:
  assumes "node_ok B s" "proper M B T m" "M \<subseteq> B" "\<forall>b \<in> B. one_line b" "0 \<le> g_idx C" "g_idx C < 16"
  shows "node_ok B (fst (node_step C e s m)) \<and> properly M B T (snd (node_step C e s m))"
proof -
  have "fst (handle_chain_request C e s m) = s" "fst (handle_block_request C e s m) = s"
    by (auto simp: handle_chain_request_def handle_block_request_def Let_def split: sum.split)
  then show ?thesis
    using assms(1) handle_block_ok [OF assms(1,2) _ assms(3,5,6)] handle_reply_ok [OF assms(1,2)]
      chain_request_properly [OF assms(1,2) _ assms(4)] block_request_properly [OF assms(1,2) _ assms(4)]
    by (simp add: node_step_def)
qed

subsection \<open>A miner keeps to the protocol\<close>

definition miner_ok :: "block_t set \<Rightarrow> string set \<Rightarrow> miner \<Rightarrow> bool" where
  "miner_ok B T s \<longleftrightarrow> miner_inv s \<and> c_v (mchain s) \<noteq> [] \<and> set (c_v (mchain s)) \<subseteq> B
     \<and> set (mempool s) \<subseteq> T \<and> (\<forall>p \<in> set (pending s). set (pd_txs p) \<subseteq> T)"

lemma set_mempool_add: "set (foldl mempool_add pool ts) \<subseteq> set pool \<union> set ts"
proof (induction ts arbitrary: pool)
  case (Cons t ts)
  have "set (foldl mempool_add (mempool_add pool t) ts) \<subseteq> set (mempool_add pool t) \<union> set ts" by (rule Cons)
  moreover have "set (mempool_add pool t) \<subseteq> insert t (set pool)" by (auto simp: mempool_add_def)
  ultimately show ?case by auto
qed simp

lemma pending_settle_ok: "miner_ok B T s \<Longrightarrow> miner_ok B T (pending_settle M s)"
proof -
  assume ok: "miner_ok B T s"
  then obtain tip where t: "pending_settle M s = settle_from M tip 0 s"
    by (auto simp: pending_settle_def miner_ok_def miner_inv_def chain_tip_eq)
  let ?lost = "filter (\<lambda>p. fate_of M (mchain s) tip p = Lost) (pending s)"
  have "set (mempool (pending_settle M s)) \<subseteq> set (mempool s) \<union> set (concat (map pd_txs ?lost))"
    using set_mempool_add [of "mempool s" "concat (map pd_txs ?lost)"] by (simp add: t settle_from_eq)
  moreover have "set (concat (map pd_txs ?lost)) \<subseteq> T" "set (mempool s) \<subseteq> T"
    using ok by (auto simp: miner_ok_def)
  ultimately have "set (mempool (pending_settle M s)) \<subseteq> T" by (meson Un_least order_trans)
  moreover have "set (pending (pending_settle M s)) \<subseteq> set (pending s)" by (auto simp: t settle_from_eq)
  ultimately show "miner_ok B T (pending_settle M s)"
    using ok pending_settle_inv [of s M] unfolding miner_ok_def pending_settle_chain by blast
qed

lemma take_message_ok:
  assumes "miner_ok B T s" "proper M B T m" "M \<subseteq> B"
  shows "miner_ok B T (snd (take_message E m s))"
proof -
  have inv: "miner_inv s" and cinv: "chain_inv (mchain s)" using assms(1) by (simp_all add: miner_ok_def miner_inv_def)
  have inv': "miner_inv (snd (take_message E m s))" by (rule take_message_inv [OF inv])
  consider "m_type m = type_code MSG_TX" | "m_type m = type_code MSG_BLOCK"
    | "m_type m \<noteq> type_code MSG_TX" "m_type m \<noteq> type_code MSG_BLOCK" by blast
  then show ?thesis
  proof cases
    case 1
    then have "payload m \<in> T" using assms(2) by (simp add: proper_def)
    then show ?thesis using 1 assms(1) inv' by (auto simp: take_message_def miner_ok_def mempool_add_def)
  next
    case 2
    then obtain x where x: "x \<in> M" "block_ok x" "payload m = csv_row x" using assms(2) by (auto simp: proper_def)
    have row: "block_from_csv_row (payload m) = Inr x" using x block_from_csv_row_of_row by simp
    obtain res c where app: "chain_append E (mchain s) x = (res, c)" by fastforce
    have c: "chain_inv c" "set (c_v c) \<subseteq> B" "c_v c \<noteq> []"
      using led.inv_append [OF cinv x(2), of E] append_subset [OF cinv x(2), of E] app assms(1,3) x(1)
      by (auto simp: miner_ok_def)
    have pool: "miner_ok B T (s\<lparr>mchain := c, mempool := foldl mempool_remove (mempool s) ts\<rparr>)" for ts
      using assms(1) inv c set_mempool_remove [of "mempool s" ts] pool_remove_ok [of "mempool s" ts]
      by (auto simp: miner_ok_def miner_inv_def)
    have "miner_ok B T (s\<lparr>mchain := c\<rparr>)" using pool [of "[]"] by simp
    then show ?thesis
      using 2 pending_settle_ok [OF pool] by (auto simp: take_message_def row app Let_def split: option.split)
  qed (use assms(1) in \<open>simp add: take_message_def\<close>)
qed

lemma book_ok:
  assumes "miner_ok B T s" "set ts \<subseteq> T" "\<forall>t \<in> set ts. valid_tx t" "length ts \<le> 16" "hex64 h"
  shows "miner_ok B T (book (block_with i t n q ts) h s)"
proof -
  have inv: "miner_inv (book (block_with i t n q ts) h s)"
    using assms book_inv [of s ts h i t n q] by (simp add: miner_ok_def)
  show ?thesis
  proof (cases "length (pending s) = 8")
    case True
    then obtain p0 ps where p: "pending s = p0 # ps" by (cases "pending s") auto
    then have "set (pd_txs p0) \<subseteq> T" using assms(1) by (simp add: miner_ok_def)
    then have "set (foldl mempool_remove (foldl mempool_add (mempool s) (pd_txs p0)) ts) \<subseteq> T"
      using set_mempool_remove [of "foldl mempool_add (mempool s) (pd_txs p0)" ts]
        set_mempool_add [of "mempool s" "pd_txs p0"] assms(1) unfolding miner_ok_def by blast
    then show ?thesis
      using inv assms(1,2) True p by (simp add: miner_ok_def book_eq [OF assms(3,5)])
  next
    case False
    then show ?thesis
      using inv assms(1,2) set_mempool_remove [of "mempool s" ts]
      by (auto simp: miner_ok_def book_eq [OF assms(3,5)])
  qed
qed

lemma miner_round_ok:
  assumes "miner_ok B T s" "M \<subseteq> B" "\<And>E m. (E, m) \<in> set (heard R) \<Longrightarrow> proper M B T m"
    and "miner_round C R s = (s', fx)"
  shows "miner_ok B T s' \<and> (fx = [] \<or> (\<exists>c. fx = map (\<lambda>i. Send (To_node i) (block_out C (csv_row c))) [0..<nat (mc_num_nodes C)]
    \<and> valid_block c \<and> b_index c \<noteq> 0 \<and> set (txs_of c) \<subseteq> T))"
proof -
  have inv: "miner_inv s" using assms(1) by (simp add: miner_ok_def)
  show ?thesis
  proof (cases rule: miner_round_cases_closed [where Q = "miner_ok B T" and R = R and C = C, OF inv assms(1)])
    case (1 E m s)
    then show ?case using take_message_ok [OF _ assms(3) assms(2)] by blast
  next
    case (2 s2)
    then show ?thesis using assms(4) by simp
  next
    case (3 s2 ts rest n c)
    have T: "set ts \<subseteq> T" using 3(2,4) by (auto simp: miner_ok_def)
    have v: "\<forall>t \<in> set ts. valid_tx t" using 3(1,4) by (auto simp: miner_inv_def)
    have cinv: "chain_inv (mchain s2)" using 3(1) by (simp add: miner_inv_def)
    have comp: "competes (c_v (mchain s2)) c"
      unfolding 3(7) by (rule candidate_competes [OF cinv 3(3,5,6) v])
    then have "valid_block c" "unat (b_index c) \<noteq> 0" by (auto simp: competes_def)
    then have c: "valid_block c" "b_index c \<noteq> 0" "set (txs_of c) \<subseteq> T" using T 3(7) by auto
    have "miner_ok B T (book c (digest_of c) s2)"
      unfolding 3(7) by (rule book_ok [OF 3(2) T v 3(6) digest_hex64])
    then show ?thesis using 3(8) assms(4) c by auto
  qed
qed

subsection \<open>Clients and the parent keep to the protocol\<close>

definition submitted_by :: "effect list \<Rightarrow> string list" where
  "submitted_by fx = concat (map (\<lambda>x. case x of
     Send d m \<Rightarrow> if m_type m = type_code MSG_TX then [payload m] else [] | _ \<Rightarrow> []) fx)"

definition announced_by :: "effect list \<Rightarrow> block_t list" where
  \<comment> \<open>the block a miner sends to all nodes\<close>
  "announced_by fx = (case fx of
     Send d m # _ \<Rightarrow> (case block_from_csv_row (payload m) of Inl _ \<Rightarrow> [] | Inr b \<Rightarrow> [b])
   | _ \<Rightarrow> [])"

lemma submitted_by_simps [simp]: "submitted_by [] = []" "submitted_by (fx @ gx) = submitted_by fx @ submitted_by gx"
  by (simp_all add: submitted_by_def)

lemma valid_tx_clean: "valid_tx t \<Longrightarrow> NUL \<notin> set t \<and> LF \<notin> set t \<and> length t < 128"
  using tx_shape_clean [of t] by (auto simp: valid_tx_def)

lemma tx_msg_sent:
  assumes "valid_tx tx"
  shows "submitted_by [Send d (tx_msg r idx tx)] = [tx]" "tx \<in> T \<Longrightarrow> properly M B T [Send d (tx_msg r idx tx)]"
proof -
  have p: "payload (tx_msg r idx tx) = tx" "m_type (tx_msg r idx tx) = type_code MSG_TX"
    using valid_tx_clean [OF assms] by (simp_all add: tx_msg_def)
  have "seal (tx_msg r idx tx) = tx_msg r idx tx" by (rule seal_fill) (simp add: tx_msg_def)
  then show "submitted_by [Send d (tx_msg r idx tx)] = [tx]" "tx \<in> T \<Longrightarrow> properly M B T [Send d (tx_msg r idx tx)]"
    using p by (simp_all add: submitted_by_def proper_def)
qed

lemma client_step_ok:
  assumes "client_step C ini k s = (s', fx)" "set (submitted_by fx) \<subseteq> T"
  shows "properly M B T fx \<and> (\<forall>t \<in> set (submitted_by fx). valid_tx t)"
proof (cases fx)
  case (Cons x xs)
  then obtain t tx where "fx = [Send (To_miner t) (tx_msg ROLE_CLIENT (cc_idx C) tx)]" "valid_tx tx"
    using client_sends [OF assms(1), of x] by auto
  then show ?thesis using tx_msg_sent [of tx] assms(2) by auto
qed simp

lemma request_msg_ok:
  assumes "t = MSG_CHAIN_REQUEST \<or> t = MSG_BLOCK_REQUEST" "LF \<notin> set f"
  shows "proper M B T (seal (request_msg t f))" "m_type (request_msg t f) \<noteq> type_code MSG_TX"
proof -
  have "set (cstr (fill f)) \<subseteq> insert NUL (set f)"
    by (auto simp: cstr_def fill_def snprintf_out_def dest!: set_takeWhileD dest: in_set_takeD)
  moreover have "LF \<noteq> NUL" by simp
  ultimately have "LF \<notin> set (cstr (fill f))" using assms(2) by blast
  moreover have "seal (request_msg t f) = request_msg t f" by (rule seal_fill) (simp add: request_msg_def)
  ultimately show "proper M B T (seal (request_msg t f))" "m_type (request_msg t f) \<noteq> type_code MSG_TX"
    using assms(1) by (auto simp: proper_def request_msg_def)
qed

lemma send_request_ok:
  assumes "t = MSG_CHAIN_REQUEST \<or> t = MSG_BLOCK_REQUEST" "LF \<notin> set f"
  shows "properly M B T (fst (send_request P w (request_msg t f) s))"
    "submitted_by (fst (send_request P w (request_msg t f) s)) = []"
  using request_msg_ok [OF assms] by (auto simp: send_request_def submitted_by_def split: option.split)

lemma filters_clean:
  assumes "LF \<notin> set input"
  shows "chain_filter input = Inr f \<Longrightarrow> LF \<notin> set f" "block_filter input = Inr f \<Longrightarrow> LF \<notin> set f"
proof -
  have w: "with_filter u a = Inr f \<Longrightarrow> LF \<notin> set a \<Longrightarrow> LF \<notin> set f" for u a
    by (auto simp: with_filter_def snprintf_out_def split: if_splits dest!: in_set_takeD dest: in_set_dropD)
  have d: "LF \<notin> set (drop n input)" for n using assms by (meson in_set_dropD)
  have "chain_filter input = Inr f \<Longrightarrow> f = ''ALL'' \<or> (\<exists>u. with_filter u (drop 19 input) = Inr f)"
    by (auto simp: chain_filter_def Let_def split: if_splits)
  then show "chain_filter input = Inr f \<Longrightarrow> LF \<notin> set f" using w [OF _ d] by auto
  have "block_filter input = Inr f \<Longrightarrow> \<exists>u. with_filter u (drop 14 input) = Inr f"
    by (auto simp: block_filter_def split: if_splits)
  then show "block_filter input = Inr f \<Longrightarrow> LF \<notin> set f" using w [OF _ d] by auto
qed

lemma cli_request_ok:
  assumes "t = MSG_CHAIN_REQUEST \<or> t = MSG_BLOCK_REQUEST" "\<And>f. flt = Inr f \<Longrightarrow> LF \<notin> set f"
  shows "properly M B T (fst (cli_request P w t flt s))" "submitted_by (fst (cli_request P w t flt s)) = []"
proof -
  have "properly M B T (fst (cli_request P w t flt s)) \<and> submitted_by (fst (cli_request P w t flt s)) = []"
  proof (cases flt)
    case (Inr f)
    then show ?thesis
      using send_request_ok [OF assms(1) assms(2) [OF Inr], where P = P and w = w and s = s] by (simp add: cli_request_def split_def Let_def)
  qed (simp add: cli_request_def)
  then show "properly M B T (fst (cli_request P w t flt s))" "submitted_by (fst (cli_request P w t flt s)) = []"
    by simp_all
qed

lemma signal_alive_ok:
  "properly M B T (fst (signal_alive g word s))" "submitted_by (fst (signal_alive g word s)) = []"
  by (auto simp: signal_alive_def ipc_signal_pids_def Let_def properly_def list_all_iff submitted_by_def)

lemma cli_save_effects:
  "fst (snd (cli_save P w input s)) = []
    \<or> fst (snd (cli_save P w input s)) = fst (send_request P w (request_msg MSG_CHAIN_REQUEST ''ALL'') s)"
  by (auto simp: cli_save_def Let_def split_def split: sum.split)

lemma cli_command_ok:
  assumes "cli_command P w input s = (s', fx, out)" "LF \<notin> set input" "set (submitted_by fx) \<subseteq> T"
  shows "properly M B T fx \<and> (\<forall>t \<in> set (submitted_by fx). valid_tx t)"
proof -
  have sub: "properly M B T fx \<and> (\<forall>t \<in> set (submitted_by fx). valid_tx t)" if q: "cli_submit P w input s = (s', fx, out)"
  proof (cases fx)
    case (Cons x xs)
    then obtain j tx where "fx = [Send (To_miner j) (tx_msg ROLE_PARENT 0 tx)]" "valid_tx tx"
      using submit_sends [OF q, of x] by auto
    then show ?thesis using tx_msg_sent [of tx] assms(3) by auto
  qed simp
  have req: "properly M B T (fst (cli_request P w MSG_CHAIN_REQUEST (chain_filter input) s))
      \<and> submitted_by (fst (cli_request P w MSG_CHAIN_REQUEST (chain_filter input) s)) = []"
    "properly M B T (fst (cli_request P w MSG_BLOCK_REQUEST (block_filter input) s))
      \<and> submitted_by (fst (cli_request P w MSG_BLOCK_REQUEST (block_filter input) s)) = []"
    using cli_request_ok filters_clean [OF assms(2)] by blast+
  have save: "properly M B T (fst (snd (cli_save P w input s)))" "submitted_by (fst (snd (cli_save P w input s))) = []"
    using cli_save_effects [of P w input s] send_request_ok [where t = MSG_CHAIN_REQUEST and f = "''ALL''" and P = P and w = w and s = s] by auto
  consider "fx = []" | "\<exists>g word. fx = fst (signal_alive g word s)" | "cli_submit P w input s = (s', fx, out)"
    | "\<exists>t. fx = fst (cli_request P w MSG_CHAIN_REQUEST (chain_filter input) s)"
    | "fx = fst (cli_request P w MSG_BLOCK_REQUEST (block_filter input) s)"
    | "fx = fst (snd (cli_save P w input s))"
    using assms(1) unfolding cli_command_def by (auto split: if_splits) (metis fst_conv)+
  then show ?thesis
    by cases (use signal_alive_ok sub req save in auto)
qed

subsection \<open>The step relation\<close>

text \<open>
  The state: who is alive and in which state, the FIFOs, and two records that no process sees: the
  blocks the miners have sent and the transactions that clients and command line have sent.
\<close>

record network =
  nw_node :: "nat \<Rightarrow> node option"
  nw_miner :: "nat \<Rightarrow> miner option"
  nw_client :: "nat \<Rightarrow> client option"
  nw_parent :: cli
  nw_fifo :: "dest \<Rightarrow> msg_t list"
  nw_mined :: "block_t list"
  nw_submitted :: "string list"

text \<open>The configurations the children read from the command lines the parent builds.\<close>

definition nodecfg :: "params_t \<Rightarrow> int list \<Rightarrow> nat \<Rightarrow> node_cfg" where
  "nodecfg P pids i = \<lparr>g_idx = int i, g_num_nodes = num_nodes P, g_num_miners = num_miners P,
     g_miner_pids = pids, g_bootstrap_csv = BOOTSTRAP_CSV\<rparr>"

definition minercfg :: "params_t \<Rightarrow> nat \<Rightarrow> miner_cfg" where
  "minercfg P j = \<lparr>mc_idx = int j, mc_num_nodes = num_nodes P, mc_difficulty = difficulty P,
     mc_bootstrap_csv = BOOTSTRAP_CSV\<rparr>"

definition clientcfg :: "params_t \<Rightarrow> int list \<Rightarrow> nat \<Rightarrow> client_cfg" where
  "clientcfg P pids k = \<lparr>cc_idx = int k, cc_num_miner = num_miners P, cc_freq = transaction_frequency P,
     cc_miner_pids = pids\<rparr>"

definition inbound :: "dest \<Rightarrow> effect list \<Rightarrow> msg_t list" where
  \<comment> \<open>what is sent to \<open>d\<close>, as it will be read\<close>
  "inbound d fx = concat (map (\<lambda>x. case x of Send d' r \<Rightarrow> if d' = d then [seal r] else [] | _ \<Rightarrow> []) fx)"

definition arrives :: "effect list \<Rightarrow> (dest \<Rightarrow> msg_t list) \<Rightarrow> (dest \<Rightarrow> msg_t list) \<Rightarrow> bool" where
  \<comment> \<open>in order, and some may be dropped\<close>
  "arrives fx F F' \<longleftrightarrow> (\<forall>d. \<exists>ms. subseq ms (inbound d fx) \<and> F' d = F d @ ms)"

inductive net_step :: "params_t \<Rightarrow> int list \<Rightarrow> network \<Rightarrow> network \<Rightarrow> bool" for P pids where
  node_reads: "nw_node N i = Some s \<Longrightarrow> nw_fifo N (To_node i) = m # ms \<Longrightarrow>
    node_step (nodecfg P pids i) e s m = (s', fx) \<Longrightarrow> arrives fx ((nw_fifo N)(To_node i := ms)) F \<Longrightarrow>
    net_step P pids N (N\<lparr>nw_node := (nw_node N)(i \<mapsto> s'), nw_fifo := F\<rparr>)"
| miner_turns: "nw_miner N j = Some s \<Longrightarrow> nw_fifo N (To_miner j) = map snd (heard R) @ ms \<Longrightarrow>
    miner_round (minercfg P j) R s = (s', fx) \<Longrightarrow> arrives fx ((nw_fifo N)(To_miner j := ms)) F \<Longrightarrow>
    net_step P pids N (N\<lparr>nw_miner := (nw_miner N)(j \<mapsto> s'), nw_fifo := F,
      nw_mined := nw_mined N @ announced_by fx\<rparr>)"
| client_ticks: "nw_client N k = Some s \<Longrightarrow>
    client_step (clientcfg P pids k) ini t s = (s', fx) \<Longrightarrow> arrives fx (nw_fifo N) F \<Longrightarrow>
    net_step P pids N (N\<lparr>nw_client := (nw_client N)(k \<mapsto> s'), nw_fifo := F,
      nw_submitted := nw_submitted N @ submitted_by fx\<rparr>)"
| parent_obeys: "nw_fifo N To_parent = concat (map (case_sum (\<lambda>r. []) (\<lambda>m. [m])) (w_recv w)) @ ms \<Longrightarrow>
    cli_command P w (takeWhile (\<lambda>c. c \<noteq> LF) l) ((nw_parent N)\<lparr>ci_tab := reap_children dead (ci_tab (nw_parent N))\<rparr>)
      = (s', fx, out) \<Longrightarrow>
    arrives fx ((nw_fifo N)(To_parent := ms)) F \<Longrightarrow>
    net_step P pids N (N\<lparr>nw_parent := s', nw_fifo := F, nw_submitted := nw_submitted N @ submitted_by fx\<rparr>)"
| node_dies: "net_step P pids N (N\<lparr>nw_node := (nw_node N)(i := None)\<rparr>)"
| miner_dies: "net_step P pids N (N\<lparr>nw_miner := (nw_miner N)(j := None)\<rparr>)"
| client_dies: "net_step P pids N (N\<lparr>nw_client := (nw_client N)(k := None)\<rparr>)"

text \<open>
  At the start every process that runs has come through its own start-up with the chain \<open>bs\<close> of the
  parent, as theory \<open>Bootstrap\<close> shows for a fresh chain; the FIFOs are empty.
\<close>

definition net_start :: "params_t \<Rightarrow> int list \<Rightarrow> block_t list \<Rightarrow> network \<Rightarrow> bool" where
  "net_start P pids bs N \<longleftrightarrow> 1 \<le> num_nodes P \<and> num_nodes P \<le> 16
     \<and> linked bs \<and> bs \<noteq> [] \<and> length bs < 2 ^ 49 \<and> (\<forall>b \<in> set bs. one_line b)
     \<and> (\<forall>i s. nw_node N i = Some s \<longrightarrow> i < nat (num_nodes P) \<and> c_v (g_chain s) = bs
         \<and> (\<exists>B argv. node_start B argv = Inr (nodecfg P pids i, s)))
     \<and> (\<forall>j s. nw_miner N j = Some s \<longrightarrow> c_v (mchain s) = bs
         \<and> (\<exists>B argv. miner_start B argv = Inr (minercfg P j, s)))
     \<and> (\<forall>k s. nw_client N k = Some s \<longrightarrow> s = client_init (clientcfg P pids k))
     \<and> nw_fifo N = (\<lambda>d. []) \<and> nw_mined N = [] \<and> nw_submitted N = []"

inductive net_reach :: "params_t \<Rightarrow> int list \<Rightarrow> block_t list \<Rightarrow> network \<Rightarrow> bool" for P pids bs where
  at_start: "net_start P pids bs N \<Longrightarrow> net_reach P pids bs N"
| later: "net_reach P pids bs N \<Longrightarrow> net_step P pids N N' \<Longrightarrow> net_reach P pids bs N'"

inductive_cases net_stepE: "net_step P pids N N'"

subsection \<open>The invariant of the network\<close>

definition held_blocks :: "block_t list \<Rightarrow> network \<Rightarrow> block_t set" where
  "held_blocks bs N = set bs \<union> set (nw_mined N)"

definition net_inv :: "params_t \<Rightarrow> block_t list \<Rightarrow> network \<Rightarrow> bool" where
  "net_inv P bs N \<longleftrightarrow>
     (\<forall>i s. nw_node N i = Some s \<longrightarrow> i < nat (num_nodes P) \<and> node_ok (held_blocks bs N) s)
     \<and> (\<forall>j s. nw_miner N j = Some s \<longrightarrow> miner_ok (held_blocks bs N) (set (nw_submitted N)) s)
     \<and> (\<forall>d. \<forall>m \<in> set (nw_fifo N d). proper (set (nw_mined N)) (held_blocks bs N) (set (nw_submitted N)) m)
     \<and> (\<forall>b \<in> set (nw_mined N). valid_block b \<and> b_index b \<noteq> 0 \<and> set (txs_of b) \<subseteq> set (nw_submitted N))
     \<and> (\<forall>t \<in> set (nw_submitted N). valid_tx t)"

lemma inbound_proper: "properly M B T fx \<Longrightarrow> m \<in> set (inbound d fx) \<Longrightarrow> proper M B T m"
  by (fastforce simp: properly_def inbound_def list_all_iff split: effect.splits if_splits)

lemma arrives_proper:
  assumes "arrives fx F F'" "properly M B T fx" "\<forall>d. \<forall>m \<in> set (F d). proper M B T m"
  shows "\<forall>d. \<forall>m \<in> set (F' d). proper M B T m"
proof (intro allI ballI)
  fix d m assume m: "m \<in> set (F' d)"
  obtain ms where "subseq ms (inbound d fx)" "F' d = F d @ ms" using assms(1) by (auto simp: arrives_def)
  moreover from this have "set ms \<subseteq> set (inbound d fx)" using set_nths_subset by (metis subseq_conv_nths)
  ultimately show "proper M B T m" using m assms(3) inbound_proper [OF assms(2)] by auto
qed

lemma ok_mono:
  "node_ok B s \<Longrightarrow> B \<subseteq> B' \<Longrightarrow> node_ok B' s" "miner_ok B T q \<Longrightarrow> B \<subseteq> B' \<Longrightarrow> T \<subseteq> T' \<Longrightarrow> miner_ok B' T' q"
  unfolding node_ok_def miner_ok_def by (blast, blast)

lemma held_one_line:
  assumes "net_inv P bs N" "\<forall>b \<in> set bs. one_line b"
  shows "\<forall>b \<in> held_blocks bs N. one_line b"
  using assms valid_one_line by (auto simp: net_inv_def held_blocks_def)

text \<open>A step in which one process sends, and the records may grow.\<close>

lemma net_inv_send:
  assumes inv: "net_inv P bs N" and "arrives fx F F'" "\<forall>d. set (F d) \<subseteq> set (nw_fifo N d)"
    and N': "nw_fifo N' = F'" "nw_mined N' = nw_mined N @ new" "nw_submitted N' = nw_submitted N @ txs"
    and "properly (set (nw_mined N')) (held_blocks bs N') (set (nw_submitted N')) fx"
    and "\<forall>b \<in> set new. valid_block b \<and> b_index b \<noteq> 0 \<and> set (txs_of b) \<subseteq> set (nw_submitted N)"
    and "\<forall>t \<in> set txs. valid_tx t"
    and "\<And>i s. nw_node N' i = Some s \<Longrightarrow> nw_node N i = Some s \<or> i < nat (num_nodes P) \<and> node_ok (held_blocks bs N') s"
    and "\<And>j s. nw_miner N' j = Some s \<Longrightarrow> nw_miner N j = Some s
      \<or> miner_ok (held_blocks bs N') (set (nw_submitted N')) s"
  shows "net_inv P bs N'"
proof -
  have sub: "set (nw_mined N) \<subseteq> set (nw_mined N')" "set (nw_submitted N) \<subseteq> set (nw_submitted N')"
    "held_blocks bs N \<subseteq> held_blocks bs N'"
    by (auto simp: N' held_blocks_def)
  have "\<forall>d. \<forall>m \<in> set (F d). proper (set (nw_mined N')) (held_blocks bs N') (set (nw_submitted N')) m"
    using inv assms(3) proper_mono [OF _ sub(1,3,2)] unfolding net_inv_def by blast
  from arrives_proper [OF assms(2,7) this]
  have fifo: "\<forall>d. \<forall>m \<in> set (nw_fifo N' d). proper (set (nw_mined N')) (held_blocks bs N') (set (nw_submitted N')) m"
    by (simp only: N')
  have mined: "\<forall>b \<in> set (nw_mined N'). valid_block b \<and> b_index b \<noteq> 0 \<and> set (txs_of b) \<subseteq> set (nw_submitted N')"
  proof -
    have "\<forall>b \<in> set (nw_mined N). valid_block b \<and> b_index b \<noteq> 0 \<and> set (txs_of b) \<subseteq> set (nw_submitted N)"
      using inv by (simp add: net_inv_def)
    then show ?thesis using assms(8) sub(2) unfolding N'(2) set_append by (meson UnE order_trans)
  qed
  have txs: "\<forall>t \<in> set (nw_submitted N'). valid_tx t"
    using inv assms(9) unfolding net_inv_def N'(3) by auto
  have nodes: "i < nat (num_nodes P) \<and> node_ok (held_blocks bs N') s" if "nw_node N' i = Some s" for i s
    using assms(10) [OF that] inv ok_mono(1) [OF _ sub(3)] unfolding net_inv_def by blast
  have miners: "miner_ok (held_blocks bs N') (set (nw_submitted N')) s" if "nw_miner N' j = Some s" for j s
    using assms(11) [OF that] inv ok_mono(2) [OF _ sub(3,2)] unfolding net_inv_def by blast
  show ?thesis unfolding net_inv_def using fifo mined txs nodes miners by blast
qed

lemma node_reads_inv:
  assumes "net_inv P bs N" "\<forall>b \<in> set bs. one_line b" "num_nodes P \<le> 16"
    "nw_node N i = Some s" "nw_fifo N (To_node i) = m # ms"
    "node_step (nodecfg P pids i) e s m = (s', fx)" "arrives fx ((nw_fifo N)(To_node i := ms)) F"
  shows "net_inv P bs (N\<lparr>nw_node := (nw_node N)(i \<mapsto> s'), nw_fifo := F\<rparr>)"
proof -
  let ?N = "N\<lparr>nw_node := (nw_node N)(i \<mapsto> s'), nw_fifo := F\<rparr>"
  have i: "i < nat (num_nodes P)" "node_ok (held_blocks bs N) s"
    using assms(1,4) by (simp_all add: net_inv_def)
  have m: "proper (set (nw_mined N)) (held_blocks bs N) (set (nw_submitted N)) m"
    using assms(1) assms(5) unfolding net_inv_def by (metis list.set_intros(1))
  have idx: "0 \<le> g_idx (nodecfg P pids i)" "g_idx (nodecfg P pids i) < 16"
    using i(1) assms(3) by (simp_all add: nodecfg_def)
  have "set (nw_mined N) \<subseteq> held_blocks bs N" by (simp add: held_blocks_def)
  from node_step_ok [OF i(2) m this held_one_line [OF assms(1,2)] idx, of e] assms(6)
  have ok: "node_ok (held_blocks bs N) s'" "properly (set (nw_mined N)) (held_blocks bs N) (set (nw_submitted N)) fx"
    by simp_all
  show ?thesis
    using ok i(1) assms(5)
    by (intro net_inv_send [OF assms(1,7), where new = "[]" and txs = "[]"])
      (auto simp: held_blocks_def split: if_splits)
qed

lemma announced_block:
  assumes "block_ok c" "0 < n"
  shows "announced_by (map (\<lambda>i. Send (To_node i) (block_out C (csv_row c))) [0..<n]) = [c]"
proof -
  have "payload (block_out C (csv_row c)) = csv_row c"
    using csv_row_bounds(2) [OF assms(1)] rows_text_no_nul [of "[c]"] assms(1) by (simp add: block_out_def)
  then show ?thesis
    using assms block_from_csv_row_of_row [OF assms(1)] by (simp add: announced_by_def upt_conv_Cons)
qed

lemma block_out_proper:
  assumes "block_ok c" "c \<in> M"
  shows "proper M B T (seal (block_out C (csv_row c)))"
proof -
  have "seal (block_out C (csv_row c)) = block_out C (csv_row c)" by (rule seal_fill) (simp add: block_out_def)
  moreover have "payload (block_out C (csv_row c)) = csv_row c"
    using csv_row_bounds(2) [OF assms(1)] rows_text_no_nul [of "[c]"] assms(1) by (simp add: block_out_def)
  ultimately show ?thesis using assms by (auto simp: proper_def block_out_def)
qed

lemma miner_turns_inv:
  assumes "net_inv P bs N" "1 \<le> num_nodes P"
    "nw_miner N j = Some s" "nw_fifo N (To_miner j) = map snd (heard R) @ ms"
    "miner_round (minercfg P j) R s = (s', fx)" "arrives fx ((nw_fifo N)(To_miner j := ms)) F"
  shows "net_inv P bs (N\<lparr>nw_miner := (nw_miner N)(j \<mapsto> s'), nw_fifo := F, nw_mined := nw_mined N @ announced_by fx\<rparr>)"
proof -
  let ?N = "N\<lparr>nw_miner := (nw_miner N)(j \<mapsto> s'), nw_fifo := F, nw_mined := nw_mined N @ announced_by fx\<rparr>"
  have ok: "miner_ok (held_blocks bs N) (set (nw_submitted N)) s" using assms(1,3) by (simp add: net_inv_def)
  have read: "proper (set (nw_mined N)) (held_blocks bs N) (set (nw_submitted N)) m" if "(E, m) \<in> set (heard R)" for E m
  proof -
    have "m \<in> set (nw_fifo N (To_miner j))" using that unfolding assms(4) by force
    then show ?thesis using assms(1) unfolding net_inv_def by blast
  qed
  have "set (nw_mined N) \<subseteq> held_blocks bs N" by (simp add: held_blocks_def)
  then have round: "miner_ok (held_blocks bs N) (set (nw_submitted N)) s'"
    "fx = [] \<or> (\<exists>c. fx = map (\<lambda>i. Send (To_node i) (block_out (minercfg P j) (csv_row c))) [0..<nat (num_nodes P)]
       \<and> valid_block c \<and> b_index c \<noteq> 0 \<and> set (txs_of c) \<subseteq> set (nw_submitted N))"
    using miner_round_ok [OF ok _ _ assms(5), of "set (nw_mined N)"] read by (simp_all add: minercfg_def)
  have grow: "held_blocks bs N \<subseteq> held_blocks bs ?N" by (auto simp: held_blocks_def)
  have s': "miner_ok (held_blocks bs ?N) (set (nw_submitted ?N)) s'"
    using ok_mono(2) [OF round(1) grow] by simp
  have sent: "properly (set (nw_mined ?N)) (held_blocks bs ?N) (set (nw_submitted ?N)) fx
      \<and> (\<forall>b \<in> set (announced_by fx). valid_block b \<and> b_index b \<noteq> 0 \<and> set (txs_of b) \<subseteq> set (nw_submitted N))"
  proof (cases "fx = []")
    case True
    then show ?thesis by (simp add: announced_by_def)
  next
    case False
    then obtain c where c: "fx = map (\<lambda>i. Send (To_node i) (block_out (minercfg P j) (csv_row c))) [0..<nat (num_nodes P)]"
      "valid_block c" "b_index c \<noteq> 0" "set (txs_of c) \<subseteq> set (nw_submitted N)"
      using round(2) by blast
    have cok: "block_ok c" using c(2) by (simp add: valid_block_def)
    have new: "announced_by fx = [c]" unfolding c(1) using announced_block [OF cok] assms(2) by simp
    have "proper (set (nw_mined ?N)) (held_blocks bs ?N) (set (nw_submitted ?N))
        (seal (block_out (minercfg P j) (csv_row c)))"
      by (rule block_out_proper [OF cok]) (simp add: new)
    then have "properly (set (nw_mined ?N)) (held_blocks bs ?N) (set (nw_submitted ?N)) fx"
      unfolding c(1) by (simp add: properly_def list_all_iff)
    then show ?thesis using c new by simp
  qed
  show ?thesis
    using s' sent assms(4)
    by (intro net_inv_send [OF assms(1,6), where new = "announced_by fx" and txs = "[]"])
      (auto split: if_splits)
qed

lemma sender_inv:
  assumes "net_inv P bs N" "arrives fx F F'" "\<forall>d. set (F d) \<subseteq> set (nw_fifo N d)"
    "\<And>M B T. set (submitted_by fx) \<subseteq> T \<Longrightarrow> properly M B T fx \<and> (\<forall>t \<in> set (submitted_by fx). valid_tx t)"
    "nw_fifo N' = F'" "nw_mined N' = nw_mined N" "nw_submitted N' = nw_submitted N @ submitted_by fx"
    "nw_node N' = nw_node N" "nw_miner N' = nw_miner N"
  shows "net_inv P bs N'"
  using assms(4) [of "set (nw_submitted N')"] assms(5-9)
  by (intro net_inv_send [OF assms(1-3), where new = "[]" and txs = "submitted_by fx"]) auto

lemma net_step_inv:
  assumes "net_step P pids N N'" "net_inv P bs N" "\<forall>b \<in> set bs. one_line b" "1 \<le> num_nodes P" "num_nodes P \<le> 16"
  shows "net_inv P bs N'"
  using assms(1)
proof cases
  case (node_reads i s m ms e s' fx F)
  show ?thesis unfolding node_reads(1) by (rule node_reads_inv [OF assms(2,3,5) node_reads(2-5)])
next
  case (miner_turns j s R ms s' fx F)
  show ?thesis unfolding miner_turns(1) by (rule miner_turns_inv [OF assms(2,4) miner_turns(2-5)])
next
  case (client_ticks k s ini t s' fx F)
  show ?thesis unfolding client_ticks(1)
    by (rule sender_inv [OF assms(2) client_ticks(4)]) (simp_all add: client_step_ok [OF client_ticks(3)])
next
  case (parent_obeys w ms l dead s' fx out F)
  have line: "LF \<notin> set (takeWhile (\<lambda>c. c \<noteq> LF) l)" by (auto dest: set_takeWhileD)
  show ?thesis unfolding parent_obeys(1)
    by (rule sender_inv [OF assms(2) parent_obeys(4)])
      (simp_all add: parent_obeys(2) cli_command_ok [OF parent_obeys(3) line])
next
  case (node_dies i)
  then show ?thesis using assms(2) by (auto simp: net_inv_def held_blocks_def)
next
  case (miner_dies j)
  then show ?thesis using assms(2) by (auto simp: net_inv_def held_blocks_def)
next
  case (client_dies k)
  then show ?thesis using assms(2) by (auto simp: net_inv_def held_blocks_def)
qed

lemma net_start_inv:
  assumes "net_start P pids bs N"
  shows "net_inv P bs N"
proof -
  have nodes: "i < nat (num_nodes P) \<and> node_ok (held_blocks bs N) s" if q: "nw_node N i = Some s" for i s
  proof -
    obtain B argv where st: "node_start B argv = Inr (nodecfg P pids i, s)" and c: "c_v (g_chain s) = bs" "i < nat (num_nodes P)"
      using assms q unfolding net_start_def by blast
    have "\<not> g_recovering s"
      using st by (auto simp: node_start_def Let_def empty_node_def split: sum.splits if_splits prod.splits)
    then show ?thesis
      using node_start_inv [OF st] c assms by (simp add: node_ok_def held_blocks_def net_start_def)
  qed
  have miners: "miner_ok (held_blocks bs N) (set (nw_submitted N)) s" if q: "nw_miner N j = Some s" for j s
  proof -
    obtain B argv where st: "miner_start B argv = Inr (minercfg P j, s)" and c: "c_v (mchain s) = bs"
      using assms q unfolding net_start_def by blast
    have "mempool s = []" "pending s = []"
      using st by (auto simp: miner_start_def Let_def split: sum.splits if_splits prod.splits)
    then show ?thesis
      using miner_start_inv [OF st] c assms by (simp add: miner_ok_def held_blocks_def net_start_def)
  qed
  show ?thesis using nodes miners assms by (simp add: net_inv_def net_start_def)
qed

lemma net_reach_inv: "net_reach P pids bs N \<Longrightarrow> net_inv P bs N
    \<and> 1 \<le> num_nodes P \<and> num_nodes P \<le> 16 \<and> linked bs \<and> bs \<noteq> [] \<and> length bs < 2 ^ 49 \<and> (\<forall>b \<in> set bs. one_line b)"
proof (induction rule: net_reach.induct)
  case (at_start N)
  then show ?case using net_start_inv [OF at_start] by (simp add: net_start_def)
next
  case (later N N')
  then show ?case using net_step_inv [OF later(2)] by blast
qed

subsection \<open>Same hash, same past\<close>

lemma same_past:
  assumes "linked as" "linked bs"
  shows "k < length as \<Longrightarrow> k < length bs \<Longrightarrow> digest_of (as ! k) = digest_of (bs ! k) \<Longrightarrow>
    take (Suc k) as = take (Suc k) bs \<or> clash sha256 (map serial as) (map serial bs)"
proof (induction k)
  case 0
  have "as ! 0 = bs ! 0 \<or> serial (as ! 0) \<noteq> serial (bs ! 0)"
    using serial_inj linkedD(3) [OF assms(1) 0(1)] linkedD(3) [OF assms(2) 0(2)] by blast
  then show ?case
    using 0 by (auto simp: take_Suc_conv_app_nth clash_def digest_of_def intro!: nth_mem)
next
  case (Suc k)
  show ?case
  proof (cases "as ! Suc k = bs ! Suc k")
    case False
    then have "serial (as ! Suc k) \<noteq> serial (bs ! Suc k)"
      using serial_inj linkedD(3) [OF assms(1) Suc.prems(1)] linkedD(3) [OF assms(2) Suc.prems(2)] by blast
    moreover have "serial (as ! Suc k) \<in> set (map serial as)" "serial (bs ! Suc k) \<in> set (map serial bs)"
      using Suc.prems(1,2) by simp_all
    ultimately have "clash sha256 (map serial as) (map serial bs)"
      using Suc.prems(3) unfolding clash_def digest_of_def by blast
    then show ?thesis ..
  next
    case True
    have "digest_of (as ! k) = digest_of (bs ! k)"
      using assms Suc.prems(1,2) True unfolding linked_def by metis
    then show ?thesis using Suc True by (auto simp: take_Suc_conv_app_nth [of "Suc k"])
  qed
qed

subsection \<open>The chains in the network\<close>

definition holds :: "network \<Rightarrow> block_t list \<Rightarrow> bool" where
  "holds N c \<longleftrightarrow> (\<exists>i s. nw_node N i = Some s \<and> c = c_v (g_chain s))
     \<or> (\<exists>j s. nw_miner N j = Some s \<and> c = c_v (mchain s))"

lemma held_chain:
  assumes "net_reach P pids bs N" "holds N c"
  shows "linked c" "c \<noteq> []" "set c \<subseteq> held_blocks bs N"
proof -
  have inv: "net_inv P bs N" using net_reach_inv [OF assms(1)] by simp
  consider (node) i s where "nw_node N i = Some s" "c = c_v (g_chain s)"
    | (miner) j s where "nw_miner N j = Some s" "c = c_v (mchain s)"
    using assms(2) unfolding holds_def by blast
  then have "linked c \<and> c \<noteq> [] \<and> set c \<subseteq> held_blocks bs N"
  proof cases
    case node
    then have "node_ok (held_blocks bs N) s" using inv by (simp add: net_inv_def)
    then show ?thesis using node(2) chain_invD(2) by (simp add: node_ok_def node_inv_def)
  next
    case miner
    then have "miner_ok (held_blocks bs N) (set (nw_submitted N)) s" using inv by (simp add: net_inv_def)
    then show ?thesis using miner(2) chain_invD(2) by (simp add: miner_ok_def miner_inv_def)
  qed
  then show "linked c" "c \<noteq> []" "set c \<subseteq> held_blocks bs N" by simp_all
qed

lemma held_genesis:
  assumes "net_reach P pids bs N" "holds N c"
  shows "hd c = hd bs"
proof -
  note I = net_reach_inv [OF assms(1)] and H = held_chain [OF assms]
  have h: "hd c \<in> set c" "b_index (hd c) = 0"
    using H(2) linkedD(1) [OF H(1), of 0] by (simp_all add: hd_conv_nth)
  then have "hd c \<in> set bs" using H(3) I by (auto simp: held_blocks_def net_inv_def)
  then obtain i where i: "i < length bs" "bs ! i = hd c" by (auto simp: in_set_conv_nth)
  then have "(of_nat i :: u64) = 0" using linkedD(1) [of bs i] I h(2) by simp
  moreover have "unat (of_nat i :: u64) = i" using i(1) I by (simp add: unat_of_nat take_bit_nat_eq_self)
  ultimately have "i = 0" by simp
  then show ?thesis using i I by (simp add: hd_conv_nth)
qed

subsection \<open>A network for the witnesses\<close>

lemma booted:
  assumes "node_parse_args argv = Inr C"
  shows "\<exists>s. node_start boot0 argv = Inr (C, s) \<and> c_v (g_chain s) = [genesis1]"
proof -
  note R = node_parse_args_bounds [OF assms]
  obtain c where c: "csv_load env0 disk0 (\<lambda>q. Some (file_text [genesis1])) (g_bootstrap_csv C) chain_init = (OK, c)"
    using genesis_file by blast
  have "linked ([] @ [genesis1])" using chain1_inv by (simp add: chain_inv_def)
  then have "c_v (snd (csv_load env0 disk0 (\<lambda>q. Some (file_text [genesis1])) (g_bootstrap_csv C) chain_init)) = [genesis1]"
    using load_rows_text [of chain_init "[]" "[genesis1]"] genesis1_row
      csv_load_file_text [of disk0 "\<lambda>q. Some (file_text [genesis1])" "g_bootstrap_csv C" "[genesis1]" env0 chain_init]
    by (simp del: rows_text_simps)
  then have cv: "c_v c = [genesis1]" using c by simp
  have "boot_env boot0 = env0" by (simp add: boot_env_def boot0_def transaction_init_def)
  moreover have "fst (log_init (b_log_dir boot0) (b_log_fd boot0) (b_pid boot0) ''node'' log_closed) = OK"
    by (simp add: log_init_OK boot0_def)
  moreover have o: "ipc_open_sender (b_kernel boot0) ROLE_NODE i \<noteq> Inl IPC_ERROR
      \<and> ipc_open_sender (b_kernel boot0) ROLE_MINER i \<noteq> Inl IPC_ERROR
      \<and> ipc_open_inbox (b_kernel boot0) ROLE_NODE i False \<noteq> Inl IPC_ERROR" if "0 \<le> i" "i < 2 ^ 31" for i
    using open_sender_ok [of ROLE_NODE "nat i" "b_kernel boot0" 4] open_sender_ok(1) [of ROLE_MINER "nat i" "b_kernel boot0" 4] that
    by (simp add: boot0_def nat_less_iff)
  moreover have "ipc_open_sender (b_kernel boot0) ROLE_PARENT 0 \<noteq> Inl IPC_ERROR"
    using open_sender_ok [of ROLE_PARENT 0 "b_kernel boot0" 4] by (simp add: boot0_def)
  moreover have "fst (transaction_init False (b_regcomp boot0)) = OK" by (simp add: boot0_def transaction_init_def)
  moreover have "b_io boot0 = disk0" "b_files boot0 = (\<lambda>q. Some (file_text [genesis1]))" by (simp_all add: boot0_def)
  ultimately show ?thesis
    using c cv R by (auto simp: node_start_def assms Let_def list_ex_iff)
qed

lemma sample_network:
  "\<exists>N s0 s1 m. net_reach params1 [100, 101] [genesis1] N \<and> nw_node N 0 = Some s0 \<and> nw_node N 1 = Some s1
    \<and> c_v (g_chain s0) = [genesis1] \<and> c_v (g_chain s1) = [genesis1]
    \<and> nw_fifo N (To_miner 0) = [m] \<and> m_type m = type_code MSG_TX"
proof -
  have P: "num_nodes params1 = 3" "num_miners params1 = 2" by (simp_all add: params1_def)
  let ?fork = "\<lambda>r i. 100 + int i"
  have pids: "pids_of ?fork params1 = [100, 101]" by (simp add: pids_of_def P upt_rec)
  have "\<exists>argv. node_parse_args argv = Inr (nodecfg params1 [100, 101] i)" if "i < 3" for i
    using node_parse_argv [OF main_argv0_parsed, of i ?fork] that unfolding pids
    by (simp add: P nodecfg_def) blast
  then have "\<exists>s argv. node_start boot0 argv = Inr (nodecfg params1 [100, 101] i, s) \<and> c_v (g_chain s) = [genesis1]"
    if "i < 3" for i using booted that by blast
  then obtain f where f: "\<And>i. i < 3 \<Longrightarrow>
      (\<exists>argv. node_start boot0 argv = Inr (nodecfg params1 [100, 101] i, f i)) \<and> c_v (g_chain (f i)) = [genesis1]"
    by metis
  let ?C = "clientcfg params1 [100, 101] 0"
  define N where "N = \<lparr>nw_node = (\<lambda>i. if i < 3 then Some (f i) else None), nw_miner = (\<lambda>j. None),
    nw_client = (\<lambda>k. if k = 0 then Some (client_init ?C) else None), nw_parent = cli0,
    nw_fifo = (\<lambda>d. []), nw_mined = [], nw_submitted = []\<rparr>"
  have "linked [genesis1]" using chain_invD(2) [OF chain1_inv(1)] by simp
  then have "net_start params1 [100, 101] [genesis1] N"
    using f by (auto simp: net_start_def N_def P) blast
  then have start: "net_reach params1 [100, 101] [genesis1] N" by (rule at_start)
  obtain s' fx where st: "client_step ?C True tick0 (client_init ?C) = (s', fx)" by fastforce
  have "fst (next_miner ?C (k_probe tick0) (client_init ?C)) = Some 0"
    by (simp add: next_miner_def client_init_def clientcfg_def P tick0_def miner_is_alive_def Let_def upt_rec)
  then obtain tx where fx: "fx = [Send (To_miner 0) (tx_msg ROLE_CLIENT 0 tx)]"
    using st client_step_eq [of tick0 0 1 9 ?C "client_init ?C"] by (auto simp: tick0_def clientcfg_def)
  let ?m = "seal (tx_msg ROLE_CLIENT 0 tx)"
  have arr: "arrives fx (nw_fifo N) ((\<lambda>d. [])(To_miner 0 := [?m]))"
    by (simp add: arrives_def fx inbound_def N_def)
  have "net_step params1 [100, 101] N (N\<lparr>nw_client := (nw_client N)(0 \<mapsto> s'),
      nw_fifo := (\<lambda>d. [])(To_miner 0 := [?m]), nw_submitted := nw_submitted N @ submitted_by fx\<rparr>)"
    by (rule client_ticks [OF _ st arr]) (simp add: N_def)
  note later [OF start this]
  moreover have "m_type ?m = type_code MSG_TX" by (simp add: tx_msg_def)
  ultimately show ?thesis
    using f by (intro exI [of _ "N\<lparr>nw_client := (nw_client N)(0 \<mapsto> s'),
      nw_fifo := (\<lambda>d. [])(To_miner 0 := [?m]), nw_submitted := nw_submitted N @ submitted_by fx\<rparr>"]
      exI [of _ "f 0"] exI [of _ "f 1"] exI [of _ ?m]) (simp add: N_def)
qed

subsection \<open>Properties\<close>

text \<open>C1: nothing is forged. Whatever the processes do, in whatever order they run, whichever messages
  are lost and whoever dies: the chain of every node and every miner is linked and valid, begins
  with the genesis block of the parent, and each of its blocks is one of the initial chain or was
  sent by a miner; and every transaction in such a block is a valid one that a client or the
  command line has sent.\<close>

theorem network_integrity:
  assumes "net_reach P pids bs N" "holds N c"
  shows "linked c \<and> c \<noteq> [] \<and> hd c = hd bs
    \<and> (\<forall>b \<in> set c. b \<in> set bs \<or> b \<in> set (nw_mined N) \<and> b_index b \<noteq> 0
         \<and> (\<forall>t \<in> set (txs_of b). valid_tx t \<and> t \<in> set (nw_submitted N)))"
proof -
  have mined: "\<forall>b \<in> set (nw_mined N). b_index b \<noteq> 0 \<and> set (txs_of b) \<subseteq> set (nw_submitted N)"
    and txs: "\<forall>t \<in> set (nw_submitted N). valid_tx t"
    using net_reach_inv [OF assms(1)] by (simp_all add: net_inv_def)
  have "\<forall>b \<in> set c. b \<in> set bs \<or> b \<in> set (nw_mined N)"
    using held_chain(3) [OF assms] by (auto simp: held_blocks_def)
  with mined txs show ?thesis
    using held_chain(1,2) [OF assms] held_genesis [OF assms] by (metis subsetD)
qed

theorem network_integrity_witness:
  "\<exists>N s. net_reach params1 [100, 101] [genesis1] N \<and> nw_node N 0 = Some s
    \<and> linked (c_v (g_chain s)) \<and> hd (c_v (g_chain s)) = genesis1"
proof -
  obtain N s0 s1 where N: "net_reach params1 [100, 101] [genesis1] N" "nw_node N 0 = Some s0"
    using sample_network by blast
  then have "holds N (c_v (g_chain s0))" by (auto simp: holds_def)
  from network_integrity [OF N(1) this] N show ?thesis by auto
qed

text \<open>C2: a hash stands for a whole history. If two processes of the network hold blocks with the same
  hash at the same height, their chains are the same up to there, or the serializations of two
  different blocks of these chains collide under SHA-256.\<close>

theorem network_agreement:
  assumes "net_reach P pids bs N" "holds N c" "holds N d" "k < length c" "k < length d"
    "digest_of (c ! k) = digest_of (d ! k)"
  shows "take (Suc k) c = take (Suc k) d \<or> clash sha256 (map serial c) (map serial d)"
  using same_past [OF held_chain(1) [OF assms(1,2)] held_chain(1) [OF assms(1,3)]] assms(4-6) by blast

theorem network_agreement_witness:
  "\<exists>N s t. net_reach params1 [100, 101] [genesis1] N \<and> nw_node N 0 = Some s \<and> nw_node N 1 = Some t
    \<and> (take 1 (c_v (g_chain s)) = take 1 (c_v (g_chain t)) \<or> clash sha256 [serial genesis1] [serial genesis1])"
proof -
  obtain N s0 s1 where N: "net_reach params1 [100, 101] [genesis1] N" "nw_node N 0 = Some s0" "nw_node N 1 = Some s1"
    "c_v (g_chain s0) = [genesis1]" "c_v (g_chain s1) = [genesis1]" using sample_network by blast
  then have "holds N [genesis1]" unfolding holds_def by metis
  from network_agreement [OF N(1) this this, of 0] N show ?thesis by auto
qed

text \<open>C14: nothing malformed travels. In every FIFO of the network a block message holds the row of a
  block a miner has mined, a transaction message holds a transaction that was submitted, and a
  request names a sender that can be answered: no process ever reads a descriptor outside its array.\<close>

theorem network_traffic:
  assumes "net_reach P pids bs N" "m \<in> set (nw_fifo N d)"
  shows "(m_type m = type_code MSG_BLOCK \<longrightarrow> (\<exists>b \<in> set (nw_mined N). block_from_csv_row (payload m) = Inr b))
    \<and> (m_type m = type_code MSG_TX \<longrightarrow> payload m \<in> set (nw_submitted N) \<and> valid_tx (payload m))
    \<and> (\<forall>i s e n. nw_node N i = Some s \<longrightarrow> Wild_fd n \<notin> set (snd (node_step (nodecfg P pids i) e s m)))"
proof -
  note I = net_reach_inv [OF assms(1)]
  let ?M = "set (nw_mined N)" and ?B = "held_blocks bs N" and ?T = "set (nw_submitted N)"
  have inv: "net_inv P bs N" and lines: "\<forall>b \<in> set bs. one_line b" and n: "num_nodes P \<le> 16" using I by simp_all
  have m: "proper ?M ?B ?T m" using inv assms(2) unfolding net_inv_def by blast
  have "Wild_fd w \<notin> set (snd (node_step (nodecfg P pids i) e s m))" if "nw_node N i = Some s" for i s e w
  proof -
    have i: "i < nat (num_nodes P)" "node_ok ?B s" using inv that by (simp_all add: net_inv_def)
    have "0 \<le> g_idx (nodecfg P pids i)" "g_idx (nodecfg P pids i) < 16" using i(1) n by (simp_all add: nodecfg_def)
    from node_step_ok [OF i(2) m _ held_one_line [OF inv lines] this, of e]
    have "properly ?M ?B ?T (snd (node_step (nodecfg P pids i) e s m))" by (simp add: held_blocks_def)
    then show ?thesis by (auto simp: properly_def list_all_iff split: effect.splits)
  qed
  then show ?thesis
    using m inv block_from_csv_row_of_row unfolding proper_def net_inv_def by metis
qed

theorem network_traffic_witness:
  "\<exists>N m. net_reach params1 [100, 101] [genesis1] N \<and> nw_fifo N (To_miner 0) = [m] \<and> valid_tx (payload m)
    \<and> payload m \<in> set (nw_submitted N)"
proof -
  obtain N m where N: "net_reach params1 [100, 101] [genesis1] N" "nw_fifo N (To_miner 0) = [m]"
    "m_type m = type_code MSG_TX" using sample_network by blast
  from network_traffic [OF N(1), of m "To_miner 0"] N show ?thesis by auto
qed

end
