(* ===== verification/Spec2Isabelle.thy ===== *)
theory Spec2Isabelle
  imports Network
begin

text \<open>
  A verification library for the multi-process blockchain simulation in \<open>src/code\<close>.

  The program. A parent process (\<open>main.c\<close>) prepares the first chain, creates one FIFO per process,
  forks nodes, miners and clients and runs a command line (\<open>cli.c\<close>). Clients (\<open>client.c\<close>) send
  random transactions to the miners in turn. A miner (\<open>miner.c\<close>) keeps a mempool and a copy of the
  chain, mines blocks by drawing random numbers and sends them to all nodes. A node (\<open>node.c\<close>)
  appends blocks to its chain, saves it as a CSV file, passes accepted blocks on to the other nodes
  and the miners, answers requests for blocks, and recovers from another node when it has missed
  some. All messages are fixed-size records (\<open>common.h\<close>) that travel through FIFOs (\<open>ipc.c\<close>); the
  data they carry are CSV rows of blocks (\<open>block.c\<close>) and transactions (\<open>transaction.c\<close>), hashed
  with SHA-256 (\<open>crypto.c\<close>).

  The theories, from the bottom up, with the code they translate.

  \<^item> \<open>Prelude\<close>: the codes and limits of \<open>errors.h\<close> and \<open>config.h\<close>, and what the C string and
    number routines do (\<open>strcmp\<close>, \<open>snprintf\<close>, \<open>strtoull\<close>, \<open>atoi\<close>, \<open>%d\<close>); an allocator is a function
    that says which sizes it grants.
  \<^item> \<open>Crypto\<close>: \<open>crypto.c\<close>, every function. SHA-256 on 32-bit words and the Merkle root; the locale
    \<open>digest\<close> holds what binds a Merkle root to its leaves.
  \<^item> \<open>Transaction\<close>: \<open>transaction.c\<close>. The pattern is a regular expression matched by derivatives and
    proved equal to the documented format.
  \<^item> \<open>Block\<close>, \<open>Chain\<close>, \<open>Csv\<close>: \<open>block.c\<close>. Serialization, hash, CSV row both ways and validation of a
    block; the growable chain, its look-ups and \<open>chain_append\<close> against its contract \<open>append_spec\<close>
    (locales \<open>ledger\<close> and \<open>exact_ledger\<close>); loading and saving a file, call by call: \<open>fprintf\<close>,
    \<open>fclose\<close>, \<open>rename_file\<close> and \<open>remove_file\<close> act on a stream and on the map of files, and what a
    failed write leaves on disk (\<open>torn\<close>) is any text. Which texts the separator of transactions can
    part again is the predicate \<open>separable\<close> of \<open>Block\<close>, stated without the parser.
  \<^item> \<open>Ipc\<close>: \<open>ipc.c\<close>. Messages and their bytes, creation and removal of the FIFOs, opening with
    the flags of each call, sending and the three ways of receiving (locale \<open>channel\<close>), signals.
  \<^item> \<open>Logging\<close>: \<open>logging.c\<close>.
  \<^item> \<open>Node\<close>: \<open>node.c\<close>. The state of a node is the record \<open>node\<close>, its arguments \<open>node_cfg\<close>; one
    function per handler gives the new state and the list of effects (messages and signals);
    \<open>node_step\<close> dispatches one message and \<open>node_loop\<close> is the main loop. The ring of seen hashes satisfies the locale \<open>window\<close>.
  \<^item> \<open>Sync\<close>: no new code; a reply as fragments on one side and the recovery on the other.
  \<^item> \<open>Miner\<close>: \<open>miner.c\<close>. Mempool, pending blocks, inbox, the mining loop and the main loop.
  \<^item> \<open>Rotation\<close>: the locale of a choice in turn among those that are alive, interpreted by the
    client's \<open>next_miner\<close> and by \<open>next_alive_miner\<close> of the command line, and its extension
    \<open>steady_rotation\<close> for runs in which the same ones stay alive.
  \<^item> \<open>Client\<close>, \<open>Cli\<close>, \<open>Bootstrap\<close>: \<open>client.c\<close>, \<open>cli.c\<close> and \<open>main.c\<close>. The shutdown works on the
    record \<open>sys\<close>: the children that run, those that have ended and are not reaped, and the table.
    Its three loops are \<open>term_loop\<close>, \<open>wait_dead\<close> and \<open>kill_loop\<close>; between any two steps of them
    children may end and the handler of \<open>SIGCHLD\<close> (\<open>reap_children\<close>) may run, and the blocking
    \<open>waitpid\<close> of a child that still runs has no result (\<open>None\<close>).
  \<^item> \<open>Network\<close>: no new code; all processes together as a step relation in which each step is a
    handler of one of the theories above, messages arrive in order or are dropped, and any process
    may die. The invariant says where each block and each transaction comes from.

  The properties. A chain: its contract, its invariant, the fork choice, what never changes (theory
  \<open>Chain\<close>); rows and files round trip, and where they do not (\<open>Block\<close>, \<open>Csv\<close>). Messages: they come
  out whole and in order, receiving with a timeout ends (\<open>Ipc\<close>). Processes: the invariant of a node
  and of a miner over any run, what is gossiped and when, what a recovery ends with, the fate of
  mined blocks and of their transactions, what clients and command line send (\<open>Node\<close> to \<open>Cli\<close>).
  The whole: the children understand their arguments, all start from one block, the shutdown returns
  with no child left (\<open>Bootstrap\<close>), nothing is forged, equal hashes mean equal histories, nothing malformed travels
  (\<open>Network\<close>). Some theorems state what the code does not do: a chain with a full block is saved
  but cannot be loaded, a miner that has missed a block never asks for it, one failed \<open>fork\<close> stops
  all nodes and clients, an interrupted save keeps part of a chain, a block whose save failed is
  never passed on.

  What is a parameter. Which system calls and allocations succeed, the clock, random numbers, the
  times at which signals are seen, how \<open>read\<close> splits a message: arguments of the definitions, over
  which the theorems quantify. An allocator grants or refuses by size. Runs are lists of rounds, so
  no fuel is needed; the bounded loops of the code have their bound in the definition (30 pauses of
  the shutdown in \<open>wait_dead\<close>, the polls of \<open>ipc_recv_timeout\<close>, halving from 1 MiB in \<open>grow_from\<close>).
  SHA-256 is evaluated nowhere: hashes of concrete blocks stay terms.
  The children of the shutdown have distinct process numbers, as the kernel gives them.

  Not modelled. The texts of log lines (the lines the command line prints are); read errors in the
  middle of a file; the bytes an answer keeps behind its NUL from the fragment before (every reader
  takes the payload as a C string). Two numbers of type \<open>int\<close> are natural numbers: \<open>cl_counter\<close>,
  where the theorem on the turns of a client has the bound below \<open>2 ^ 31\<close> as a hypothesis, since an
  overflow is undefined in C, and the timeout in seconds, always a small constant. The shell scripts
  and the Makefile are not code of the processes.
\<close>

end
